(* ===== verification/Prelude.thy ===== *)
theory Prelude
  imports Main "HOL-Library.Word" "HOL-Library.Monad_Syntax"
begin

text \<open>
  Shared ground of the development: bytes, checked memory accesses, big-endian loads, and the
  generic facts the component theories rest on.

  Undefined behaviour is a value. Every array access of the C sources goes through one of the
  checked operations below, which return \<^term>\<open>None\<close> when the access leaves the array. A definition
  that models a C function therefore has a result of type \<open>'a option\<close>, where \<^term>\<open>None\<close> means
  "the C program has left its arrays", and a theorem that such a result is \<^term>\<open>Some\<close> is a
  memory-safety theorem. The error returns of the sources (a false result, a negative status) are
  ordinary values inside that option.
\<close>

section \<open>Bytes and words\<close>

unbundle bit_operations_syntax

type_synonym byte = "8 word"
type_synonym u16 = "16 word"
type_synonym u32 = "32 word"
type_synonym u64 = "64 word"

text \<open>The bytes of an ASCII literal of the sources, without the terminating NUL.\<close>

definition ascii :: "string \<Rightarrow> byte list" where
  "ascii s = map of_char s"

text \<open>A big-endian 16-bit field: \<open>(b0 << 8) | b1\<close> of the sources.\<close>

definition be16 :: "byte \<Rightarrow> byte \<Rightarrow> u16" where
  "be16 b0 b1 = push_bit 8 (ucast b0) OR ucast b1"

text \<open>A big-endian 32-bit field, as \<open>rte_be_to_cpu_32\<close> reads it.\<close>

definition be32 :: "byte \<Rightarrow> byte \<Rightarrow> byte \<Rightarrow> byte \<Rightarrow> u32" where
  "be32 b0 b1 b2 b3 =
     push_bit 24 (ucast b0) OR push_bit 16 (ucast b1) OR push_bit 8 (ucast b2) OR ucast b3"

text \<open>A raw 32-bit load on the little-endian target, with no byte swap.\<close>

definition le32 :: "byte \<Rightarrow> byte \<Rightarrow> byte \<Rightarrow> byte \<Rightarrow> u32" where
  "le32 b0 b1 b2 b3 = be32 b3 b2 b1 b0"

section \<open>Checked memory accesses\<close>

named_theorems mem_simps \<open>checked accesses at indices that are in bounds\<close>

definition rd :: "'a list \<Rightarrow> nat \<Rightarrow> 'a option" where
  "rd xs i = (if i < length xs then Some (xs ! i) else None)"

definition wr :: "'a list \<Rightarrow> nat \<Rightarrow> 'a \<Rightarrow> 'a list option" where
  "wr xs i v = (if i < length xs then Some (xs[i := v]) else None)"

text \<open>\<open>memmove(a + dst, a + src, n)\<close> within one array; the regions may overlap.\<close>

definition c_memmove :: "'a list \<Rightarrow> nat \<Rightarrow> nat \<Rightarrow> nat \<Rightarrow> 'a list option" where
  "c_memmove a dst src n =
     (if dst + n \<le> length a \<and> src + n \<le> length a
      then Some (take dst a @ take n (drop src a) @ drop (dst + n) a) else None)"

text \<open>\<open>memset(a, v, n)\<close> from the start of an array.\<close>

definition c_memset :: "'a list \<Rightarrow> 'a \<Rightarrow> nat \<Rightarrow> 'a list option" where
  "c_memset a v n = (if n \<le> length a then Some (replicate n v @ drop n a) else None)"

definition rd16 :: "byte list \<Rightarrow> nat \<Rightarrow> u16 option" where
  "rd16 xs i = do { b0 \<leftarrow> rd xs i; b1 \<leftarrow> rd xs (i + 1); Some (be16 b0 b1) }"

definition rd32 :: "byte list \<Rightarrow> nat \<Rightarrow> u32 option" where
  "rd32 xs i = do {
     b0 \<leftarrow> rd xs i; b1 \<leftarrow> rd xs (i + 1); b2 \<leftarrow> rd xs (i + 2); b3 \<leftarrow> rd xs (i + 3);
     Some (be32 b0 b1 b2 b3) }"

definition rd32_raw :: "byte list \<Rightarrow> nat \<Rightarrow> u32 option" where
  "rd32_raw xs i = do {
     b0 \<leftarrow> rd xs i; b1 \<leftarrow> rd xs (i + 1); b2 \<leftarrow> rd xs (i + 2); b3 \<leftarrow> rd xs (i + 3);
     Some (le32 b0 b1 b2 b3) }"

section \<open>Facts about bytes and words\<close>

lemma unat_be16: "unat (be16 b0 b1) = 256 * unat b0 + unat b1"
proof -
  have "be16 b0 b1 = (word_cat b0 b1 :: u16)"
    by (simp add: be16_def word_cat_eq_push_bit_or)
  also have "\<dots> = push_bit 8 (ucast b0) + ucast b1"
    by (simp add: word_cat_eq)
  finally have eq: "be16 b0 b1 = of_nat (256 * unat b0 + unat b1)"
    by (simp add: push_bit_eq_mult)
  have "256 * unat b0 + unat b1 < 65536"
    using unsigned_less[where 'a=nat, of b0] unsigned_less[where 'a=nat, of b1] by simp
  then show ?thesis
    unfolding eq by (subst unat_of_nat) simp
qed

text \<open>The two bytes of a 16-bit length field, as a peer writes it.\<close>

definition enc16 :: "nat \<Rightarrow> byte list" where
  "enc16 n = [of_nat (n div 256), of_nat (n mod 256)]"

lemma length_enc16 [simp]: "length (enc16 n) = 2"
  by (simp add: enc16_def)

lemma unat_byte_of_nat: "n < 256 \<Longrightarrow> unat (of_nat n :: byte) = n"
  by (simp add: unat_of_nat)

lemma be16_enc16:
  assumes "n < 65536"
  shows "unat (be16 (of_nat (n div 256)) (of_nat (n mod 256))) = n"
  using assms by (simp add: unat_be16 unat_byte_of_nat less_mult_imp_div_less)

lemma unat_byte_less [simp]: "unat (b :: byte) < 256"
  using unsigned_less[where 'a=nat, of b] by simp

section \<open>Facts about checked accesses\<close>

lemma rd_in [mem_simps]: "i < length xs \<Longrightarrow> rd xs i = Some (xs ! i)"
  by (simp add: rd_def)

lemma wr_in [mem_simps]: "i < length xs \<Longrightarrow> wr xs i v = Some (xs[i := v])"
  by (simp add: wr_def)

lemma rd16_in [mem_simps]:
  "i + 1 < length xs \<Longrightarrow> rd16 xs i = Some (be16 (xs ! i) (xs ! (i + 1)))"
  by (simp add: rd16_def rd_def)

lemma rd32_in [mem_simps]:
  "i + 3 < length xs \<Longrightarrow>
   rd32 xs i = Some (be32 (xs ! i) (xs ! (i + 1)) (xs ! (i + 2)) (xs ! (i + 3)))"
  by (simp add: rd32_def rd_def)

lemma rd32_raw_in [mem_simps]:
  "i + 3 < length xs \<Longrightarrow>
   rd32_raw xs i = Some (le32 (xs ! i) (xs ! (i + 1)) (xs ! (i + 2)) (xs ! (i + 3)))"
  by (simp add: rd32_raw_def rd_def)

lemma rd_eq_Some_iff: "rd xs i = Some v \<longleftrightarrow> i < length xs \<and> xs ! i = v"
  by (auto simp: rd_def)

lemma wr_eq_Some_iff: "wr xs i v = Some ys \<longleftrightarrow> i < length xs \<and> ys = xs[i := v]"
  by (auto simp: wr_def)

lemma rd_take: "i < n \<Longrightarrow> n \<le> length xs \<Longrightarrow> rd (take n xs) i = rd xs i"
  by (simp add: rd_def)

lemma c_memmove_in [mem_simps]:
  "dst + n \<le> length a \<Longrightarrow> src + n \<le> length a \<Longrightarrow>
   c_memmove a dst src n = Some (take dst a @ take n (drop src a) @ drop (dst + n) a)"
  by (simp add: c_memmove_def)

lemma c_memset_in [mem_simps]:
  "n \<le> length a \<Longrightarrow> c_memset a v n = Some (replicate n v @ drop n a)"
  by (simp add: c_memset_def)

text \<open>
  A shift right by \<open>k\<close> of the first \<open>n\<close> cells followed by clearing the first \<open>k\<close> cells: what
  the reassembly buffer does when an earlier segment arrives.
\<close>

lemma nth_shift_right:
  assumes "k + n \<le> length a" and "i < length a"
  shows "(take k a @ take n a @ drop (k + n) a) ! i =
    (if i < k then a ! i else if i < k + n then a ! (i - k) else a ! i)"
  using assms by (auto simp: nth_append min_def)

lemma nth_shift_clear:
  assumes "k + n \<le> length a" and "i < length a"
  shows "(replicate k v @ drop k (take k a @ take n a @ drop (k + n) a)) ! i =
    (if i < k then v else if i < k + n then a ! (i - k) else a ! i)"
  using assms by (auto simp: nth_append min_def)

section \<open>Loops over a list of inputs\<close>

text \<open>A loop body applied to each input in turn; it stops at the first undefined step.\<close>

fun fold_opt :: "('s \<Rightarrow> 'i \<Rightarrow> 's option) \<Rightarrow> 's \<Rightarrow> 'i list \<Rightarrow> 's option" where
  "fold_opt f s [] = Some s"
| "fold_opt f s (x # xs) = do { s' \<leftarrow> f s x; fold_opt f s' xs }"

lemma fold_opt_append:
  "fold_opt f s (xs @ ys) = do { s' \<leftarrow> fold_opt f s xs; fold_opt f s' ys }"
  by (induction xs arbitrary: s) (auto split: Option.bind_splits)

text \<open>The loop rule: a step that is defined and keeps \<open>I\<close> makes a loop that is defined and keeps it.\<close>

lemma fold_opt_invariant:
  assumes "I s" and "\<And>s x. I s \<Longrightarrow> x \<in> set xs \<Longrightarrow> \<exists>s'. f s x = Some s' \<and> I s'"
  shows "\<exists>s'. fold_opt f s xs = Some s' \<and> I s'"
  using assms
proof (induction xs arbitrary: s)
  case (Cons x xs)
  obtain s1 where "f s x = Some s1" "I s1" using Cons.prems by auto
  moreover obtain s' where "fold_opt f s1 xs = Some s'" "I s'"
    using Cons.IH [OF \<open>I s1\<close>] Cons.prems(2) by auto
  ultimately show ?case by auto
qed simp

end
