(* ===== verification/C_String.thy ===== *)
theory C_String
  imports Prelude
begin

text \<open>
  The C string functions the sources call (\<open>strchr\<close>, \<open>strncmp\<close>, \<open>strncasecmp\<close>, \<open>strcasecmp\<close>,
  \<open>strstr\<close>, \<open>strnlen\<close>, \<open>snprintf\<close> with \<open>%.*s\<close>), in the C locale the program runs in.

  A \<open>const char *\<close> into an array is the suffix of the array that starts at the pointer, so that
  \<open>*p\<close> is the head, \<open>p + 1\<close> is the tail, \<open>q - p\<close> is a difference of lengths, and the empty list is
  the pointer one past the end, which must not be dereferenced: reading it is \<^term>\<open>None\<close>.

  The lemmas at the end say what each function computes on a NUL-terminated string
  \<open>s @ 0 # r\<close>, where \<open>s\<close> is NUL-free: the result is defined and depends on \<open>s\<close> only.
\<close>

type_synonym cptr = "byte list"

section \<open>The functions\<close>

text \<open>\<open>strchr(p, c)\<close>: inner \<^term>\<open>None\<close> is the null pointer.\<close>

primrec c_strchr :: "cptr \<Rightarrow> byte \<Rightarrow> cptr option option" where
  "c_strchr [] c = None"
| "c_strchr (x # xs) c =
     (if x = c then Some (Some (x # xs)) else if x = 0 then Some None else c_strchr xs c)"

text \<open>\<open>tolower\<close> in the C locale.\<close>

definition c_tolower :: "byte \<Rightarrow> byte" where
  "c_tolower b = (if 65 \<le> b \<and> b \<le> 90 then b + 32 else b)"

text \<open>
  Comparison of at most \<open>length lit\<close> characters of \<open>p\<close> with a literal, each character mapped by
  \<open>f\<close> first: \<open>strncmp(p, lit, strlen(lit)) == 0\<close> for the identity,
  \<open>strncasecmp(p, lit, strlen(lit)) == 0\<close> for \<^const>\<open>c_tolower\<close>.
\<close>

fun c_strn_eq :: "(byte \<Rightarrow> byte) \<Rightarrow> cptr \<Rightarrow> byte list \<Rightarrow> bool option" where
  "c_strn_eq f p [] = Some True"
| "c_strn_eq f [] (c # cs) = None"
| "c_strn_eq f (x # xs) (c # cs) =
     (if f x \<noteq> f c then Some False
      else if x = 0 then Some True else c_strn_eq f xs cs)"

abbreviation c_strncmp_eq :: "cptr \<Rightarrow> byte list \<Rightarrow> bool option" where
  "c_strncmp_eq \<equiv> c_strn_eq (\<lambda>b. b)"

abbreviation c_strncasecmp_eq :: "cptr \<Rightarrow> byte list \<Rightarrow> bool option" where
  "c_strncasecmp_eq \<equiv> c_strn_eq c_tolower"

text \<open>\<open>strstr(p, lit)\<close> for a literal that is not empty.\<close>

primrec c_strstr :: "cptr \<Rightarrow> byte list \<Rightarrow> cptr option option" where
  "c_strstr [] lit = None"
| "c_strstr (x # xs) lit = do {
     b \<leftarrow> c_strncmp_eq (x # xs) lit;
     if b then Some (Some (x # xs)) else if x = 0 then Some None else c_strstr xs lit }"

text \<open>What \<open>%.*s\<close> prints: at most \<open>n\<close> characters, up to the NUL.\<close>

fun c_prec_str :: "nat \<Rightarrow> cptr \<Rightarrow> byte list option" where
  "c_prec_str 0 p = Some []"
| "c_prec_str (Suc n) [] = None"
| "c_prec_str (Suc n) (x # xs) =
     (if x = 0 then Some [] else do { s \<leftarrow> c_prec_str n xs; Some (x # s) })"

text \<open>
  \<open>snprintf(dst, sizeof(dst), ...)\<close> whose directives expand to \<open>out\<close>: at most
  \<open>sizeof(dst) - 1\<close> characters and a NUL, the rest of \<open>dst\<close> unchanged.
\<close>

definition c_snprintf :: "byte list \<Rightarrow> byte list \<Rightarrow> byte list" where
  "c_snprintf dst out =
     (let t = take (length dst - 1) out in t @ 0 # drop (Suc (length t)) dst)"

definition c_strnlen :: "cptr \<Rightarrow> nat \<Rightarrow> nat" where
  "c_strnlen p n = length (takeWhile (\<lambda>b. b \<noteq> 0) (take n p))"

text \<open>\<open>while (*p == c) p++\<close>.\<close>

primrec c_skip :: "byte \<Rightarrow> cptr \<Rightarrow> cptr option" where
  "c_skip c [] = None"
| "c_skip c (x # xs) = (if x = c then c_skip c xs else Some (x # xs))"

section \<open>The same searches on the string itself\<close>

text \<open>Reference searches over the NUL-free string, used to state what the C functions compute.\<close>

definition match_at :: "(byte \<Rightarrow> byte) \<Rightarrow> byte list \<Rightarrow> byte list \<Rightarrow> bool" where
  "match_at f lit s \<longleftrightarrow> map f (take (length lit) s) = map f lit"

primrec find_sub :: "(byte \<Rightarrow> byte) \<Rightarrow> byte list \<Rightarrow> byte list \<Rightarrow> byte list option" where
  "find_sub f lit [] = None"
| "find_sub f lit (x # xs) =
     (if match_at f lit (x # xs) then Some (x # xs) else find_sub f lit xs)"

definition nul_free :: "byte list \<Rightarrow> bool" where
  "nul_free s \<longleftrightarrow> 0 \<notin> set s"

section \<open>What the functions compute on NUL-terminated strings\<close>

lemma nul_free_simps [simp]:
  "nul_free []" "nul_free (x # xs) \<longleftrightarrow> x \<noteq> 0 \<and> nul_free xs"
  "nul_free (s @ t) \<longleftrightarrow> nul_free s \<and> nul_free t"
  by (auto simp: nul_free_def)

lemma nul_free_dropWhile: "nul_free s \<Longrightarrow> nul_free (dropWhile P s)"
  by (auto simp: nul_free_def dest: set_dropWhileD)

lemma nul_free_takeWhile: "nul_free s \<Longrightarrow> nul_free (takeWhile P s)"
  by (auto simp: nul_free_def dest: set_takeWhileD)

lemma nul_free_drop: "nul_free s \<Longrightarrow> nul_free (drop n s)"
  by (auto simp: nul_free_def dest: in_set_dropD)

lemma nul_free_take: "nul_free s \<Longrightarrow> nul_free (take n s)"
  by (auto simp: nul_free_def dest: in_set_takeD)

lemma nul_free_tl: "nul_free s \<Longrightarrow> nul_free (tl s)"
  by (cases s) simp_all

text \<open>Every array with a NUL in it splits into the string and the rest.\<close>

lemma cstr_split:
  assumes "0 \<in> set p"
  obtains s r where "p = s @ 0 # r" "nul_free s" "s = takeWhile (\<lambda>b. b \<noteq> 0) p"
proof -
  from assms obtain s r where "p = s @ 0 # r" "0 \<notin> set s"
    by (meson split_list_first)
  moreover from this have "s = takeWhile (\<lambda>b. b \<noteq> 0) p"
    by (auto simp: takeWhile_append takeWhile_eq_all_conv[THEN iffD2])
  ultimately show ?thesis using that by (auto simp: nul_free_def)
qed

lemma c_strchr_nul:
  assumes "nul_free s" and "c \<noteq> 0"
  shows "c_strchr (s @ 0 # r) c =
    Some (if c \<in> set s then Some (dropWhile (\<lambda>b. b \<noteq> c) s @ 0 # r) else None)"
  using assms by (induction s) auto

lemma c_tolower_zero_iff: "c_tolower b = 0 \<longleftrightarrow> b = 0"
proof -
  have "b + 32 \<noteq> 0" if "65 \<le> b" "b \<le> 90"
  proof -
    have "65 \<le> unat b" "unat b \<le> 90"
      using that by (simp_all add: word_le_nat_alt)
    then have "unat (b + 32) = unat b + 32"
      by (simp add: unat_word_ariths)
    then show ?thesis by (metis add_is_0 unat_0 zero_neq_numeral)
  qed
  then show ?thesis by (auto simp: c_tolower_def)
qed

text \<open>A comparison may stop at the NUL: no literal of the sources contains one.\<close>

lemma c_strn_eq_nul:
  assumes "nul_free s" and "nul_free lit" and f0: "\<And>b. f b = f 0 \<longleftrightarrow> b = 0"
  shows "c_strn_eq f (s @ 0 # r) lit = Some (match_at f lit s)"
  using assms(1,2)
proof (induction lit arbitrary: s)
  case Nil
  then show ?case by (simp add: match_at_def)
next
  case (Cons c cs)
  show ?case
  proof (cases s)
    case Nil
    have "f 0 \<noteq> f c" using Cons.prems f0 [of c] by auto
    then show ?thesis using Nil by (simp add: match_at_def)
  next
    case (Cons x xs)
    with Cons.prems Cons.IH show ?thesis by (auto simp: match_at_def)
  qed
qed

lemma c_strncmp_eq_nul:
  "nul_free s \<Longrightarrow> nul_free lit \<Longrightarrow>
   c_strncmp_eq (s @ 0 # r) lit = Some (match_at (\<lambda>b. b) lit s)"
  by (rule c_strn_eq_nul) auto

lemma c_strncasecmp_eq_nul:
  "nul_free s \<Longrightarrow> nul_free lit \<Longrightarrow>
   c_strncasecmp_eq (s @ 0 # r) lit = Some (match_at c_tolower lit s)"
  by (rule c_strn_eq_nul) (auto simp: c_tolower_zero_iff c_tolower_zero_iff [of 0, simplified])

lemma match_at_Nil: "lit \<noteq> [] \<Longrightarrow> \<not> match_at f lit []"
  by (simp add: match_at_def)

lemma match_at_append: "match_at f lit (lit @ s)"
  by (simp add: match_at_def)

lemma match_at_id: "match_at (\<lambda>b. b) lit s \<longleftrightarrow> take (length lit) s = lit"
  by (simp add: match_at_def)

lemma c_strstr_nul:
  assumes "nul_free s" and "nul_free lit" and "lit \<noteq> []"
  shows "c_strstr (s @ 0 # r) lit =
    Some (map_option (\<lambda>t. t @ 0 # r) (find_sub (\<lambda>b. b) lit s))"
  using assms(1)
proof (induction s)
  case Nil
  then show ?case
    using c_strncmp_eq_nul [of "[]" lit r] assms(2,3) by (simp add: match_at_Nil)
next
  case (Cons x xs)
  then show ?case
    using c_strncmp_eq_nul [of "x # xs" lit r] assms(2) by simp
qed

lemma find_sub_suffix: "find_sub f lit s = Some t \<Longrightarrow> \<exists>u. s = u @ t"
proof (induction s)
  case (Cons x xs)
  then show ?case by (cases "match_at f lit (x # xs)") (auto intro: exI [of _ "[]"])
qed simp

lemma find_sub_match: "find_sub f lit s = Some t \<Longrightarrow> match_at f lit t"
  by (induction s) (auto split: if_splits)

lemma find_sub_length: "find_sub f lit s = Some t \<Longrightarrow> length lit \<le> length t"
  by (drule find_sub_match) (auto simp: match_at_def dest: arg_cong [where f = length])

lemma find_sub_nul_free: "find_sub f lit s = Some t \<Longrightarrow> nul_free s \<Longrightarrow> nul_free t"
  by (auto dest: find_sub_suffix)

lemma c_prec_str_nul:
  "nul_free s \<Longrightarrow> c_prec_str n (s @ 0 # r) = Some (take n s)"
proof (induction s arbitrary: n)
  case Nil
  then show ?case by (cases n) auto
next
  case (Cons x xs)
  then show ?case by (cases n) auto
qed

lemma c_prec_str_within:
  "n \<le> length p \<Longrightarrow> c_prec_str n p = Some (takeWhile (\<lambda>b. b \<noteq> 0) (take n p))"
  by (induction n p rule: c_prec_str.induct) auto

lemma c_skip_nul:
  "c \<noteq> 0 \<Longrightarrow> c_skip c (s @ 0 # r) = Some (dropWhile (\<lambda>b. b = c) s @ 0 # r)"
  by (induction s) auto

lemma length_c_snprintf [simp]: "dst \<noteq> [] \<Longrightarrow> length (c_snprintf dst out) = length dst"
  by (cases dst) (simp_all add: c_snprintf_def Let_def)

lemma c_snprintf_strnlen:
  assumes "nul_free out" and "dst \<noteq> []"
  shows "c_strnlen (c_snprintf dst out) (length dst) = min (length dst - 1) (length out)"
proof -
  let ?t = "take (length dst - 1) out"
  have "nul_free ?t" using assms(1) by (rule nul_free_take)
  then have "takeWhile (\<lambda>b. b \<noteq> 0) (?t @ 0 # drop (Suc (length ?t)) dst) = ?t"
    by (subst takeWhile_append2) (auto simp: nul_free_def)
  moreover have "take (length dst) (c_snprintf dst out) = c_snprintf dst out"
    using assms(2) by simp
  ultimately show ?thesis
    by (simp add: c_strnlen_def c_snprintf_def Let_def min.commute)
qed

lemma take_c_snprintf:
  "take (min (length dst - 1) (length out)) (c_snprintf dst out) = take (length dst - 1) out"
  by (cases "length out \<le> length dst - 1") (simp_all add: c_snprintf_def Let_def)

end
