(* ===== verification/Hyperdpi_Types.thy ===== *)
theory Hyperdpi_Types
  imports C_String
begin

text \<open>
  The data model shared by the components: the constants and enumerations of
  \<open>include/hyperdpi.h\<close>, and the structures of \<open>include/parser.h\<close>.
\<close>

section \<open>include/hyperdpi.h\<close>

abbreviation (input) MAX_WORKERS :: nat where "MAX_WORKERS \<equiv> 4"
abbreviation (input) BURST_SIZE :: nat where "BURST_SIZE \<equiv> 32"
abbreviation (input) RX_RING_SIZE :: nat where "RX_RING_SIZE \<equiv> 1024"
abbreviation (input) WORKER_RING_SIZE :: nat where "WORKER_RING_SIZE \<equiv> 1024"
abbreviation (input) TX_RING_SIZE :: nat where "TX_RING_SIZE \<equiv> 1024"
abbreviation (input) MBUF_POOL_CACHE_SIZE :: nat where "MBUF_POOL_CACHE_SIZE \<equiv> 256"
abbreviation (input) HTTP_PORT :: u16 where "HTTP_PORT \<equiv> 80"
abbreviation (input) HTTPS_PORT :: u16 where "HTTPS_PORT \<equiv> 443"

datatype traffic_type = TRAFFIC_NON_DPI | TRAFFIC_HTTP | TRAFFIC_HTTPS

datatype packet_action = ACTION_FORWARD | ACTION_DROP

section \<open>include/parser.h\<close>

text \<open>
  The addresses are kept as the raw 32-bit loads of the IPv4 header (network byte order in
  memory); the ports are in host byte order.
\<close>

record flow_key =
  src_ip :: u32
  dst_ip :: u32
  src_port :: u16
  dst_port :: u16
  proto :: byte

text \<open>
  \<open>payload\<close> is the pointer into the packet and \<open>payload_len\<close> the 16-bit length. A packet's data
  length is a 16-bit field itself, so the subtraction that yields \<open>payload_len\<close> never wraps and a
  natural number stands for it.
\<close>

record l2l4_result =
  l2l4_type :: traffic_type
  l2l4_key :: flow_key
  l2l4_payload :: cptr
  l2l4_payload_len :: nat
  l2l4_seq :: u32

datatype reassembly_status =
  REASSEMBLY_PENDING | REASSEMBLY_READY | REASSEMBLY_CACHED | REASSEMBLY_GIVE_UP | REASSEMBLY_NO_SNI

datatype fallback_verdict = FALLBACK_UNKNOWN | FALLBACK_SUSPICIOUS

record flow_features =
  total_bytes :: u32
  packet_count :: u32
  first_seen_tsc :: u64
  last_seen_tsc :: u64

text \<open>
  What the program reads of a DPDK packet buffer: the bytes of its (single) data segment, of which
  there are fewer than \<open>2 ^ 16\<close>, and the packet length counted by the RX statistics.
\<close>

record rte_mbuf =
  mbuf_data :: "byte list"
  mbuf_pkt_len :: u32

definition mbuf_ok :: "rte_mbuf \<Rightarrow> bool" where
  "mbuf_ok m \<longleftrightarrow> length (mbuf_data m) < 2 ^ 16"

end
