(* ===== verification/Headers.thy ===== *)
theory Headers
  imports Hyperdpi_Types
begin

text \<open>
  L2-L4 header extraction (\<open>extract_headers\<close>, \<open>parser_flow_rss_hash\<close> and \<open>parser_parse_l2_l4\<close> of
  \<open>src/parser.c\<close>). Offsets and header lengths are natural numbers: they are bounded by
  \<open>14 + 60 + 60\<close>, far below the width of the C variables.

  Shown: no packet makes the extraction read outside the packet; a TCP frame to port 80 or 443
  parses back into the fields it was built from, whatever its IP and TCP options; UDP is never
  accepted; the IPv4 total length plays no part in the result; both users of the extraction agree.
\<close>

section \<open>Model\<close>

abbreviation (input) RTE_ETHER_TYPE_IPV4 :: u16 where "RTE_ETHER_TYPE_IPV4 \<equiv> 0x0800"
abbreviation (input) IPPROTO_TCP :: byte where "IPPROTO_TCP \<equiv> 6"
abbreviation (input) IPPROTO_UDP :: byte where "IPPROTO_UDP \<equiv> 17"
abbreviation (input) ETHER_HDR_LEN :: nat where "ETHER_HDR_LEN \<equiv> 14"
abbreviation (input) IPV4_HDR_LEN :: nat where "IPV4_HDR_LEN \<equiv> 20"
abbreviation (input) TCP_HDR_LEN :: nat where "TCP_HDR_LEN \<equiv> 20"
abbreviation (input) UDP_HDR_LEN :: nat where "UDP_HDR_LEN \<equiv> 8"

text \<open>The locals \<open>src_port\<close>, \<open>dst_port\<close>, \<open>data_off\<close> and, for TCP, \<open>*seq\<close>.\<close>

datatype l4_fields =
    L4_TCP (l4_src: u16) (l4_dst: u16) (l4_off: nat) (l4_seq: u32)
  | L4_UDP (l4_src: u16) (l4_dst: u16) (l4_off: nat)

text \<open>The transport-header branch of \<open>extract_headers\<close>; an inner \<^term>\<open>None\<close> is \<open>return false\<close>.\<close>

definition extract_l4 :: "byte list \<Rightarrow> byte \<Rightarrow> nat \<Rightarrow> l4_fields option option" where
  "extract_l4 base pr off =
     (if pr = IPPROTO_TCP then
        if length base < off + TCP_HDR_LEN then Some None
        else do {
          sp \<leftarrow> rd16 base off;
          dp \<leftarrow> rd16 base (off + 2);
          d \<leftarrow> rd base (off + 12);
          let doff = unat (drop_bit 4 d) * 4;
          if doff < TCP_HDR_LEN then Some None
          else do {
            sq \<leftarrow> rd32 base (off + 4);
            Some (Some (L4_TCP sp dp (off + doff) sq)) } }
      else
        if length base < off + UDP_HDR_LEN then Some None
        else do {
          sp \<leftarrow> rd16 base off;
          dp \<leftarrow> rd16 base (off + 2);
          Some (Some (L4_UDP sp dp (off + UDP_HDR_LEN))) })"

text \<open>The classification by destination port.\<close>

definition classify_port :: "u16 \<Rightarrow> traffic_type option" where
  "classify_port dp =
     (if dp = HTTP_PORT then Some TRAFFIC_HTTP
      else if dp = HTTPS_PORT then Some TRAFFIC_HTTPS else None)"

text \<open>
  The tail of \<open>extract_headers\<close>, once the transport header is read: the key's ports, the TCP and
  port filters, the payload bounds.
\<close>

fun finish_headers ::
  "byte list \<Rightarrow> u32 \<Rightarrow> u32 \<Rightarrow> byte \<Rightarrow> l4_fields \<Rightarrow> l2l4_result option" where
  "finish_headers base sip dip pr (L4_UDP sp dp off) = None"
| "finish_headers base sip dip pr (L4_TCP sp dp off sq) =
     (case classify_port dp of
        None \<Rightarrow> None
      | Some ty \<Rightarrow>
          if off > length base then None
          else Some \<lparr>l2l4_type = ty,
                 l2l4_key = \<lparr>src_ip = sip, dst_ip = dip, src_port = sp, dst_port = dp,
                             proto = pr\<rparr>,
                 l2l4_payload = drop off base, l2l4_payload_len = length base - off,
                 l2l4_seq = sq\<rparr>)"

text \<open>
  The whole function. An inner \<^term>\<open>None\<close> is \<open>return false\<close>, after which no caller looks at
  the output parameters.
\<close>

definition extract_headers :: "rte_mbuf \<Rightarrow> l2l4_result option option" where
  "extract_headers pkt =
     (let base = mbuf_data pkt; data_len = length base in
      if data_len < ETHER_HDR_LEN then Some None
      else do {
        ether_type \<leftarrow> rd16 base 12;
        if ether_type \<noteq> RTE_ETHER_TYPE_IPV4 then Some None
        else if data_len < ETHER_HDR_LEN + IPV4_HDR_LEN then Some None
        else do {
          version_ihl \<leftarrow> rd base ETHER_HDR_LEN;
          let ihl = unat (version_ihl AND 0x0f) * 4;
          if ihl < IPV4_HDR_LEN \<or> data_len < ETHER_HDR_LEN + ihl then Some None
          else do {
            pr \<leftarrow> rd base (ETHER_HDR_LEN + 9);
            if pr \<noteq> IPPROTO_TCP \<and> pr \<noteq> IPPROTO_UDP then Some None
            else do {
              sip \<leftarrow> rd32_raw base (ETHER_HDR_LEN + 12);
              dip \<leftarrow> rd32_raw base (ETHER_HDR_LEN + 16);
              l4 \<leftarrow> extract_l4 base pr (ETHER_HDR_LEN + ihl);
              case l4 of None \<Rightarrow> Some None | Some f \<Rightarrow> Some (finish_headers base sip dip pr f) } } } })"

text \<open>\<open>rte_jhash\<close> over the packed key is DPDK code: a parameter.\<close>

definition parser_flow_rss_hash :: "(flow_key \<Rightarrow> u32) \<Rightarrow> rte_mbuf \<Rightarrow> u32 option" where
  "parser_flow_rss_hash rte_jhash pkt = do {
     r \<leftarrow> extract_headers pkt;
     case r of None \<Rightarrow> Some 0 | Some l \<Rightarrow> Some (rte_jhash (l2l4_key l)) }"

definition parser_parse_l2_l4 :: "rte_mbuf \<Rightarrow> l2l4_result option option" where
  "parser_parse_l2_l4 pkt = extract_headers pkt"

section \<open>Facts used by the other components\<close>

lemma extract_l4_defined: "\<exists>r. extract_l4 base pr off = Some r"
  by (simp add: extract_l4_def mem_simps Let_def)

lemma extract_headers_defined: "\<exists>r. extract_headers pkt = Some r"
proof -
  let ?b = "mbuf_data pkt"
  consider "length ?b < 34" | "34 \<le> length ?b" by linarith
  then show ?thesis
  proof cases
    case 1
    then show ?thesis by (auto simp: extract_headers_def Let_def mem_simps)
  next
    case 2
    then obtain l where "extract_l4 ?b (?b ! 23) (14 + unat (?b ! 14 AND 15) * 4) = Some l"
      using extract_l4_defined by blast
    with 2 show ?thesis
      by (auto simp: extract_headers_def Let_def mem_simps split: option.splits)
  qed
qed

text \<open>What an accepted packet looks like.\<close>

lemma extract_l4_TCPD:
  assumes "extract_l4 base pr off = Some (Some (L4_TCP sp dp doff sq))"
  shows "pr = IPPROTO_TCP" "off + 20 \<le> doff"
  using assms
  by (auto simp: extract_l4_def Let_def bind_eq_Some_conv split: if_split_asm)

lemma finish_headers_SomeE:
  assumes "finish_headers base sip dip pr f = Some r"
  obtains sp dp off sq where "f = L4_TCP sp dp off sq" "off \<le> length base"
    "classify_port dp = Some (l2l4_type r)"
    "l2l4_key r = \<lparr>src_ip = sip, dst_ip = dip, src_port = sp, dst_port = dp, proto = pr\<rparr>"
    "l2l4_payload r = drop off base" "l2l4_payload_len r = length base - off" "l2l4_seq r = sq"
  using assms by (cases f) (auto split: option.split_asm if_split_asm)

definition accepted :: "byte list \<Rightarrow> byte \<Rightarrow> byte \<Rightarrow> u32 \<Rightarrow> u32 \<Rightarrow> l4_fields \<Rightarrow> bool" where
  "accepted base vi pr sip dip f \<longleftrightarrow>
     34 \<le> length base \<and> rd16 base 12 = Some RTE_ETHER_TYPE_IPV4 \<and> rd base 14 = Some vi \<and>
     5 \<le> unat (vi AND 15) \<and> 14 + unat (vi AND 15) * 4 \<le> length base \<and>
     rd base 23 = Some pr \<and> (pr = IPPROTO_TCP \<or> pr = IPPROTO_UDP) \<and>
     rd32_raw base 26 = Some sip \<and> rd32_raw base 30 = Some dip \<and>
     extract_l4 base pr (14 + unat (vi AND 15) * 4) = Some (Some f)"

lemma extract_headers_Some_iff:
  "extract_headers pkt = Some (Some r) \<longleftrightarrow>
   (\<exists>vi pr sip dip f. accepted (mbuf_data pkt) vi pr sip dip f \<and>
      finish_headers (mbuf_data pkt) sip dip pr f = Some r)" (is "?l \<longleftrightarrow> ?r")
proof
  assume ?l
  then show ?r
    by (auto simp: extract_headers_def Let_def bind_eq_Some_conv accepted_def not_less
        split: if_split_asm option.split_asm)
next
  assume ?r
  then obtain vi pr sip dip f where "accepted (mbuf_data pkt) vi pr sip dip f"
    and "finish_headers (mbuf_data pkt) sip dip pr f = Some r" by blast
  then show ?l by (simp add: extract_headers_def Let_def accepted_def)
qed

lemma extract_headers_SomeE:
  assumes "extract_headers pkt = Some (Some r)"
  obtains vi pr sip dip f where "accepted (mbuf_data pkt) vi pr sip dip f"
    "finish_headers (mbuf_data pkt) sip dip pr f = Some r"
  using assms by (auto simp: extract_headers_Some_iff)

lemma extract_headers_SomeD:
  assumes "extract_headers pkt = Some (Some r)"
  shows "proto (l2l4_key r) = IPPROTO_TCP"
    and "classify_port (dst_port (l2l4_key r)) = Some (l2l4_type r)"
    and "l2l4_payload_len r = length (l2l4_payload r)"
    and "\<exists>off. 54 \<le> off \<and> l2l4_payload r = drop off (mbuf_data pkt)"
proof -
  from assms obtain vi pr sip dip f where acc: "accepted (mbuf_data pkt) vi pr sip dip f"
    and fin: "finish_headers (mbuf_data pkt) sip dip pr f = Some r"
    by (rule extract_headers_SomeE)
  from fin obtain sp dp off sq where f: "f = L4_TCP sp dp off sq"
    and r: "classify_port dp = Some (l2l4_type r)"
      "l2l4_key r = \<lparr>src_ip = sip, dst_ip = dip, src_port = sp, dst_port = dp, proto = pr\<rparr>"
      "l2l4_payload r = drop off (mbuf_data pkt)"
      "l2l4_payload_len r = length (mbuf_data pkt) - off"
    by (rule finish_headers_SomeE)
  from acc have tcp: "pr = IPPROTO_TCP" "54 \<le> off"
    unfolding accepted_def f using extract_l4_TCPD by fastforce+
  with r show "proto (l2l4_key r) = IPPROTO_TCP"
    and "classify_port (dst_port (l2l4_key r)) = Some (l2l4_type r)"
    and "l2l4_payload_len r = length (l2l4_payload r)"
    and "\<exists>off. 54 \<le> off \<and> l2l4_payload r = drop off (mbuf_data pkt)"
    by auto
qed

lemma classify_port_range: "classify_port dp = Some ty \<Longrightarrow> ty \<in> {TRAFFIC_HTTP, TRAFFIC_HTTPS}"
  by (auto simp: classify_port_def split: if_splits)

lemma extract_headers_type:
  "extract_headers pkt = Some (Some r) \<Longrightarrow> l2l4_type r \<in> {TRAFFIC_HTTP, TRAFFIC_HTTPS}"
  by (metis classify_port_range extract_headers_SomeD(2))

text \<open>The header nibbles.\<close>

lemma unat_and_15: "unat ((b :: byte) AND 15) = unat b mod 16"
proof -
  have "b AND 15 = take_bit 4 b"
    by (simp add: take_bit_eq_mask mask_numeral)
  then show ?thesis by (simp add: take_bit_eq_mod unat_mod)
qed

lemma unat_drop_4: "unat (drop_bit 4 (b :: byte)) = unat b div 16"
  by (simp add: drop_bit_eq_div unat_div)

lemma rd_append: "i < length xs \<Longrightarrow> rd (xs @ ys) i = rd xs i"
  by (simp add: rd_def nth_append)

lemma rd_update_other: "i \<noteq> j \<Longrightarrow> rd (xs[i := v]) j = rd xs j"
  by (simp add: rd_def)

lemma rd_append_Some: "rd xs i = Some v \<Longrightarrow> rd (xs @ ys) i = Some v"
  by (auto simp: rd_def nth_append split: if_split_asm)

lemma rd_fields_append:
  "rd16 xs i = Some w \<Longrightarrow> rd16 (xs @ ys) i = Some w"
  "rd32 xs i = Some u \<Longrightarrow> rd32 (xs @ ys) i = Some u"
  "rd32_raw xs i = Some u \<Longrightarrow> rd32_raw (xs @ ys) i = Some u"
  by (auto simp: rd16_def rd32_def rd32_raw_def bind_eq_Some_conv rd_eq_Some_iff nth_append)

lemma extract_l4_append:
  assumes "extract_l4 xs pr off = Some (Some f)"
  shows "extract_l4 (xs @ ys) pr off = Some (Some f)"
  using assms
  by (simp add: extract_l4_def Let_def mem_simps nth_append split: if_split_asm)

lemma finish_headers_append:
  assumes "finish_headers xs sip dip pr f = Some r"
  shows "finish_headers (xs @ ys) sip dip pr f =
    Some (r\<lparr>l2l4_payload := l2l4_payload r @ ys,
            l2l4_payload_len := l2l4_payload_len r + length ys\<rparr>)"
  using assms by (cases f) (auto split: option.split_asm if_split_asm)

section \<open>Properties\<close>

text \<open>
  Whatever bytes a packet holds, and however short it is, the L2-L4 extraction of the RX
  steering hash and of the worker reads no byte outside the packet.
\<close>

lemma extract_headers_memory_safe:
  "parser_parse_l2_l4 pkt \<noteq> None \<and> parser_flow_rss_hash rte_jhash pkt \<noteq> None"
  using extract_headers_defined [of pkt]
  by (auto simp: parser_parse_l2_l4_def parser_flow_rss_hash_def split: option.splits)

text \<open>
  A TCP frame as a sender lays it out: Ethernet addresses, EtherType, an IPv4 header with version
  nibble \<open>ver\<close> and \<open>k\<close> words of options, a TCP header with \<open>j\<close> words of options and low data-offset
  nibble \<open>res\<close>, the payload.
\<close>

definition tcp_frame ::
  "byte list \<Rightarrow> nat \<Rightarrow> byte list \<Rightarrow> byte list \<Rightarrow> byte list \<Rightarrow> byte list \<Rightarrow> byte list \<Rightarrow>
   byte list \<Rightarrow> nat \<Rightarrow> byte list \<Rightarrow> byte list \<Rightarrow> byte list \<Rightarrow> byte list" where
  "tcp_frame macs ver ip1 csum addrs ipopt ports sqack res fl tcpopt payload =
     macs @ [0x08, 0x00] @ [of_nat (16 * ver + 5 + length ipopt div 4)] @ ip1 @ [6] @ csum @
     addrs @ ipopt @ ports @ sqack @ [of_nat (16 * (5 + length tcpopt div 4) + res)] @ fl @
     tcpopt @ payload"

lemma nth_append_at: "length xs = n \<Longrightarrow> (xs @ ys) ! (n + i) = ys ! i"
  by (simp add: nth_append)

lemma frame_nibbles:
  assumes "ver < 16" "k \<le> 10" "j \<le> 10" "res < 16"
  shows "unat ((of_nat (16 * ver + 5 + k) :: byte) AND 15) = 5 + k"
    and "unat (drop_bit 4 (of_nat (16 * (5 + j) + res) :: byte)) = 5 + j"
proof -
  have "unat (of_nat (16 * ver + 5 + k) :: byte) = 16 * ver + 5 + k"
    and "unat (of_nat (16 * (5 + j) + res) :: byte) = 16 * (5 + j) + res"
    using assms by (simp_all only: unat_of_nat) simp_all
  moreover have "(16 * ver + 5 + k) mod 16 = 5 + k"
    using assms mod_mult_self4 [of 16 ver "5 + k"] by (simp add: add.assoc)
  moreover have "(16 * (5 + j) + res) div 16 = 5 + j"
    using assms by (subst div_mult_self4) simp_all
  ultimately show "unat ((of_nat (16 * ver + 5 + k) :: byte) AND 15) = 5 + k"
    and "unat (drop_bit 4 (of_nat (16 * (5 + j) + res) :: byte)) = 5 + j"
    by (simp_all only: unat_and_15 unat_drop_4)
qed

lemma tcp_frame_parses:
  assumes "length macs = 12" "ver < 16" "length ip1 = 8" "length csum = 2"
    and "length ipopt = 4 * k" "k \<le> 10" "length tcpopt = 4 * j" "j \<le> 10" "res < 16"
    and "length fl = 7"
  shows "parser_parse_l2_l4 \<lparr>mbuf_data = tcp_frame macs ver ip1 csum
           [a0, a1, a2, a3, b0, b1, b2, b3] ipopt [s0, s1, d0, d1]
           [q0, q1, q2, q3, k0, k1, k2, k3] res fl tcpopt payload, mbuf_pkt_len = n\<rparr> =
    Some (map_option (\<lambda>ty. \<lparr>l2l4_type = ty,
            l2l4_key = \<lparr>src_ip = le32 a0 a1 a2 a3, dst_ip = le32 b0 b1 b2 b3,
                        src_port = be16 s0 s1, dst_port = be16 d0 d1, proto = 6\<rparr>,
            l2l4_payload = payload, l2l4_payload_len = length payload,
            l2l4_seq = be32 q0 q1 q2 q3\<rparr>) (classify_port (be16 d0 d1)))"
proof -
  note nib = frame_nibbles [OF assms(2) assms(6) assms(8,9)]
  have et: "be16 8 0 = (0x0800 :: u16)" by (simp add: be16_def)
  show ?thesis
    using assms nib
    by (simp add: parser_parse_l2_l4_def extract_headers_def tcp_frame_def Let_def
        extract_l4_def mem_simps et nth_append del: of_nat_add of_nat_mult)
       (simp add: drop_Cons' split: option.splits)
qed

text \<open>
  C39: a well-formed TCP frame parses back into what it was built from, for every IPv4 and TCP
  option length: the addresses, ports and sequence number come from their fields, the payload is
  exactly what follows the TCP options, and the port alone decides between HTTP, HTTPS and reject.
\<close>

theorem extract_headers_roundtrip:
  assumes "length macs = 12" "ver < 16" "length ip1 = 8" "length csum = 2"
    and "length ipopt = 4 * k" "k \<le> 10" "length tcpopt = 4 * j" "j \<le> 10" "res < 16"
    and "length fl = 7"
  shows "parser_parse_l2_l4 \<lparr>mbuf_data = tcp_frame macs ver ip1 csum
           [a0, a1, a2, a3, b0, b1, b2, b3] ipopt [s0, s1, d0, d1]
           [q0, q1, q2, q3, k0, k1, k2, k3] res fl tcpopt payload, mbuf_pkt_len = n\<rparr> =
    Some (map_option (\<lambda>ty. \<lparr>l2l4_type = ty,
            l2l4_key = \<lparr>src_ip = le32 a0 a1 a2 a3, dst_ip = le32 b0 b1 b2 b3,
                        src_port = be16 s0 s1, dst_port = be16 d0 d1, proto = 6\<rparr>,
            l2l4_payload = payload, l2l4_payload_len = length payload,
            l2l4_seq = be32 q0 q1 q2 q3\<rparr>) (classify_port (be16 d0 d1)))"
  using assms by (rule tcp_frame_parses)

theorem extract_headers_roundtrip_witness:
  "parser_parse_l2_l4 \<lparr>mbuf_data = tcp_frame (replicate 12 0) 4 (replicate 8 0) [0, 0]
      [10, 0, 0, 1, 10, 0, 0, 2] [1, 1, 1, 1] [0x30, 0x39, 0x01, 0xbb]
      [0, 0, 3, 233, 0, 0, 0, 0] 0 (replicate 7 0) [1, 1, 1, 1] [22, 3, 1],
      mbuf_pkt_len = 65\<rparr> =
   Some (Some \<lparr>l2l4_type = TRAFFIC_HTTPS,
     l2l4_key = \<lparr>src_ip = 0x0100000a, dst_ip = 0x0200000a, src_port = 12345, dst_port = 443,
                 proto = 6\<rparr>,
     l2l4_payload = [22, 3, 1], l2l4_payload_len = 3, l2l4_seq = 1001\<rparr>)"
proof -
  have "classify_port (be16 1 187) = Some TRAFFIC_HTTPS"
    by (simp add: classify_port_def be16_def)
  then show ?thesis
    by (subst extract_headers_roundtrip [where k = 1 and j = 1])
      (simp_all add: be16_def be32_def le32_def)
qed

text \<open>
  A UDP packet is rejected whatever its ports, also on port 80 or 443.
\<close>

lemma extract_headers_rejects_udp:
  assumes "rd (mbuf_data pkt) 23 = Some IPPROTO_UDP"
  shows "parser_parse_l2_l4 pkt = Some None"
proof -
  obtain r where r: "extract_headers pkt = Some r"
    using extract_headers_defined by blast
  have "r = None"
  proof (rule ccontr)
    assume "r \<noteq> None"
    then obtain x where "extract_headers pkt = Some (Some x)" using r by auto
    then obtain vi pr sip dip f where "accepted (mbuf_data pkt) vi pr sip dip f"
      and "finish_headers (mbuf_data pkt) sip dip pr f = Some x" by (rule extract_headers_SomeE)
    with assms show False
      by (auto simp: accepted_def dest: extract_l4_TCPD elim!: finish_headers_SomeE)
  qed
  with r show ?thesis by (simp add: parser_parse_l2_l4_def)
qed

text \<open>
  C40: the extraction takes every byte after the TCP header as payload. It never looks at the IPv4
  total length, so bytes that follow the IP datagram in the frame, such as the padding of a short
  Ethernet frame, are appended to the TCP payload.
\<close>

theorem extract_headers_trailing_bytes:
  assumes "parser_parse_l2_l4 pkt = Some (Some r)"
  shows "parser_parse_l2_l4 (pkt\<lparr>mbuf_data := mbuf_data pkt @ trailer\<rparr>) =
    Some (Some (r\<lparr>l2l4_payload := l2l4_payload r @ trailer,
                  l2l4_payload_len := l2l4_payload_len r + length trailer\<rparr>))"
proof -
  have "extract_headers pkt = Some (Some r)"
    using assms by (simp add: parser_parse_l2_l4_def)
  then obtain vi pr sip dip f where "accepted (mbuf_data pkt) vi pr sip dip f"
    and fin: "finish_headers (mbuf_data pkt) sip dip pr f = Some r" by (rule extract_headers_SomeE)
  then have "accepted (mbuf_data pkt @ trailer) vi pr sip dip f"
    by (simp add: accepted_def rd_append rd_fields_append extract_l4_append rd_append_Some)
  with finish_headers_append [OF fin, of trailer] show ?thesis
    unfolding parser_parse_l2_l4_def by (subst extract_headers_Some_iff) (simp, blast)
qed

text \<open>A minimum-size Ethernet frame around a bare ACK: six bytes of padding become payload.\<close>

theorem extract_headers_trailing_bytes_witness:
  "\<exists>r r'. parser_parse_l2_l4 \<lparr>mbuf_data = tcp_frame (replicate 12 0) 4
       [0, 0, 40, 0, 0, 0, 0, 64] [0, 0] [10, 0, 0, 1, 10, 0, 0, 2] [] [0x30, 0x39, 0, 80]
       [0, 0, 3, 233, 0, 0, 0, 0] 0 (replicate 7 0) [] [], mbuf_pkt_len = 60\<rparr> = Some (Some r) \<and>
     l2l4_payload_len r = 0 \<and>
     parser_parse_l2_l4 \<lparr>mbuf_data = tcp_frame (replicate 12 0) 4
       [0, 0, 40, 0, 0, 0, 0, 64] [0, 0] [10, 0, 0, 1, 10, 0, 0, 2] [] [0x30, 0x39, 0, 80]
       [0, 0, 3, 233, 0, 0, 0, 0] 0 (replicate 7 0) [] [] @ replicate 6 0,
       mbuf_pkt_len = 60\<rparr> = Some (Some r') \<and>
     l2l4_payload_len r' = 6 \<and> l2l4_payload r' = replicate 6 0"
proof -
  define f where "f = tcp_frame (replicate 12 0) 4 [0, 0, 40, 0, 0, 0, 0, 64] [0, 0]
     [10, 0, 0, 1, 10, 0, 0, 2] [] [0x30, 0x39, 0, 80] [0, 0, 3, 233, 0, 0, 0, 0] 0
     (replicate 7 0) [] []"
  have "classify_port (be16 0 80) = Some TRAFFIC_HTTP"
    by (simp add: classify_port_def be16_def)
  then obtain r where r: "parser_parse_l2_l4 \<lparr>mbuf_data = f, mbuf_pkt_len = 60\<rparr> = Some (Some r)"
    and "l2l4_payload_len r = 0" "l2l4_payload r = []"
    unfolding f_def by (subst (asm) tcp_frame_parses) auto
  with extract_headers_trailing_bytes [OF r, of "replicate 6 0"] show ?thesis
    unfolding f_def by simp
qed

end
