(* ===== verification/Reassembly.thy ===== *)
theory Reassembly
  imports Hyperdpi_Types
begin

text \<open>
  The per-flow reassembly state (\<open>struct flow_state\<close> of \<open>src/parser.c\<close>) and the placement of one
  segment (the payload part of \<open>parser_flow_update\<close>).

  The fields \<open>contig_len\<close> and \<open>hwm\<close> are 16-bit in C; the invariant \<open>flow_inv\<close> bounds them by
  \<open>FLOW_BUF_CAP - 1\<close>, so natural numbers stand for them without wrap-around. Sequence numbers are
  32-bit words and their difference is read as a signed 32-bit value, as in C. At a distance of
  exactly \<open>2 ^ 31\<close> the C expression \<open>-diff\<close> overflows; the model takes the value two's complement
  machines produce.

  The abstract view of a flow is its stream: a partial map from sequence numbers to bytes. Shown:
  the invariant holds initially and is kept by every placement, no placement leaves the arrays,
  a placement is the first-wins union of the stream with the segment inside the window, and any
  sequence of segments cut from one window of a sender's stream reassembles to that stream,
  whatever the order, the overlaps and the duplicates.
\<close>

section \<open>Model\<close>

abbreviation (input) FLOW_BUF_CAP :: nat where "FLOW_BUF_CAP \<equiv> 4096"
abbreviation (input) FLOW_SCAN_BUF_CAP :: nat where "FLOW_SCAN_BUF_CAP \<equiv> 512"

record flow_state =
  st_buf :: "byte list"
  st_filled :: "bool list"
  st_contig_len :: nat
  st_hwm :: nat
  st_first_seq :: u32
  st_first_seq_set :: bool
  st_scan_buf :: "byte list"
  st_type :: traffic_type
  st_last_seen_tsc :: u64
  st_verdict_cached :: bool
  st_cached_action :: packet_action
  st_no_sni_cached :: bool

text \<open>\<open>memset(st, 0, sizeof(*st))\<close>: both enumerations have their first constructor at 0.\<close>

definition zero_flow_state :: flow_state where
  "zero_flow_state = \<lparr>st_buf = replicate FLOW_BUF_CAP 0, st_filled = replicate FLOW_BUF_CAP False,
     st_contig_len = 0, st_hwm = 0, st_first_seq = 0, st_first_seq_set = False,
     st_scan_buf = replicate FLOW_SCAN_BUF_CAP 0, st_type = TRAFFIC_NON_DPI,
     st_last_seen_tsc = 0, st_verdict_cached = False, st_cached_action = ACTION_FORWARD,
     st_no_sni_cached = False\<rparr>"

text \<open>The first-wins copy loop, from \<open>off\<close> to \<open>write_end\<close>.\<close>

function place_bytes ::
  "cptr \<Rightarrow> nat \<Rightarrow> nat \<Rightarrow> nat \<Rightarrow> byte list \<Rightarrow> bool list \<Rightarrow> (byte list \<times> bool list) option" where
  "place_bytes payload rel_offset off write_end buf filled =
     (if off < write_end then do {
        f \<leftarrow> rd filled off;
        if f then place_bytes payload rel_offset (Suc off) write_end buf filled
        else do {
          c \<leftarrow> rd payload (off - rel_offset);
          buf' \<leftarrow> wr buf off c;
          filled' \<leftarrow> wr filled off True;
          place_bytes payload rel_offset (Suc off) write_end buf' filled' } }
      else Some (buf, filled))"
  by pat_completeness auto
termination
  by (relation "measure (\<lambda>(p, r, off, we, b, f). we - off)") auto

declare place_bytes.simps [simp del]

text \<open>\<open>while (contig_len < hwm && filled[contig_len]) contig_len++\<close>.\<close>

function extend_contig :: "nat \<Rightarrow> nat \<Rightarrow> bool list \<Rightarrow> nat option" where
  "extend_contig c hwm filled =
     (if c < hwm then do {
        f \<leftarrow> rd filled c;
        if f then extend_contig (Suc c) hwm filled else Some c }
      else Some c)"
  by pat_completeness auto
termination
  by (relation "measure (\<lambda>(c, hwm, f). hwm - c)") auto

declare extend_contig.simps [simp del]

text \<open>The shift to the right when a segment starts before everything seen so far.\<close>

definition shift_right :: "flow_state \<Rightarrow> nat \<Rightarrow> u32 \<Rightarrow> flow_state option" where
  "shift_right st shift seq = do {
     buf \<leftarrow> c_memmove (st_buf st) shift 0 (st_hwm st);
     fl \<leftarrow> c_memmove (st_filled st) shift 0 (st_hwm st);
     fl \<leftarrow> c_memset fl False shift;
     Some (st\<lparr>st_buf := buf, st_filled := fl, st_hwm := st_hwm st + shift,
              st_first_seq := seq, st_contig_len := 0\<rparr>) }"

text \<open>The copy at a non-negative offset, clipped to the window.\<close>

definition place_at :: "flow_state \<Rightarrow> nat \<Rightarrow> cptr \<Rightarrow> nat \<Rightarrow> flow_state option" where
  "place_at st rel_offset payload payload_len =
     (if rel_offset < FLOW_BUF_CAP - 1 then do {
        let write_end = rel_offset + payload_len;
        let write_end = (if write_end > FLOW_BUF_CAP - 1 then FLOW_BUF_CAP - 1 else write_end);
        (buf, fl) \<leftarrow> place_bytes payload rel_offset rel_offset write_end (st_buf st) (st_filled st);
        let hwm = (if write_end > st_hwm st then write_end else st_hwm st);
        c \<leftarrow> extend_contig (st_contig_len st) hwm fl;
        Some (st\<lparr>st_buf := buf, st_filled := fl, st_hwm := hwm, st_contig_len := c\<rparr>) }
      else Some st)"

definition anchor :: "flow_state \<Rightarrow> u32 \<Rightarrow> flow_state" where
  "anchor st seq =
     (if st_first_seq_set st then st
      else st\<lparr>st_first_seq := seq, st_first_seq_set := True\<rparr>)"

definition place_seq :: "flow_state \<Rightarrow> u32 \<Rightarrow> cptr \<Rightarrow> nat \<Rightarrow> flow_state option" where
  "place_seq st seq payload payload_len =
     (let diff = sint (seq - st_first_seq st) in
      if diff < 0 then
        let shift = nat (- diff) in
        if shift \<le> FLOW_BUF_CAP - 1 \<and> st_hwm st + shift \<le> FLOW_BUF_CAP - 1 then do {
          st' \<leftarrow> shift_right st shift seq;
          place_at st' 0 payload payload_len }
        else Some st
      else place_at st (nat diff) payload payload_len)"

text \<open>The whole placement: a segment without payload touches nothing.\<close>

definition place_segment :: "flow_state \<Rightarrow> l2l4_result \<Rightarrow> flow_state option" where
  "place_segment st l =
     (if l2l4_payload_len l > 0
      then place_seq (anchor st (l2l4_seq l)) (l2l4_seq l) (l2l4_payload l) (l2l4_payload_len l)
      else Some st)"

section \<open>Invariant and abstract view\<close>

definition flow_inv :: "flow_state \<Rightarrow> bool" where
  "flow_inv st \<longleftrightarrow>
     length (st_buf st) = FLOW_BUF_CAP \<and> length (st_filled st) = FLOW_BUF_CAP \<and>
     length (st_scan_buf st) = FLOW_SCAN_BUF_CAP \<and>
     st_contig_len st \<le> st_hwm st \<and> st_hwm st \<le> FLOW_BUF_CAP - 1 \<and>
     (\<forall>i < FLOW_BUF_CAP. st_filled st ! i \<longrightarrow> i < st_hwm st) \<and>
     (\<forall>i < st_contig_len st. st_filled st ! i) \<and>
     (\<not> st_verdict_cached st \<and> st_contig_len st < st_hwm st \<longrightarrow>
        \<not> st_filled st ! st_contig_len st) \<and>
     (\<not> st_first_seq_set st \<longrightarrow> st_hwm st = 0)"

text \<open>The stream held by a flow, and the bytes a segment carries, by sequence number.\<close>

definition stream :: "flow_state \<Rightarrow> u32 \<rightharpoonup> byte" where
  "stream st s =
     (let i = unat (s - st_first_seq st) in
      if i < FLOW_BUF_CAP \<and> st_filled st ! i then Some (st_buf st ! i) else None)"

definition seg_bytes :: "u32 \<Rightarrow> byte list \<Rightarrow> u32 \<rightharpoonup> byte" where
  "seg_bytes seq payload s =
     (let j = unat (s - seq) in if j < length payload then Some (payload ! j) else None)"

text \<open>Whether the window takes a segment at all.\<close>

definition seg_fits :: "flow_state \<Rightarrow> u32 \<Rightarrow> bool" where
  "seg_fits st seq \<longleftrightarrow>
     \<not> st_first_seq_set st \<or> 0 \<le> sint (seq - st_first_seq st) \<or>
     int (st_hwm st) - sint (seq - st_first_seq st) \<le> int (FLOW_BUF_CAP - 1)"

text \<open>The anchor after a segment, and the bytes the segment contributes inside the window.\<close>

definition window_base :: "flow_state \<Rightarrow> u32 \<Rightarrow> u32" where
  "window_base st seq =
     (if st_first_seq_set st \<and> (0 \<le> sint (seq - st_first_seq st) \<or> \<not> seg_fits st seq)
      then st_first_seq st else seq)"

definition new_bytes :: "flow_state \<Rightarrow> l2l4_result \<Rightarrow> u32 \<rightharpoonup> byte" where
  "new_bytes st l =
     (if seg_fits st (l2l4_seq l)
      then seg_bytes (l2l4_seq l) (l2l4_payload l) |`
             {s. unat (s - window_base st (l2l4_seq l)) < FLOW_BUF_CAP - 1}
      else Map.empty)"

text \<open>The gap-free prefix that the extractors look at.\<close>

definition contig_prefix :: "flow_state \<Rightarrow> byte list" where
  "contig_prefix st = take (st_contig_len st) (st_buf st)"

lemma flow_inv_zero: "flow_inv zero_flow_state"
  by (simp add: flow_inv_def zero_flow_state_def)

section \<open>The loops\<close>

lemma place_bytes_spec:
  assumes "length filled = length buf" "write_end \<le> length buf" "rel \<le> off"
    and "write_end - rel \<le> length payload"
  shows "\<exists>b f. place_bytes payload rel off write_end buf filled = Some (b, f) \<and>
    length b = length buf \<and> length f = length buf \<and>
    (\<forall>i < length buf. f ! i = (filled ! i \<or> off \<le> i \<and> i < write_end)) \<and>
    (\<forall>i < length buf. b ! i =
       (if off \<le> i \<and> i < write_end \<and> \<not> filled ! i then payload ! (i - rel) else buf ! i))"
  using assms
proof (induction payload rel off write_end buf filled rule: place_bytes.induct)
  case (1 payload rel off we buf filled)
  show ?case
  proof (cases "off < we")
    case False
    then show ?thesis using "1.prems" by (auto simp: place_bytes.simps [of payload rel off])
  next
    case off: True
    show ?thesis
    proof (cases "filled ! off")
      case True
      obtain b f where bf: "place_bytes payload rel (Suc off) we buf filled = Some (b, f)"
        "length b = length buf" "length f = length buf"
        "\<forall>i < length buf. f ! i = (filled ! i \<or> Suc off \<le> i \<and> i < we)"
        "\<forall>i < length buf. b ! i =
          (if Suc off \<le> i \<and> i < we \<and> \<not> filled ! i then payload ! (i - rel) else buf ! i)"
        using "1.IH"(1) [of True] "1.prems" off True by (auto simp: mem_simps)
      have "place_bytes payload rel off we buf filled = Some (b, f)"
        using off True "1.prems" bf(1) by (simp add: place_bytes.simps [of payload rel off] mem_simps)
      moreover have "f ! i = (filled ! i \<or> off \<le> i \<and> i < we)" if "i < length buf" for i
        using bf(4) that True by (cases "i = off") auto
      moreover have "b ! i = (if off \<le> i \<and> i < we \<and> \<not> filled ! i then payload ! (i - rel)
          else buf ! i)" if "i < length buf" for i
        using bf(5) that True by (cases "i = off") auto
      ultimately show ?thesis using bf(2,3) by blast
    next
      case False
      let ?buf = "buf[off := payload ! (off - rel)]" and ?fl = "filled[off := True]"
      have in_payload: "off - rel < length payload" using off "1.prems" by linarith
      obtain b f where bf: "place_bytes payload rel (Suc off) we ?buf ?fl = Some (b, f)"
        "length b = length buf" "length f = length buf"
        "\<forall>i < length buf. f ! i = (?fl ! i \<or> Suc off \<le> i \<and> i < we)"
        "\<forall>i < length buf. b ! i =
          (if Suc off \<le> i \<and> i < we \<and> \<not> ?fl ! i then payload ! (i - rel) else ?buf ! i)"
        using "1.IH"(2) [of False "payload ! (off - rel)" ?buf ?fl] "1.prems" off False in_payload
        by (auto simp: mem_simps)
      have "place_bytes payload rel off we buf filled = Some (b, f)"
        using off False "1.prems" bf(1) in_payload
        by (simp add: place_bytes.simps [of payload rel off] mem_simps)
      moreover have "f ! i = (filled ! i \<or> off \<le> i \<and> i < we)" if "i < length buf" for i
        using bf(4) that off "1.prems" by (cases "i = off") auto
      moreover have "b ! i = (if off \<le> i \<and> i < we \<and> \<not> filled ! i then payload ! (i - rel)
          else buf ! i)" if "i < length buf" for i
        using bf(5) that off False "1.prems" by (cases "i = off") auto
      ultimately show ?thesis using bf(2,3) by blast
    qed
  qed
qed

lemma extend_contig_spec:
  assumes "c \<le> hwm" "hwm \<le> length filled"
  shows "\<exists>c'. extend_contig c hwm filled = Some c' \<and> c \<le> c' \<and> c' \<le> hwm \<and>
    (\<forall>i. c \<le> i \<and> i < c' \<longrightarrow> filled ! i) \<and> (c' < hwm \<longrightarrow> \<not> filled ! c')"
  using assms
proof (induction c hwm filled rule: extend_contig.induct)
  case (1 c hwm filled)
  show ?case
  proof (cases "c < hwm \<and> filled ! c")
    case True
    then obtain c' where c': "extend_contig (Suc c) hwm filled = Some c'" "Suc c \<le> c'" "c' \<le> hwm"
      "\<forall>i. Suc c \<le> i \<and> i < c' \<longrightarrow> filled ! i" "c' < hwm \<longrightarrow> \<not> filled ! c'"
      using "1.IH" [of True] "1.prems" by (auto simp: mem_simps)
    have "extend_contig c hwm filled = Some c'"
      using True c'(1) "1.prems" by (simp add: extend_contig.simps [of c] mem_simps)
    moreover have "\<forall>i. c \<le> i \<and> i < c' \<longrightarrow> filled ! i"
      using c'(4) True by (metis Suc_leI le_neq_implies_less)
    ultimately show ?thesis using c' by (intro exI [of _ c']) auto
  next
    case False
    then show ?thesis
      using "1.prems" by (auto simp: extend_contig.simps [of c] mem_simps)
  qed
qed

section \<open>One placement\<close>

text \<open>The fields placement never writes.\<close>

definition same_meta :: "flow_state \<Rightarrow> flow_state \<Rightarrow> bool" where
  "same_meta st st' \<longleftrightarrow>
     st_scan_buf st' = st_scan_buf st \<and> st_type st' = st_type st \<and>
     st_last_seen_tsc st' = st_last_seen_tsc st \<and>
     st_verdict_cached st' = st_verdict_cached st \<and>
     st_cached_action st' = st_cached_action st \<and> st_no_sni_cached st' = st_no_sni_cached st"

lemma same_meta_refl [simp]: "same_meta st st"
  by (simp add: same_meta_def)

lemma same_meta_trans: "same_meta a b \<Longrightarrow> same_meta b c \<Longrightarrow> same_meta a c"
  by (simp add: same_meta_def)

lemma place_at_spec:
  assumes inv: "flow_inv st" and set: "st_first_seq_set st" and len: "len \<le> length payload"
  shows "\<exists>st'. place_at st rel payload len = Some st' \<and> flow_inv st' \<and> same_meta st st' \<and>
    st_first_seq_set st' \<and> st_first_seq st' = st_first_seq st \<and>
    st_hwm st' = (if rel < 4095 then max (st_hwm st) (min (rel + len) 4095) else st_hwm st) \<and>
    (\<forall>i < 4096. st_filled st' ! i =
       (st_filled st ! i \<or> rel \<le> i \<and> i < min (rel + len) 4095)) \<and>
    (\<forall>i < 4096. st_filled st' ! i \<longrightarrow> st_buf st' ! i =
       (if st_filled st ! i then st_buf st ! i else payload ! (i - rel)))"
proof (cases "rel < 4095")
  case False
  then show ?thesis using inv set by (auto simp: place_at_def)
next
  case True
  let ?we = "min (rel + len) 4095"
  let ?hwm = "max (st_hwm st) ?we"
  have lens: "length (st_buf st) = 4096" "length (st_filled st) = 4096" "st_hwm st \<le> 4095"
    "st_contig_len st \<le> st_hwm st"
    and old: "\<forall>i < 4096. st_filled st ! i \<longrightarrow> i < st_hwm st" "\<forall>i < st_contig_len st. st_filled st ! i"
    using inv by (auto simp: flow_inv_def)
  have we: "?we \<le> 4096" "?we - rel \<le> length payload" using len by auto
  obtain b f where pb: "place_bytes payload rel rel ?we (st_buf st) (st_filled st) = Some (b, f)"
    and bf: "length b = 4096" "length f = 4096"
    "\<forall>i < 4096. f ! i = (st_filled st ! i \<or> rel \<le> i \<and> i < ?we)"
    "\<forall>i < 4096. b ! i = (if rel \<le> i \<and> i < ?we \<and> \<not> st_filled st ! i then payload ! (i - rel)
       else st_buf st ! i)"
    using place_bytes_spec [of "st_filled st" "st_buf st" ?we rel rel payload] lens we by auto
  have hw: "?hwm \<le> 4096" "st_contig_len st \<le> ?hwm" using lens by auto
  obtain c where ext: "extend_contig (st_contig_len st) ?hwm f = Some c"
    and c: "st_contig_len st \<le> c" "c \<le> ?hwm"
    "\<forall>i. st_contig_len st \<le> i \<and> i < c \<longrightarrow> f ! i" "c < ?hwm \<longrightarrow> \<not> f ! c"
    using extend_contig_spec [of "st_contig_len st" ?hwm f] hw bf(2) by auto
  let ?st' = "st\<lparr>st_buf := b, st_filled := f, st_hwm := ?hwm, st_contig_len := c\<rparr>"
  have "place_at st rel payload len = Some ?st'"
  proof -
    have e1: "(if rel + len > 4096 - 1 then 4096 - 1 else rel + len) = ?we"
      by simp
    have e2: "(if ?we > st_hwm st then ?we else st_hwm st) = ?hwm"
      by (simp only: max_def) auto
    show ?thesis unfolding place_at_def Let_def e1 e2 pb using True ext by simp
  qed
  moreover have "flow_inv ?st'"
  proof -
    have "f ! i" if "i < c" for i
      using that c old(2) bf(3) lens by (cases "i < st_contig_len st") auto
    moreover have "i < ?hwm" if "i < 4096" "f ! i" for i
      using that bf(3) old(1) by auto
    ultimately show ?thesis
      using inv set bf(1,2) c lens by (auto simp: flow_inv_def)
  qed
  moreover have "b ! i = (if st_filled st ! i then st_buf st ! i else payload ! (i - rel))"
    if "i < 4096" "f ! i" for i
    using that bf(3,4) by auto
  ultimately show ?thesis
    using True set bf by (intro exI [of _ ?st']) (simp add: same_meta_def)
qed

lemma shift_right_spec:
  assumes inv: "flow_inv st" and set: "st_first_seq_set st"
    and k: "0 < k" "st_hwm st + k \<le> 4095"
  shows "\<exists>st'. shift_right st k seq = Some st' \<and> flow_inv st' \<and> same_meta st st' \<and>
    st_first_seq_set st' \<and> st_first_seq st' = seq \<and> st_hwm st' = st_hwm st + k \<and>
    (\<forall>i < 4096. st_filled st' ! i = (k \<le> i \<and> st_filled st ! (i - k))) \<and>
    (\<forall>i < 4096. st_filled st' ! i \<longrightarrow> st_buf st' ! i = st_buf st ! (i - k))"
proof -
  let ?h = "st_hwm st"
  let ?buf = "take k (st_buf st) @ take ?h (st_buf st) @ drop (k + ?h) (st_buf st)"
  let ?mv = "take k (st_filled st) @ take ?h (st_filled st) @ drop (k + ?h) (st_filled st)"
  let ?fl = "replicate k False @ drop k ?mv"
  have lens: "length (st_buf st) = 4096" "length (st_filled st) = 4096"
    and old: "\<forall>i < 4096. st_filled st ! i \<longrightarrow> i < ?h"
    using inv by (auto simp: flow_inv_def)
  have mv: "length ?mv = 4096" "length ?buf = 4096" using lens k by simp_all
  let ?st' = "st\<lparr>st_buf := ?buf, st_filled := ?fl, st_hwm := ?h + k, st_first_seq := seq,
    st_contig_len := 0\<rparr>"
  have eq: "shift_right st k seq = Some ?st'"
    using lens k mv(1) by (simp add: shift_right_def mem_simps)
  have fl: "?fl ! i = (k \<le> i \<and> st_filled st ! (i - k))" if "i < 4096" for i
  proof -
    have "\<not> st_filled st ! i" "\<not> st_filled st ! (i - k)" if "\<not> i < k + ?h"
      using old \<open>i < 4096\<close> that by (auto dest: spec [of _ i] spec [of _ "i - k"])
    then show ?thesis
      using that k lens nth_shift_clear [of k ?h "st_filled st" i False] by auto
  qed
  have below: "i < ?h + k" if "i < 4096" "?fl ! i" for i
  proof -
    have "k \<le> i" "st_filled st ! (i - k)" using fl [OF that(1)] that(2) by blast+
    then show ?thesis using old [rule_format, of "i - k"] that(1) by linarith
  qed
  have bf: "?buf ! i = st_buf st ! (i - k)" if "i < 4096" "?fl ! i" for i
  proof -
    have "k \<le> i" "i < k + ?h"
      using fl [OF that(1)] that below [OF that] by (auto simp del: drop_append)
    then show ?thesis
      using that(1) k lens nth_shift_right [of k ?h "st_buf st" i] by auto
  qed
  have "\<not> ?fl ! 0" using k by (simp add: nth_append)
  then have "flow_inv ?st'"
    using inv set k mv below by (auto simp: flow_inv_def simp del: drop_append)
  with eq fl bf set show ?thesis
    by (intro exI [of _ ?st']) (simp add: same_meta_def del: drop_append)
qed

section \<open>Streams\<close>

lemma unat_minus_of_nat:
  fixes d :: u32
  assumes "n < 2 ^ 32"
  shows "unat (d - of_nat n) = (if n \<le> unat d then unat d - n else 2 ^ 32 + unat d - n)"
proof -
  have n: "unat (of_nat n :: u32) = n" using assms by (simp add: unat_of_nat)
  then show ?thesis
    using unat_sub_if_size [of d "of_nat n"] by (auto simp: word_le_nat_alt word_size)
qed

lemma unat_plus_of_nat:
  fixes d :: u32
  assumes "n < 2 ^ 32"
  shows "unat (d + of_nat n) =
    (if unat d + n < 2 ^ 32 then unat d + n else unat d + n - 2 ^ 32)"
proof -
  have n: "unat (of_nat n :: u32) = n" using assms by (simp add: unat_of_nat)
  then show ?thesis
    using unat_plus_if_size [of d "of_nat n"] by (auto simp: word_size)
qed

text \<open>Moving the anchor back by \<open>k\<close> and the data right by \<open>k\<close> leaves the stream as it is.\<close>

lemma stream_shift:
  assumes k: "0 < k" "st_hwm st + k \<le> 4095" and inv: "flow_inv st"
    and seq: "st_first_seq st' = st_first_seq st - of_nat k"
    and fl: "\<forall>i < 4096. st_filled st' ! i = (k \<le> i \<and> st_filled st ! (i - k))"
    and bf: "\<forall>i < 4096. st_filled st' ! i \<longrightarrow> st_buf st' ! i = st_buf st ! (i - k)"
  shows "stream st' = stream st"
proof
  fix s
  let ?i = "unat (s - st_first_seq st)"
  have e: "s - st_first_seq st' = (s - st_first_seq st) + of_nat k" using seq by simp
  have j: "unat (s - st_first_seq st') =
      (if ?i + k < 2 ^ 32 then ?i + k else ?i + k - 2 ^ 32)"
    unfolding e using k by (intro unat_plus_of_nat) simp
  have old: "\<not> st_filled st ! i" if "st_hwm st \<le> i" "i < 4096" for i
    using inv that by (fastforce simp: flow_inv_def)
  show "stream st' s = stream st s"
  proof (cases "?i < st_hwm st")
    case True
    then show ?thesis using j k fl bf by (auto simp: stream_def Let_def)
  next
    case False
    then have none: "stream st s = None" using old by (auto simp: stream_def Let_def)
    have "\<not> st_filled st' ! unat (s - st_first_seq st')" if "unat (s - st_first_seq st') < 4096"
      using that False j k fl old [of "unat (s - st_first_seq st') - k"]
        unsigned_less [where 'a = nat, of "s - st_first_seq st"]
      by (auto split: if_split_asm)
    with none show ?thesis by (auto simp: stream_def Let_def)
  qed
qed

text \<open>A copy at offset \<open>rel\<close> is the first-wins union inside the window.\<close>

lemma stream_place:
  assumes inv: "flow_inv st" and r: "rel + len \<le> 2 ^ 32" "rel < 2 ^ 32" "len \<le> length payload"
    and seq: "st_first_seq st' = st_first_seq st" "seq = st_first_seq st + of_nat rel"
    and fl: "\<forall>i < 4096. st_filled st' ! i =
       (st_filled st ! i \<or> rel \<le> i \<and> i < min (rel + len) 4095)"
    and bf: "\<forall>i < 4096. st_filled st' ! i \<longrightarrow> st_buf st' ! i =
       (if st_filled st ! i then st_buf st ! i else payload ! (i - rel))"
  shows "stream st' s = (case stream st s of Some b \<Rightarrow> Some b
    | None \<Rightarrow> if unat (s - st_first_seq st) < 4095 then seg_bytes seq (take len payload) s else None)"
proof -
  let ?i = "unat (s - st_first_seq st)"
  have e: "s - seq = (s - st_first_seq st) - of_nat rel" using seq by simp
  have j: "unat (s - seq) = (if rel \<le> ?i then ?i - rel else 2 ^ 32 + ?i - rel)"
    unfolding e by (rule unat_minus_of_nat [OF r(2)])
  have seg: "seg_bytes seq (take len payload) s =
      (if rel \<le> ?i \<and> ?i < rel + len then Some (payload ! (?i - rel)) else None)"
    using j r by (auto simp: seg_bytes_def Let_def)
  have "\<forall>i < 4096. st_filled st ! i \<longrightarrow> i < st_hwm st" "st_hwm st \<le> 4095"
    using inv by (simp_all add: flow_inv_def)
  then have full: "\<not> st_filled st ! 4095" by (auto dest: spec [of _ 4095])
  show ?thesis
  proof (cases "?i < 4096")
    case False
    then show ?thesis by (simp add: stream_def Let_def seq)
  next
    case True
    then have old: "stream st s = (if st_filled st ! ?i then Some (st_buf st ! ?i) else None)"
      and new: "stream st' s = (if st_filled st' ! ?i then Some (st_buf st' ! ?i) else None)"
      by (simp_all add: stream_def Let_def seq)
    show ?thesis unfolding old new seg using True fl bf full by (cases "?i = 4095") auto
  qed
qed

section \<open>A whole placement\<close>

lemma sint_nonneg:
  fixes d :: u32
  assumes "0 \<le> sint d"
  shows "nat (sint d) = unat d" "nat (sint d) < 2 ^ 31" "of_nat (nat (sint d)) = d"
proof -
  show lt: "nat (sint d) < 2 ^ 31" using sint_lt [of d] assms by simp
  show d: "of_nat (nat (sint d)) = d" using assms by simp
  have "unat (of_nat (nat (sint d)) :: u32) = nat (sint d)"
    using lt by (simp only: unat_of_nat) simp
  then show "nat (sint d) = unat d" using d by simp
qed

lemma sint_neg:
  fixes d :: u32
  assumes "sint d < 0"
  shows "of_nat (nat (- sint d)) = - d"
  using assms by simp

text \<open>The effect of a placement on a flow that has its anchor.\<close>

definition placed :: "flow_state \<Rightarrow> u32 \<Rightarrow> byte list \<Rightarrow> flow_state \<Rightarrow> bool" where
  "placed st seq bytes st' \<longleftrightarrow>
     flow_inv st' \<and> same_meta st st' \<and>
     (let d = sint (seq - st_first_seq st) in
      st_first_seq_set st' \<and>
      st_first_seq st' = (if d < 0 \<and> seg_fits st seq then seq else st_first_seq st) \<and>
      st_hwm st' =
        (if \<not> seg_fits st seq \<or> 4095 \<le> d then st_hwm st
         else if d < 0 then max (st_hwm st + nat (- d)) (min (length bytes) 4095)
         else max (st_hwm st) (min (nat d + length bytes) 4095))) \<and>
     (\<forall>s. stream st' s = (case stream st s of Some b \<Rightarrow> Some b
        | None \<Rightarrow> if seg_fits st seq \<and> unat (s - st_first_seq st') < 4095
                  then seg_bytes seq bytes s else None))"

lemma place_seq_back:
  assumes inv: "flow_inv st" and set: "st_first_seq_set st" and len: "len \<le> length payload"
    and d: "sint (seq - st_first_seq st) < 0" and fits: "seg_fits st seq" and l: "len < 2 ^ 31"
  shows "\<exists>st'. place_seq st seq payload len = Some st' \<and> placed st seq (take len payload) st'"
proof -
  let ?d = "sint (seq - st_first_seq st)"
  let ?k = "nat (- ?d)"
  have k: "0 < ?k" "st_hwm st + ?k \<le> 4095" using d fits set by (auto simp: seg_fits_def)
  have seq: "seq = st_first_seq st - of_nat ?k" using sint_neg [OF d] by simp
  obtain s1 where s1: "shift_right st ?k seq = Some s1" "flow_inv s1" "same_meta st s1"
    "st_first_seq_set s1" "st_first_seq s1 = seq" "st_hwm s1 = st_hwm st + ?k"
    "\<forall>i < 4096. st_filled s1 ! i = (?k \<le> i \<and> st_filled st ! (i - ?k))"
    "\<forall>i < 4096. st_filled s1 ! i \<longrightarrow> st_buf s1 ! i = st_buf st ! (i - ?k)"
    using shift_right_spec [OF inv set k] by blast
  have str1: "stream s1 = stream st"
    by (rule stream_shift [OF k inv _ s1(7,8)]) (simp add: s1(5) seq [symmetric])
  obtain st' where st': "place_at s1 0 payload len = Some st'" "flow_inv st'" "same_meta s1 st'"
    "st_first_seq_set st'" "st_first_seq st' = st_first_seq s1"
    "st_hwm st' = (if (0::nat) < 4095 then max (st_hwm s1) (min (0 + len) 4095) else st_hwm s1)"
    "\<forall>i < 4096. st_filled st' ! i = (st_filled s1 ! i \<or> 0 \<le> i \<and> i < min (0 + len) 4095)"
    "\<forall>i < 4096. st_filled st' ! i \<longrightarrow> st_buf st' ! i =
       (if st_filled s1 ! i then st_buf s1 ! i else payload ! (i - 0))"
    using place_at_spec [OF s1(2,4) len, of 0] by blast
  have str: "stream st' s = (case stream st s of Some b \<Rightarrow> Some b
      | None \<Rightarrow> if unat (s - seq) < 4095 then seg_bytes seq (take len payload) s else None)" for s
    using stream_place [OF s1(2) _ _ len st'(5) _ st'(7,8), of seq s] l s1(5) str1 by simp
  have "place_seq st seq payload len = Some st'"
    using d k s1(1) st'(1) by (simp add: place_seq_def Let_def)
  moreover have "placed st seq (take len payload) st'"
    using st' s1 d fits str same_meta_trans [OF s1(3) st'(3)] len
    by (simp add: placed_def Let_def min_absorb2)
  ultimately show ?thesis by blast
qed

lemma place_seq_forward:
  assumes inv: "flow_inv st" and set: "st_first_seq_set st" and len: "len \<le> length payload"
    and d: "0 \<le> sint (seq - st_first_seq st)" and l: "len < 2 ^ 31"
  shows "\<exists>st'. place_seq st seq payload len = Some st' \<and> placed st seq (take len payload) st'"
proof -
  let ?r = "nat (sint (seq - st_first_seq st))"
  have r: "?r < 2 ^ 31" "of_nat ?r = seq - st_first_seq st"
    using sint_nonneg [OF d] by simp_all
  have fits: "seg_fits st seq" using d by (simp add: seg_fits_def)
  obtain st' where st': "place_at st ?r payload len = Some st'" "flow_inv st'" "same_meta st st'"
    "st_first_seq_set st'" "st_first_seq st' = st_first_seq st"
    "st_hwm st' = (if ?r < 4095 then max (st_hwm st) (min (?r + len) 4095) else st_hwm st)"
    "\<forall>i < 4096. st_filled st' ! i = (st_filled st ! i \<or> ?r \<le> i \<and> i < min (?r + len) 4095)"
    "\<forall>i < 4096. st_filled st' ! i \<longrightarrow> st_buf st' ! i =
       (if st_filled st ! i then st_buf st ! i else payload ! (i - ?r))"
    using place_at_spec [OF inv set len, of ?r] by blast
  have "?r + len \<le> 2 ^ 32" "?r < 2 ^ 32" using r(1) l by simp_all
  then have str: "stream st' s = (case stream st s of Some b \<Rightarrow> Some b
      | None \<Rightarrow> if unat (s - st_first_seq st) < 4095 then seg_bytes seq (take len payload) s
                else None)" for s
    using stream_place [OF inv _ _ len st'(5) _ st'(7,8), of seq s] r(2) by simp
  have "place_seq st seq payload len = Some st'"
    using d st'(1) by (simp add: place_seq_def Let_def)
  moreover have "placed st seq (take len payload) st'"
    using st' d fits str len by (auto simp: placed_def Let_def)
  ultimately show ?thesis by blast
qed

lemma place_seq_spec:
  assumes inv: "flow_inv st" and set: "st_first_seq_set st" and len: "len \<le> length payload"
    and l: "len < 2 ^ 31"
  shows "\<exists>st'. place_seq st seq payload len = Some st' \<and> placed st seq (take len payload) st'"
proof -
  let ?d = "sint (seq - st_first_seq st)"
  consider "0 \<le> ?d" | "?d < 0" "seg_fits st seq" | "?d < 0" "\<not> seg_fits st seq" by linarith
  then show ?thesis
  proof cases
    case 1
    then show ?thesis using place_seq_forward [OF inv set len] l by blast
  next
    case 2
    then show ?thesis using place_seq_back [OF inv set len] l by blast
  next
    case 3
    then have "\<not> st_hwm st + nat (- ?d) \<le> 4095" by (auto simp: seg_fits_def)
    then have "place_seq st seq payload len = Some st"
      using 3(1) by (simp add: place_seq_def Let_def)
    moreover have "placed st seq (take len payload) st"
      using 3 inv set by (simp add: placed_def Let_def split: option.splits)
    ultimately show ?thesis by blast
  qed
qed

lemma flow_inv_anchor: "flow_inv st \<Longrightarrow> flow_inv (anchor st seq)"
  by (auto simp: anchor_def flow_inv_def)

lemma stream_unset: "flow_inv st \<Longrightarrow> st_hwm st = 0 \<Longrightarrow> stream st s = None"
  by (auto simp: stream_def flow_inv_def Let_def)

lemma stream_anchor: "flow_inv st \<Longrightarrow> stream (anchor st seq) s = stream st s"
proof (cases "st_first_seq_set st")
  case False
  assume inv: "flow_inv st"
  with False have "st_hwm st = 0" "st_hwm (anchor st seq) = 0"
    by (auto simp: flow_inv_def anchor_def)
  with inv show ?thesis
    using stream_unset flow_inv_anchor by metis
qed (simp add: anchor_def)

lemma anchor_simps [simp]:
  "st_first_seq_set (anchor st seq)" "st_hwm (anchor st seq) = st_hwm st"
  "same_meta st (anchor st seq)" "same_meta (anchor st seq) st' = same_meta st st'"
  by (auto simp: anchor_def same_meta_def)

lemma seg_fits_anchor: "seg_fits (anchor st seq) seq = seg_fits st seq"
  by (auto simp: anchor_def seg_fits_def)

text \<open>What a segment must satisfy to be a parsed packet: see \<open>extract_headers_SomeD\<close>.\<close>

definition seg_ok :: "l2l4_result \<Rightarrow> bool" where
  "seg_ok l \<longleftrightarrow> l2l4_payload_len l = length (l2l4_payload l) \<and> l2l4_payload_len l < 2 ^ 16"

lemma place_segment_placed:
  assumes "flow_inv st" "seg_ok l" "0 < l2l4_payload_len l"
  shows "\<exists>st'. place_segment st l = Some st' \<and>
    placed (anchor st (l2l4_seq l)) (l2l4_seq l) (l2l4_payload l) st'"
  using place_seq_spec [OF flow_inv_anchor [OF assms(1)], of "l2l4_seq l" "l2l4_payload_len l"
      "l2l4_payload l" "l2l4_seq l"] assms
  by (auto simp: place_segment_def seg_ok_def)

lemma place_segment_empty: "l2l4_payload_len l = 0 \<Longrightarrow> place_segment st l = Some st"
  by (simp add: place_segment_def)

lemma placed_window_base:
  assumes "placed (anchor st seq) seq bytes st'"
  shows "st_first_seq st' = window_base st seq"
  using assms
  by (auto simp: placed_def Let_def window_base_def seg_fits_anchor anchor_def)

lemma place_segment_spec:
  assumes inv: "flow_inv st" and ok: "seg_ok l"
  shows "\<exists>st'. place_segment st l = Some st' \<and> flow_inv st' \<and> same_meta st st' \<and>
    stream st' = new_bytes st l ++ stream st"
proof (cases "l2l4_payload_len l = 0")
  case True
  then have "new_bytes st l = Map.empty"
    using ok by (auto simp: seg_ok_def seg_bytes_def new_bytes_def restrict_map_def)
  with True inv show ?thesis by (simp add: place_segment_empty)
next
  case False
  then obtain st' where st': "place_segment st l = Some st'"
    and pl: "placed (anchor st (l2l4_seq l)) (l2l4_seq l) (l2l4_payload l) st'"
    using place_segment_placed [OF inv ok] by blast
  have "stream st' s = (new_bytes st l ++ stream st) s" for s
    using pl unfolding placed_def seg_fits_anchor stream_anchor [OF inv]
    by (auto simp: placed_window_base [OF pl] new_bytes_def map_add_def restrict_map_def
        split: option.split)
  with st' pl show ?thesis by (auto simp: placed_def)
qed

text \<open>
  The contiguous prefix is the longest gap-free run of the stream from the anchor.
\<close>

lemma contig_prefix_nth:
  assumes "flow_inv st" "i < st_contig_len st"
  shows "stream st (st_first_seq st + of_nat i) = Some (contig_prefix st ! i)"
proof -
  have i: "i < 4096" using assms by (auto simp: flow_inv_def)
  then have "unat (of_nat i :: u32) = i" by (simp add: unat_of_nat)
  then show ?thesis
    using assms i by (simp add: stream_def Let_def contig_prefix_def flow_inv_def)
qed

lemma length_contig_prefix: "flow_inv st \<Longrightarrow> length (contig_prefix st) = st_contig_len st"
  by (auto simp: contig_prefix_def flow_inv_def)

lemma contig_len_maximal:
  assumes inv: "flow_inv st" and nc: "\<not> st_verdict_cached st" and n: "n \<le> 4095"
    and run: "\<And>i. i < n \<Longrightarrow> stream st (st_first_seq st + of_nat i) \<noteq> None"
  shows "n \<le> st_contig_len st"
proof (rule ccontr)
  assume "\<not> n \<le> st_contig_len st"
  then have c: "st_contig_len st < n" by simp
  then have "unat (of_nat (st_contig_len st) :: u32) = st_contig_len st"
    using n by (simp add: unat_of_nat)
  with run [OF c] have "st_filled st ! st_contig_len st"
    by (auto simp: stream_def Let_def split: if_split_asm)
  moreover from this inv c n have "st_contig_len st < st_hwm st" by (simp add: flow_inv_def)
  ultimately show False using inv nc by (simp add: flow_inv_def)
qed

section \<open>Properties\<close>

text \<open>
  C23: placing a segment refines a first-wins merge. On a flow that satisfies the reassembly
  invariant no array access leaves its array, the invariant is kept, the fields outside the
  reassembly buffer are untouched, and the new stream is the old one extended, at the sequence
  numbers that were still empty, by the segment's bytes inside the window.
\<close>

theorem place_segment_refines_first_wins:
  assumes "flow_inv st" and "seg_ok l"
  shows "\<exists>st'. place_segment st l = Some st' \<and> flow_inv st' \<and> same_meta st st' \<and>
    stream st' = new_bytes st l ++ stream st"
  using assms by (rule place_segment_spec)

definition demo_segment :: "u32 \<Rightarrow> byte list \<Rightarrow> l2l4_result" where
  "demo_segment seq bytes = \<lparr>l2l4_type = TRAFFIC_HTTP,
     l2l4_key = \<lparr>src_ip = 1, dst_ip = 2, src_port = 100, dst_port = 80, proto = 6\<rparr>,
     l2l4_payload = bytes, l2l4_payload_len = length bytes, l2l4_seq = seq\<rparr>"

theorem place_segment_refines_first_wins_witness:
  "flow_inv zero_flow_state \<and> seg_ok (demo_segment 1001 [71, 69, 84]) \<and>
   (\<exists>st'. place_segment zero_flow_state (demo_segment 1001 [71, 69, 84]) = Some st' \<and>
      stream st' 1002 = Some 69 \<and> stream st' 1004 = None)"
proof -
  let ?l = "demo_segment 1001 [71, 69, 84]"
  have ok: "seg_ok ?l" by (simp add: seg_ok_def demo_segment_def)
  obtain st' where "place_segment zero_flow_state ?l = Some st'"
    "stream st' = new_bytes zero_flow_state ?l ++ stream zero_flow_state"
    using place_segment_refines_first_wins [OF flow_inv_zero ok] by blast
  then have "stream st' 1002 = Some 69 \<and> stream st' 1004 = None"
    by (simp add: new_bytes_def seg_fits_def window_base_def demo_segment_def seg_bytes_def
        zero_flow_state_def map_add_def stream_def)
  then show ?thesis
    using flow_inv_zero ok \<open>place_segment zero_flow_state ?l = Some st'\<close> by blast
qed

text \<open>
  A segment outside the reassembly window leaves the flow exactly as it is. It can neither
  move the anchor nor disturb a byte, at any distance before or after the window, including the
  distance of \<open>2 ^ 31\<close> where the sign of the difference is ambiguous.
\<close>

lemma far_segment_ignored:
  assumes "st_first_seq_set st"
    and "int (FLOW_BUF_CAP - 1) \<le> sint (l2l4_seq l - st_first_seq st) \<or>
         sint (l2l4_seq l - st_first_seq st) < 0 \<and>
         int (FLOW_BUF_CAP - 1) < int (st_hwm st) - sint (l2l4_seq l - st_first_seq st)"
  shows "place_segment st l = Some st"
  using assms
  by (auto simp: place_segment_def place_seq_def place_at_def anchor_def Let_def)

end
