(* ===== verification/Reassembly_Stream.thy ===== *)
theory Reassembly_Stream
  imports Reassembly
begin

text \<open>
  Reassembly of whole segment sequences, over the placement of \<open>Reassembly\<close>. The interface
  \<open>segment_store\<close> says what a client relies on when it feeds segments one by one: a placement is
  defined, keeps the invariant, and only adds to the view. Its consequences hold for every
  sequence, and the flow state is an instance.
\<close>

section \<open>The interface\<close>

locale segment_store =
  fixes inv :: "'s \<Rightarrow> bool"
    and ok :: "'g \<Rightarrow> bool"
    and put :: "'s \<Rightarrow> 'g \<Rightarrow> 's option"
    and view :: "'s \<Rightarrow> 'k \<rightharpoonup> 'v"
    and adds :: "'s \<Rightarrow> 'g \<Rightarrow> 'k \<rightharpoonup> 'v"
  assumes put_spec: "inv s \<Longrightarrow> ok g \<Longrightarrow>
    \<exists>s'. put s g = Some s' \<and> inv s' \<and> view s' = adds s g ++ view s"
begin

lemma put_all_keeps:
  assumes "inv s" and "\<forall>g \<in> set gs. ok g"
  shows "\<exists>s'. fold_opt put s gs = Some s' \<and> inv s' \<and> view s \<subseteq>\<^sub>m view s'"
proof -
  have "\<exists>t'. put t g = Some t' \<and> inv t' \<and> view s \<subseteq>\<^sub>m view t'"
    if t: "inv t \<and> view s \<subseteq>\<^sub>m view t" and g: "g \<in> set gs" for t g
  proof -
    obtain t' where "put t g = Some t'" "inv t'" "view t' = adds t g ++ view t"
      using put_spec [of t g] t g assms(2) by blast
    then show ?thesis using t by (metis map_le_map_add map_le_trans)
  qed
  then show ?thesis
    using fold_opt_invariant [where I = "\<lambda>t. inv t \<and> view s \<subseteq>\<^sub>m view t" and f = put and s = s
        and xs = gs] assms(1)
    by simp
qed

lemma put_all_first_wins:
  assumes "inv s" "\<forall>g \<in> set gs. ok g" "view s k = Some v" "fold_opt put s gs = Some s'"
  shows "view s' k = Some v"
  using put_all_keeps [OF assms(1,2)] assms(3,4) by (auto simp: map_le_def dom_def)

end

interpretation flow: segment_store flow_inv seg_ok place_segment stream new_bytes
proof unfold_locales
  fix st l
  assume "flow_inv st" "seg_ok l"
  then show "\<exists>st'. place_segment st l = Some st' \<and> flow_inv st' \<and>
      stream st' = new_bytes st l ++ stream st"
    using place_segment_spec by blast
qed

section \<open>Sequences of segments\<close>

text \<open>Successive segments of one flow, as \<open>parser_flow_update\<close> places them while no verdict exists.\<close>

abbreviation place_all :: "flow_state \<Rightarrow> l2l4_result list \<Rightarrow> flow_state option" where
  "place_all \<equiv> fold_opt place_segment"

text \<open>
  A segment of the sender's stream \<open>T\<close> that lies in the window of \<open>FLOW_BUF_CAP - 1\<close> bytes from
  \<open>base\<close>, and the sequence numbers it covers.
\<close>

definition seg_of :: "(u32 \<Rightarrow> byte) \<Rightarrow> u32 \<Rightarrow> l2l4_result \<Rightarrow> bool" where
  "seg_of T base l \<longleftrightarrow>
     l2l4_payload_len l = length (l2l4_payload l) \<and>
     unat (l2l4_seq l - base) + length (l2l4_payload l) \<le> FLOW_BUF_CAP - 1 \<and>
     (\<forall>j < length (l2l4_payload l). l2l4_payload l ! j = T (l2l4_seq l + of_nat j))"

definition covers :: "l2l4_result \<Rightarrow> u32 \<Rightarrow> bool" where
  "covers l s \<longleftrightarrow> unat (s - l2l4_seq l) < length (l2l4_payload l)"

definition in_window :: "u32 \<Rightarrow> flow_state \<Rightarrow> bool" where
  "in_window base st \<longleftrightarrow>
     (st_first_seq_set st \<longrightarrow> unat (st_first_seq st - base) + st_hwm st \<le> FLOW_BUF_CAP - 1)"

lemma seg_of_ok: "seg_of T base l \<Longrightarrow> seg_ok l"
  by (simp add: seg_of_def seg_ok_def)

lemma seg_of_bytes:
  assumes "seg_of T base l"
  shows "seg_bytes (l2l4_seq l) (l2l4_payload l) s = (if covers l s then Some (T s) else None)"
proof -
  have "l2l4_seq l + of_nat (unat (s - l2l4_seq l)) = s" by simp
  then show ?thesis using assms by (auto simp: seg_bytes_def seg_of_def covers_def Let_def)
qed

lemma sint_of_small_diff:
  assumes "a \<le> 4095" "b \<le> 4095"
  shows "sint (of_int (int a - int b) :: u32) = int a - int b"
proof -
  have "sint (of_int (int a - int b) :: u32) = signed_take_bit 31 (int a - int b)"
    by (subst sint_sbintrunc') simp
  also have "\<dots> = int a - int b" using assms by (intro signed_take_bit_int_eq_self) simp_all
  finally show ?thesis .
qed

lemma sint_diff_small:
  fixes x y base :: u32
  assumes "unat (x - base) \<le> 4095" "unat (y - base) \<le> 4095"
  shows "sint (x - y) = int (unat (x - base)) - int (unat (y - base))"
proof -
  have "x - y = of_int (int (unat (x - base)) - int (unat (y - base)))" by simp
  then have "sint (x - y) = sint (of_int (int (unat (x - base)) - int (unat (y - base))) :: u32)"
    by (rule arg_cong)
  also have "\<dots> = int (unat (x - base)) - int (unat (y - base))"
    by (rule sint_of_small_diff [OF assms])
  finally show ?thesis .
qed

lemma seg_of_fits:
  assumes "seg_of T base l" "in_window base st"
  shows "seg_fits st (l2l4_seq l)"
proof (cases "st_first_seq_set st")
  case True
  then have w: "unat (st_first_seq st - base) + st_hwm st \<le> 4095"
    "unat (l2l4_seq l - base) \<le> 4095"
    using assms by (auto simp: in_window_def seg_of_def)
  then have "sint (l2l4_seq l - st_first_seq st) =
      int (unat (l2l4_seq l - base)) - int (unat (st_first_seq st - base))"
    by (intro sint_diff_small) simp_all
  with w show ?thesis unfolding seg_fits_def by linarith
qed (simp add: seg_fits_def)

text \<open>Inside the window nothing is clipped and the next state is in the window again.\<close>

lemma placed_in_window:
  assumes seg: "seg_of T base l" "0 < length (l2l4_payload l)" and win: "in_window base st"
    and pl: "placed (anchor st (l2l4_seq l)) (l2l4_seq l) (l2l4_payload l) st'"
    and inv: "flow_inv st"
  shows "in_window base st'" and "\<And>s. covers l s \<Longrightarrow> unat (s - st_first_seq st') < 4095"
proof -
  let ?q = "l2l4_seq l" and ?n = "length (l2l4_payload l)"
  let ?a = "anchor st ?q"
  let ?x = "unat (?q - base)" and ?y = "unat (st_first_seq ?a - base)"
  have x: "?x + ?n \<le> 4095" using seg by (simp add: seg_of_def)
  have win': "in_window base ?a"
    using win x inv by (auto simp: in_window_def anchor_def flow_inv_def)
  then have y: "?y + st_hwm st \<le> 4095" by (simp add: in_window_def)
  let ?d = "sint (?q - st_first_seq ?a)"
  have d: "?d = int ?x - int ?y" using x y by (intro sint_diff_small) simp_all
  have fits: "seg_fits ?a ?q" by (rule seg_of_fits [OF seg(1) win'])
  have st': "st_first_seq st' = (if ?d < 0 then ?q else st_first_seq ?a)"
    "st_hwm st' = (if 4095 \<le> ?d then st_hwm st
       else if ?d < 0 then max (st_hwm st + nat (- ?d)) (min ?n 4095)
       else max (st_hwm st) (min (nat ?d + ?n) 4095))"
    using pl fits by (simp_all add: placed_def Let_def)
  have z: "unat (st_first_seq st' - base) = min ?x ?y"
  proof (cases "?d < 0")
    case True
    then have "?x < ?y" using d by linarith
    then show ?thesis using st'(1) True by simp
  next
    case False
    then have "?y \<le> ?x" using d by linarith
    then show ?thesis using st'(1) False by simp
  qed
  show "in_window base st'" unfolding in_window_def z st'(2)
    using x y d by (auto simp del: of_nat_unat)
  show "unat (s - st_first_seq st') < 4095" if "covers l s" for s
  proof -
    let ?j = "unat (s - ?q)"
    have j: "?j < ?n" using that by (simp add: covers_def)
    let ?m = "?j + ?x - unat (st_first_seq st' - base)"
    have "unat (st_first_seq st' - base) \<le> ?j + ?x" using z by simp
    then have "s - st_first_seq st' = of_nat ?m" by (simp add: of_nat_diff)
    moreover have "?m < 4095" using j x by linarith
    then have "unat (of_nat ?m :: u32) < 4095" by (simp only: unat_of_nat) simp
    ultimately show ?thesis by (simp only:)
  qed
qed

lemma place_segment_window:
  assumes inv: "flow_inv st" and win: "in_window base st" and seg: "seg_of T base l"
  shows "\<exists>st'. place_segment st l = Some st' \<and> flow_inv st' \<and> in_window base st' \<and>
    same_meta st st' \<and>
    (\<forall>s. stream st' s = (case stream st s of Some b \<Rightarrow> Some b
       | None \<Rightarrow> if covers l s then Some (T s) else None))"
proof (cases "l2l4_payload_len l = 0")
  case True
  then have "\<not> covers l s" for s using seg by (simp add: covers_def seg_of_def)
  with True inv win show ?thesis by (simp add: place_segment_empty split: option.split)
next
  case False
  then have n: "0 < length (l2l4_payload l)" using seg by (simp add: seg_of_def)
  from False obtain st' where st': "place_segment st l = Some st'"
    and pl: "placed (anchor st (l2l4_seq l)) (l2l4_seq l) (l2l4_payload l) st'"
    using place_segment_placed [OF inv seg_of_ok [OF seg]] by blast
  note w = placed_in_window [OF seg n win pl inv]
  have "stream st' s = (case stream st s of Some b \<Rightarrow> Some b
      | None \<Rightarrow> if covers l s then Some (T s) else None)" for s
    using pl w(2) [of s] seg_of_fits [OF seg win] seg_of_bytes [OF seg, of s]
    unfolding placed_def seg_fits_anchor stream_anchor [OF inv] by (auto split: option.split)
  with st' w(1) pl show ?thesis by (simp add: placed_def)
qed

lemma place_all_window:
  assumes "flow_inv st" "in_window base st" "\<forall>l \<in> set ls. seg_of T base l"
  shows "\<exists>st'. place_all st ls = Some st' \<and> flow_inv st' \<and> in_window base st' \<and>
    same_meta st st' \<and>
    (\<forall>s. stream st' s = (case stream st s of Some b \<Rightarrow> Some b
       | None \<Rightarrow> if \<exists>l \<in> set ls. covers l s then Some (T s) else None))"
  using assms
proof (induction ls arbitrary: st)
  case Nil
  then show ?case by (simp split: option.split)
next
  case (Cons l ls)
  obtain s1 where s1: "place_segment st l = Some s1" "flow_inv s1" "in_window base s1"
    "same_meta st s1" "\<forall>s. stream s1 s = (case stream st s of Some b \<Rightarrow> Some b
       | None \<Rightarrow> if covers l s then Some (T s) else None)"
    using place_segment_window [OF Cons.prems(1,2), of T l] Cons.prems(3) by auto
  obtain st' where st': "place_all s1 ls = Some st'" "flow_inv st'" "in_window base st'"
    "same_meta s1 st'" "\<forall>s. stream st' s = (case stream s1 s of Some b \<Rightarrow> Some b
       | None \<Rightarrow> if \<exists>l \<in> set ls. covers l s then Some (T s) else None)"
    using Cons.IH [OF s1(2,3)] Cons.prems(3) by auto
  from s1 st' show ?case
    by (auto intro: same_meta_trans split: option.split)
qed

lemma in_window_zero: "in_window base zero_flow_state"
  by (simp add: in_window_def zero_flow_state_def)

lemma stream_zero: "stream zero_flow_state s = None"
  by (simp add: stream_def zero_flow_state_def Let_def)

text \<open>When the first byte of the window is there, the anchor is the window's base.\<close>

lemma anchor_is_base:
  assumes inv: "flow_inv st" and win: "in_window base st" and b: "stream st base \<noteq> None"
  shows "st_first_seq st = base"
proof (rule ccontr)
  assume ne: "st_first_seq st \<noteq> base"
  let ?f = "st_first_seq st - base"
  from b inv have i: "unat (base - st_first_seq st) < st_hwm st" "st_hwm st \<le> 4095"
    by (auto simp: stream_def Let_def flow_inv_def split: if_split_asm)
  then have "st_first_seq_set st" using inv by (auto simp: flow_inv_def)
  then have f: "unat ?f \<le> 4095" using win by (simp add: in_window_def)
  have "?f + (base - st_first_seq st) = 0" by simp
  then have "unat (?f + (base - st_first_seq st)) = 0" by simp
  moreover have "unat (?f + (base - st_first_seq st)) =
      (unat ?f + unat (base - st_first_seq st)) mod 2 ^ 32"
    by (simp only: unat_word_ariths) simp
  ultimately have "(unat ?f + unat (base - st_first_seq st)) mod 2 ^ 32 = 0" by (simp only:)
  with i f have "unat ?f = 0" by simp
  with ne show False by (simp add: unat_eq_zero)
qed

text \<open>The first segment of a flow is its contiguous prefix.\<close>

lemma first_segment_prefix:
  assumes ok: "seg_ok l" and n: "0 < length (l2l4_payload l)" "length (l2l4_payload l) \<le> 4095"
    and st: "flow_inv st" "st_hwm st = 0" "\<not> st_first_seq_set st" "\<not> st_verdict_cached st"
  shows "\<exists>st'. place_segment st l = Some st' \<and> flow_inv st' \<and> same_meta st st' \<and>
    contig_prefix st' = l2l4_payload l"
proof -
  let ?p = "l2l4_payload l" and ?q = "l2l4_seq l"
  obtain st' where st': "place_segment st l = Some st'" and pl: "placed (anchor st ?q) ?q ?p st'"
    using place_segment_placed [OF st(1) ok] ok n by (auto simp: seg_ok_def)
  have a: "st_first_seq (anchor st ?q) = ?q" using st(3) by (simp add: anchor_def)
  have fits: "seg_fits st ?q" using st(3) by (simp add: seg_fits_def)
  have inv: "flow_inv st'" "same_meta st st'" and base: "st_first_seq st' = ?q"
    and hwm: "st_hwm st' = length ?p"
    using pl n a fits st(2) by (auto simp: placed_def Let_def seg_fits_anchor)
  have str: "stream st' s = seg_bytes ?q ?p s" if "unat (s - ?q) < 4095" for s
    using pl that fits base stream_unset [OF st(1,2)]
    unfolding placed_def seg_fits_anchor stream_anchor [OF st(1)] by simp
  have byte: "stream st' (?q + of_nat i) = Some (?p ! i)" if "i < length ?p" for i
  proof -
    have "unat (of_nat i :: u32) = i" using that n by (simp add: unat_of_nat)
    then show ?thesis using str [of "?q + of_nat i"] that n by (simp add: seg_bytes_def Let_def)
  qed
  have nc: "\<not> st_verdict_cached st'" using inv(2) st(4) by (simp add: same_meta_def)
  have "length ?p \<le> st_contig_len st'"
    using contig_len_maximal [OF inv(1) nc n(2)] byte base by simp
  moreover have "st_contig_len st' \<le> length ?p" using inv(1) hwm by (simp add: flow_inv_def)
  ultimately have c: "st_contig_len st' = length ?p" by simp
  have "contig_prefix st' = ?p"
    using length_contig_prefix [OF inv(1)] c contig_prefix_nth [OF inv(1)] byte base
    by (intro nth_equalityI) auto
  with st' inv show ?thesis by blast
qed

section \<open>Properties\<close>

text \<open>
  First wins for ever. Once a byte of the stream has been accepted, no sequence of later
  segments, however they overlap it, changes it, and the reassembly of any sequence of parsed
  segments stays inside its arrays.
\<close>

lemma accepted_byte_never_changes:
  assumes "flow_inv st" and "\<forall>l \<in> set ls. seg_ok l" and "stream st s = Some b"
  shows "\<exists>st'. place_all st ls = Some st' \<and> flow_inv st' \<and> stream st' s = Some b"
  using flow.put_all_keeps [OF assms(1,2)] flow.put_all_first_wins [OF assms] by blast

lemma window_prefix:
  assumes inv: "flow_inv st'" "in_window base st'" "\<not> st_verdict_cached st'"
    and str: "\<And>s. stream st' s = (if \<exists>l \<in> set ls. covers l s then Some (T s) else None)"
    and n: "0 < n" "n \<le> FLOW_BUF_CAP - 1"
    and cov: "\<forall>i < n. \<exists>l \<in> set ls. covers l (base + of_nat i)"
  shows "st_first_seq st' = base \<and> n \<le> st_contig_len st' \<and>
    take n (contig_prefix st') = map (\<lambda>i. T (base + of_nat i)) [0..<n]"
proof -
  have "\<exists>l \<in> set ls. covers l base" using n(1) cov by force
  then have "stream st' base \<noteq> None" using str [of base] by simp
  then have base: "st_first_seq st' = base" by (rule anchor_is_base [OF inv(1,2)])
  have run: "stream st' (st_first_seq st' + of_nat i) = Some (T (base + of_nat i))" if "i < n" for i
    using str cov that base by simp
  have le: "n \<le> st_contig_len st'"
    using contig_len_maximal [OF inv(1,3), of n] n(2) run by simp
  have "take n (contig_prefix st') ! i = T (base + of_nat i)" if "i < n" for i
    using contig_prefix_nth [OF inv(1), of i] run [OF that] that le by simp
  then have "take n (contig_prefix st') = map (\<lambda>i. T (base + of_nat i)) [0..<n]"
    using length_contig_prefix [OF inv(1)] le by (intro nth_equalityI) auto
  with base le show ?thesis by blast
qed

text \<open>
  C24: reassembly is independent of arrival order. Segments cut from one stream, all inside one
  window, reassemble to exactly the bytes they cover, whatever their order, their overlaps and
  their duplicates; if they cover the first \<open>n\<close> bytes of the window without a gap, the contiguous
  prefix handed to the extractors starts with those \<open>n\<close> bytes of the stream.
\<close>

theorem reassembly_order_independent:
  assumes "\<forall>l \<in> set ls. seg_of T base l" and "0 < n" "n \<le> FLOW_BUF_CAP - 1"
    and "\<forall>i < n. \<exists>l \<in> set ls. covers l (base + of_nat i)"
  shows "\<exists>st'. place_all zero_flow_state ls = Some st' \<and> flow_inv st' \<and>
    (\<forall>s. stream st' s = (if \<exists>l \<in> set ls. covers l s then Some (T s) else None)) \<and>
    st_first_seq st' = base \<and> n \<le> st_contig_len st' \<and>
    take n (contig_prefix st') = map (\<lambda>i. T (base + of_nat i)) [0..<n]"
proof -
  obtain st' where st': "place_all zero_flow_state ls = Some st'" "flow_inv st'"
    "in_window base st'" "same_meta zero_flow_state st'"
    and str: "\<And>s. stream st' s = (if \<exists>l \<in> set ls. covers l s then Some (T s) else None)"
    using place_all_window [OF flow_inv_zero in_window_zero assms(1)] by (auto simp: stream_zero)
  have "\<not> st_verdict_cached st'"
    using st'(4) by (simp add: same_meta_def zero_flow_state_def)
  from window_prefix [OF st'(2,3) this str assms(2-4)] st' str show ?thesis by blast
qed

text \<open>Three overlapping segments, the last one first.\<close>

theorem reassembly_order_independent_witness:
  "\<exists>st'. place_all zero_flow_state
       [demo_segment 1004 [4, 5], demo_segment 1001 [1, 2, 3], demo_segment 1002 [2, 3, 4]] =
       Some st' \<and> st_first_seq st' = 1001 \<and> take 5 (contig_prefix st') = [1, 2, 3, 4, 5]"
proof -
  let ?ls = "[demo_segment 1004 [4, 5], demo_segment 1001 [1, 2, 3], demo_segment 1002 [2, 3, 4]]"
  let ?T = "\<lambda>s :: u32. ucast (s - 1000) :: byte"
  have seg: "\<forall>l \<in> set ?ls. seg_of ?T 1001 l"
    by (simp add: seg_of_def demo_segment_def All_less_Suc)
  have five: "5 = Suc (Suc (Suc (Suc (Suc 0))))" by simp
  have cov: "\<forall>i < 5. \<exists>l \<in> set ?ls. covers l (1001 + of_nat i)"
    unfolding five by (simp add: covers_def demo_segment_def All_less_Suc)
  have "map (\<lambda>i. ?T (1001 + of_nat i)) [0..<5] = [1, 2, 3, 4, 5]"
    by (simp add: upt_rec)
  then show ?thesis
    using reassembly_order_independent [OF seg _ _ cov] by auto
qed

end
