(* ===== verification/Http_Extract.thy ===== *)
theory Http_Extract
  imports Reassembly_Stream
begin

text \<open>
  HTTP request extraction: \<open>find_ci\<close> and \<open>try_extract_http\<close> of \<open>src/parser.c\<close>. Shown: on a flow
  that satisfies the reassembly invariant every string function stays inside the buffer; the
  result is that of a reference function on the string held by the contiguous prefix; a
  well-formed request yields \<open>http://host/uri\<close>; the NUL the function writes hits a cell that holds
  no accepted byte.
\<close>

section \<open>Model\<close>

abbreviation (input) SPACE :: byte where "SPACE \<equiv> 32"

definition crlf :: "byte list" where
  "crlf = [13, 10]"

definition host_hdr_name :: "byte list" where
  "host_hdr_name = crlf @ ascii ''Host:''"

definition http_methods :: "byte list list" where
  "http_methods = map ascii [''GET '', ''POST '', ''HEAD '', ''PUT '', ''DELETE '', ''OPTIONS '']"

text \<open>\<open>find_ci(hay, needle)\<close>.\<close>

primrec find_ci :: "cptr \<Rightarrow> byte list \<Rightarrow> cptr option option" where
  "find_ci [] needle = None"
| "find_ci (x # xs) needle =
     (if x = 0 then Some None
      else do {
        b \<leftarrow> c_strncasecmp_eq (x # xs) needle;
        if b then Some (Some (x # xs)) else find_ci xs needle })"

text \<open>The loop over the method keywords, with its \<open>break\<close>.\<close>

primrec method_match :: "cptr \<Rightarrow> byte list list \<Rightarrow> bool option" where
  "method_match buf [] = Some False"
| "method_match buf (m # ms) = do {
     b \<leftarrow> c_strncmp_eq buf m;
     if b then Some True else method_match buf ms }"

text \<open>
  The Host header and the output string: from \<open>find_ci\<close> to the end of \<open>try_extract_http\<close>, once the
  URI (at \<open>uri\<close>, of length \<open>uri_len\<close>) is known. \<open>snprintf\<close> cannot fail here: its output is shorter than
  the two buffers together. The output parameters are the scan buffer and the length.
\<close>

definition http_host_part ::
  "flow_state \<Rightarrow> cptr \<Rightarrow> cptr \<Rightarrow> nat \<Rightarrow> (flow_state \<times> (cptr \<times> nat) option) option" where
  "http_host_part st buf uri uri_len = do {
     hdr \<leftarrow> find_ci buf host_hdr_name;
     case hdr of
       None \<Rightarrow> Some (st, None)
     | Some host_hdr \<Rightarrow> do {
         host_val \<leftarrow> c_skip SPACE (drop (length host_hdr_name) host_hdr);
         e \<leftarrow> c_strstr host_val crlf;
         case e of
           None \<Rightarrow> Some (st, None)
         | Some host_end \<Rightarrow> do {
             let host_len = length host_val - length host_end;
             h \<leftarrow> c_prec_str host_len host_val;
             u \<leftarrow> c_prec_str uri_len uri;
             let scan = c_snprintf (st_scan_buf st) (ascii ''http://'' @ h @ u);
             Some (st\<lparr>st_scan_buf := scan\<rparr>,
                   Some (scan, c_strnlen scan (length (st_scan_buf st)))) } } }"

definition try_extract_http ::
  "flow_state \<Rightarrow> (flow_state \<times> (cptr \<times> nat) option) option" where
  "try_extract_http st = do {
     buf \<leftarrow> wr (st_buf st) (st_contig_len st) 0;
     let st = st\<lparr>st_buf := buf\<rparr>;
     method_ok \<leftarrow> method_match buf http_methods;
     if \<not> method_ok then Some (st, None)
     else do {
       p1 \<leftarrow> c_strchr buf SPACE;
       case p1 of
         None \<Rightarrow> Some (st, None)
       | Some sp1 \<Rightarrow> do {
           p2 \<leftarrow> c_strchr (tl sp1) SPACE;
           case p2 of
             None \<Rightarrow> Some (st, None)
           | Some sp2 \<Rightarrow> http_host_part st buf (tl sp1) (length (tl sp1) - length sp2) } } }"

section \<open>Reference function\<close>

text \<open>The same extraction on the received string, with list functions only.\<close>

definition http_host :: "byte list \<Rightarrow> byte list option" where
  "http_host s =
     (case find_sub c_tolower host_hdr_name s of
        None \<Rightarrow> None
      | Some h \<Rightarrow>
          let v = dropWhile (\<lambda>b. b = SPACE) (drop (length host_hdr_name) h) in
          map_option (\<lambda>e. take (length v - length e) v) (find_sub (\<lambda>b. b) crlf v))"

definition http_url :: "byte list \<Rightarrow> byte list option" where
  "http_url s =
     (let r = tl (dropWhile (\<lambda>b. b \<noteq> SPACE) s) in
      if (\<exists>m \<in> set http_methods. match_at (\<lambda>b. b) m s) \<and> SPACE \<in> set s \<and> SPACE \<in> set r
      then map_option (\<lambda>h. ascii ''http://'' @ h @ takeWhile (\<lambda>b. b \<noteq> SPACE) r) (http_host s)
      else None)"

section \<open>Equivalence with the reference\<close>

lemma nul_free_literals [simp]:
  "nul_free host_hdr_name" "nul_free crlf" "crlf \<noteq> []" "host_hdr_name \<noteq> []"
  "m \<in> set http_methods \<Longrightarrow> nul_free m" "nul_free (ascii ''http://'')"
  by (auto simp: host_hdr_name_def crlf_def ascii_def http_methods_def)

lemma find_ci_nul:
  assumes "nul_free s" and "nul_free lit" and "lit \<noteq> []"
  shows "find_ci (s @ 0 # r) lit =
    Some (map_option (\<lambda>t. t @ 0 # r) (find_sub c_tolower lit s))"
  using assms(1)
proof (induction s)
  case (Cons x xs)
  then show ?case
    using c_strncasecmp_eq_nul [of "x # xs" lit r] assms(2) by simp
qed simp

lemma method_match_nul:
  assumes "nul_free s" and "\<forall>m \<in> set ms. nul_free m"
  shows "method_match (s @ 0 # r) ms = Some (\<exists>m \<in> set ms. match_at (\<lambda>b. b) m s)"
  using assms(2) by (induction ms) (auto simp: c_strncmp_eq_nul [OF assms(1)])

lemma http_host_part_eq:
  assumes s: "nul_free s" and u: "nul_free u" and "st_scan_buf st \<noteq> []"
  shows "http_host_part st (s @ 0 # r) (u @ 0 # r) n =
    Some (case http_host s of
        None \<Rightarrow> (st, None)
      | Some h \<Rightarrow>
          let out = ascii ''http://'' @ h @ take n u; scan = c_snprintf (st_scan_buf st) out in
          (st\<lparr>st_scan_buf := scan\<rparr>,
           Some (scan, min (length (st_scan_buf st) - 1) (length out))))"
proof (cases "find_sub c_tolower host_hdr_name s")
  case None
  then show ?thesis
    using find_ci_nul [OF s] by (simp add: http_host_part_def http_host_def)
next
  case (Some h)
  then have h: "nul_free h" "length host_hdr_name \<le> length h"
    using find_sub_nul_free find_sub_length s by blast+
  let ?v = "dropWhile (\<lambda>b. b = SPACE) (drop (length host_hdr_name) h)"
  have v: "nul_free ?v" using h(1) by (simp add: nul_free_drop nul_free_dropWhile)
  have skip: "c_skip SPACE (drop (length host_hdr_name) (h @ 0 # r)) = Some (?v @ 0 # r)"
    using h(2) by (simp add: c_skip_nul)
  show ?thesis
  proof (cases "find_sub (\<lambda>b. b) crlf ?v")
    case None
    then show ?thesis
      using find_ci_nul [OF s] c_strstr_nul [OF v] Some skip
      by (simp add: http_host_part_def http_host_def Let_def)
  next
    case e: (Some e)
    let ?h = "take (length ?v - length e) ?v"
    have nf: "nul_free (ascii ''http://'' @ ?h @ take n u)"
      using v u by (simp add: nul_free_take)
    have "c_prec_str (length ?v - length e) (?v @ 0 # r) = Some ?h"
      "c_prec_str n (u @ 0 # r) = Some (take n u)"
      using v u by (simp_all add: c_prec_str_nul)
    then show ?thesis
      using find_ci_nul [OF s] c_strstr_nul [OF v] Some skip e c_snprintf_strnlen [OF nf assms(3)]
      by (simp add: http_host_part_def http_host_def Let_def)
  qed
qed

lemma take_until: "take (length xs - length (dropWhile P xs)) xs = takeWhile P xs"
proof -
  have "length (takeWhile P xs @ dropWhile P xs) = length xs" by simp
  then have "length xs - length (dropWhile P xs) = length (takeWhile P xs)"
    unfolding length_append by linarith
  then show ?thesis by (simp add: takeWhile_eq_take [symmetric])
qed

lemma takeWhile_nul: "takeWhile (\<lambda>b. b \<noteq> 0) (xs @ 0 # ys) = takeWhile (\<lambda>b. b \<noteq> 0) xs"
  by (induction xs) auto

text \<open>What the buffer looks like once the terminator is written.\<close>

definition http_text :: "flow_state \<Rightarrow> byte list" where
  "http_text st = takeWhile (\<lambda>b. b \<noteq> 0) (contig_prefix st)"

lemma terminated_buffer:
  assumes "flow_inv st"
  obtains r where "(st_buf st)[st_contig_len st := 0] = http_text st @ 0 # r"
    "nul_free (http_text st)"
proof -
  let ?b = "(st_buf st)[st_contig_len st := 0]"
  have c: "st_contig_len st < length (st_buf st)" using assms by (auto simp: flow_inv_def)
  then have b: "?b = contig_prefix st @ 0 # drop (Suc (st_contig_len st)) (st_buf st)"
    by (simp add: upd_conv_take_nth_drop contig_prefix_def)
  then obtain s r where sr: "?b = s @ 0 # r" "nul_free s" "s = takeWhile (\<lambda>b. b \<noteq> 0) ?b"
    using cstr_split [of ?b] by auto
  have "takeWhile (\<lambda>b. b \<noteq> 0) ?b = http_text st"
    unfolding b http_text_def by (rule takeWhile_nul)
  with sr that show ?thesis by metis
qed

lemma try_extract_http_eq:
  assumes inv: "flow_inv st"
  shows "try_extract_http st =
    Some (let st1 = st\<lparr>st_buf := (st_buf st)[st_contig_len st := 0]\<rparr> in
      case http_url (http_text st) of
        None \<Rightarrow> (st1, None)
      | Some out \<Rightarrow>
          (st1\<lparr>st_scan_buf := c_snprintf (st_scan_buf st) out\<rparr>,
           Some (c_snprintf (st_scan_buf st) out, min (FLOW_SCAN_BUF_CAP - 1) (length out))))"
proof -
  let ?s = "http_text st"
  let ?st = "st\<lparr>st_buf := (st_buf st)[st_contig_len st := 0]\<rparr>"
  have c: "st_contig_len st < length (st_buf st)" and sc: "length (st_scan_buf st) = 512"
    using inv by (auto simp: flow_inv_def)
  obtain r where b: "(st_buf st)[st_contig_len st := 0] = ?s @ 0 # r" and nf: "nul_free ?s"
    by (rule terminated_buffer [OF inv])
  let ?d = "dropWhile (\<lambda>b. b \<noteq> SPACE) ?s"
  let ?u = "tl ?d"
  have meth: "method_match (?s @ 0 # r) http_methods =
      Some (\<exists>m \<in> set http_methods. match_at (\<lambda>b. b) m ?s)"
    using method_match_nul [OF nf] by simp
  have sp1: "c_strchr (?s @ 0 # r) SPACE =
      Some (if SPACE \<in> set ?s then Some (?d @ 0 # r) else None)"
    using c_strchr_nul [OF nf, of SPACE] by simp
  have u: "nul_free ?u" using nf by (simp add: nul_free_tl nul_free_dropWhile)
  have sp2: "c_strchr (?u @ 0 # r) SPACE =
      Some (if SPACE \<in> set ?u then Some (dropWhile (\<lambda>b. b \<noteq> SPACE) ?u @ 0 # r) else None)"
    using c_strchr_nul [OF u, of SPACE] by simp
  have tl: "tl (?d @ 0 # r) = ?u @ 0 # r" if "SPACE \<in> set ?s"
    using that by (cases ?d) (auto simp: dropWhile_eq_Nil_conv)
  have take_u: "take (length ?u - length (dropWhile (\<lambda>b. b \<noteq> SPACE) ?u)) ?u =
      takeWhile (\<lambda>b. b \<noteq> SPACE) ?u"
    by (rule take_until)
  have sc': "st_scan_buf ?st \<noteq> []" using sc by auto
  note host = http_host_part_eq [OF nf u sc', of r]
  have unf: "try_extract_http st =
      (if \<not> (\<exists>m \<in> set http_methods. match_at (\<lambda>b. b) m ?s) then Some (?st, None)
       else case (if SPACE \<in> set ?s then Some (?d @ 0 # r) else None) of
         None \<Rightarrow> Some (?st, None)
       | Some sp1 \<Rightarrow> do {
           p2 \<leftarrow> c_strchr (tl sp1) SPACE;
           case p2 of
             None \<Rightarrow> Some (?st, None)
           | Some sp2 \<Rightarrow> http_host_part ?st (?s @ 0 # r) (tl sp1) (length (tl sp1) - length sp2) })"
    unfolding try_extract_http_def wr_in [OF c] b Let_def bind.bind_lunit meth sp1
    by (simp only: bind.bind_lunit)
  show ?thesis
  proof (cases "(\<exists>m \<in> set http_methods. match_at (\<lambda>b. b) m ?s) \<and> SPACE \<in> set ?s \<and> SPACE \<in> set ?u")
    case True
    then have "try_extract_http st = http_host_part ?st (?s @ 0 # r) (?u @ 0 # r)
        (length ?u - length (dropWhile (\<lambda>b. b \<noteq> SPACE) ?u))"
      unfolding unf using tl sp2 by simp
    then show ?thesis
      unfolding host take_u using True
      by (simp add: http_url_def Let_def sc split: option.split)
  next
    case False
    then have "try_extract_http st = Some (?st, None)"
      unfolding unf using tl sp2 by (cases "SPACE \<in> set ?s") auto
    moreover have "http_url ?s = None"
      unfolding http_url_def Let_def using False by (simp only: if_False)
    ultimately show ?thesis by simp
  qed
qed

section \<open>Effect on the flow\<close>

text \<open>The terminator is written to a cell that holds no accepted byte.\<close>

lemma contig_cell_free:
  assumes "flow_inv st" "\<not> st_verdict_cached st"
  shows "\<not> st_filled st ! st_contig_len st"
  using assms unfolding flow_inv_def
  by (metis One_nat_def Suc_pred le_imp_less_Suc le_neq_implies_less le_trans nat_less_le zero_less_numeral)

lemma terminator_keeps:
  assumes "flow_inv st" "\<not> st_verdict_cached st"
  shows "flow_inv (st\<lparr>st_buf := (st_buf st)[st_contig_len st := 0]\<rparr>)"
    and "stream (st\<lparr>st_buf := (st_buf st)[st_contig_len st := 0]\<rparr>) = stream st"
    and "contig_prefix (st\<lparr>st_buf := (st_buf st)[st_contig_len st := 0]\<rparr>) = contig_prefix st"
proof -
  let ?st = "st\<lparr>st_buf := (st_buf st)[st_contig_len st := 0]\<rparr>"
  show "flow_inv ?st" using assms by (simp add: flow_inv_def)
  have "stream ?st s = stream st s" for s
    using contig_cell_free [OF assms]
    by (cases "unat (s - st_first_seq st) = st_contig_len st")
       (auto simp: stream_def Let_def)
  then show "stream ?st = stream st" by blast
  show "contig_prefix ?st = contig_prefix st" by (simp add: contig_prefix_def)
qed

text \<open>Everything but the text buffers.\<close>

definition same_flow :: "flow_state \<Rightarrow> flow_state \<Rightarrow> bool" where
  "same_flow st st' \<longleftrightarrow>
     stream st' = stream st \<and> contig_prefix st' = contig_prefix st \<and>
     st_contig_len st' = st_contig_len st \<and> st_first_seq st' = st_first_seq st \<and>
     st_first_seq_set st' = st_first_seq_set st \<and> st_type st' = st_type st \<and>
     st_last_seen_tsc st' = st_last_seen_tsc st \<and>
     st_verdict_cached st' = st_verdict_cached st \<and>
     st_cached_action st' = st_cached_action st \<and> st_no_sni_cached st' = st_no_sni_cached st"

lemma same_flow_refl [simp]: "same_flow st st"
  by (simp add: same_flow_def)

lemma scan_buf_keeps:
  "same_flow st (st\<lparr>st_scan_buf := b\<rparr>)"
  "flow_inv st \<Longrightarrow> length b = 512 \<Longrightarrow> flow_inv (st\<lparr>st_scan_buf := b\<rparr>)"
  by (simp_all add: same_flow_def stream_def contig_prefix_def flow_inv_def fun_eq_iff Let_def)

lemma same_flow_trans: "same_flow a b \<Longrightarrow> same_flow b c \<Longrightarrow> same_flow a c"
  by (simp add: same_flow_def)

lemma flow_inv_snprintf:
  "flow_inv st \<Longrightarrow> length (c_snprintf (st_scan_buf st) u) = 512"
  by (subst length_c_snprintf) (auto simp: flow_inv_def)

lemma try_extract_http_keeps:
  assumes inv: "flow_inv st" "\<not> st_verdict_cached st" and r: "try_extract_http st = Some (st', out)"
  shows "flow_inv st'" "same_flow st st'"
proof -
  let ?st = "st\<lparr>st_buf := (st_buf st)[st_contig_len st := 0]\<rparr>"
  have k: "flow_inv ?st" "same_flow st ?st"
    using terminator_keeps [OF inv] by (simp_all add: same_flow_def)
  have "flow_inv st' \<and> same_flow st st'"
  proof (cases "http_url (http_text st)")
    case None
    then have "st' = ?st" using r by (simp add: try_extract_http_eq [OF inv(1)] Let_def)
    then show ?thesis using k by simp
  next
    case (Some u)
    then have "st' = ?st\<lparr>st_scan_buf := c_snprintf (st_scan_buf st) u\<rparr>"
      using r by (simp add: try_extract_http_eq [OF inv(1)] Let_def)
    then show ?thesis
      using scan_buf_keeps(2) [OF k(1) flow_inv_snprintf [OF inv(1), of u]]
        same_flow_trans [OF k(2) scan_buf_keeps(1)] by simp
  qed
  then show "flow_inv st'" "same_flow st st'" by simp_all
qed

section \<open>Well-formed requests\<close>

text \<open>Searching for a literal that starts with CR skips every text without CR.\<close>

lemma c_tolower_CR: "c_tolower b = 13 \<longleftrightarrow> b = 13"
proof -
  have "b + 32 \<noteq> 13" if "65 \<le> b" "b \<le> 90"
  proof
    assume "b + 32 = 13"
    then have "b = 13 - 32" by (metis add_diff_cancel_right')
    then have "b = 237" by simp
    with that show False by simp
  qed
  then show ?thesis by (auto simp: c_tolower_def)
qed

lemma find_sub_skip:
  assumes "\<And>b. f b = f 13 \<longleftrightarrow> b = 13" and "13 \<notin> set w"
  shows "find_sub f (13 # lit) (w @ s) = find_sub f (13 # lit) s"
  using assms(2) by (induction w) (auto simp: match_at_def assms(1))

lemma find_sub_here: "match_at f lit s \<Longrightarrow> s \<noteq> [] \<Longrightarrow> find_sub f lit s = Some s"
  by (cases s) simp_all

definition line_ok :: "byte list \<Rightarrow> bool" where
  "line_ok h \<longleftrightarrow> nul_free h \<and> 13 \<notin> set h"

text \<open>
  A request up to the end of its Host line: method keyword, URI, version, other header lines, the
  Host header name in any case, spaces, the host.
\<close>

definition request_head ::
  "byte list \<Rightarrow> byte list \<Rightarrow> byte list \<Rightarrow> byte list list \<Rightarrow> byte list" where
  "request_head m uri version hdrs =
     m @ uri @ [SPACE] @ version @ concat (map (\<lambda>h. crlf @ h) hdrs)"

definition host_line :: "byte list \<Rightarrow> nat \<Rightarrow> byte list \<Rightarrow> byte list" where
  "host_line name n host = crlf @ name @ replicate n SPACE @ host @ crlf"

definition request_ok ::
  "byte list \<Rightarrow> byte list \<Rightarrow> byte list \<Rightarrow> byte list list \<Rightarrow> byte list \<Rightarrow> byte list \<Rightarrow> bool" where
  "request_ok m uri version hdrs name host \<longleftrightarrow>
     m \<in> set http_methods \<and> line_ok uri \<and> SPACE \<notin> set uri \<and> line_ok version \<and>
     (\<forall>h \<in> set hdrs. line_ok h \<and> \<not> match_at c_tolower (ascii ''Host:'') h) \<and>
     map c_tolower name = map c_tolower (ascii ''Host:'') \<and>
     line_ok host \<and> (host \<noteq> [] \<longrightarrow> hd host \<noteq> SPACE)"

lemma http_method_shape:
  assumes "m \<in> set http_methods"
  obtains w where "m = w @ [SPACE]" "SPACE \<notin> set w" "13 \<notin> set w"
proof -
  have "m = butlast m @ [SPACE] \<and> SPACE \<notin> set (butlast m) \<and> 13 \<notin> set (butlast m)"
    using assms by (auto simp: http_methods_def ascii_def)
  then show ?thesis using that by blast
qed

lemma length_host_name: "length (ascii ''Host:'') = 5" "length host_hdr_name = 7"
  by (simp_all add: ascii_def host_hdr_name_def crlf_def)

lemma host_hdr_name_cons: "host_hdr_name = 13 # 10 # ascii ''Host:''"
  by (simp add: host_hdr_name_def crlf_def)

lemma find_host_skip:
  "13 \<notin> set w \<Longrightarrow>
   find_sub c_tolower host_hdr_name (w @ s) = find_sub c_tolower host_hdr_name s"
  unfolding host_hdr_name_cons
  by (rule find_sub_skip) (simp_all add: c_tolower_CR c_tolower_CR [of 13, simplified])

lemma find_crlf_skip:
  "13 \<notin> set w \<Longrightarrow> find_sub (\<lambda>b. b) crlf (w @ s) = find_sub (\<lambda>b. b) crlf s"
  unfolding crlf_def by (rule find_sub_skip) simp_all

text \<open>A header line that is not a Host line is skipped whatever follows it.\<close>

lemma match_host_prefix:
  assumes "13 \<notin> set h" and "match_at c_tolower (ascii ''Host:'') (h @ 13 # t)"
  shows "match_at c_tolower (ascii ''Host:'') h"
proof (cases "length h < 5")
  case True
  have "13 \<in> set (take 5 (h @ 13 # t))" using True by (simp add: take_Cons')
  then have "13 \<in> set (map c_tolower (take 5 (h @ 13 # t)))"
    using c_tolower_CR [of 13] by (metis image_eqI list.set_map)
  also have "map c_tolower (take 5 (h @ 13 # t)) = map c_tolower (ascii ''Host:'')"
    using assms(2) by (simp add: match_at_def length_host_name)
  finally show ?thesis by (auto simp: ascii_def c_tolower_def)
next
  case False
  then show ?thesis using assms(2) by (simp add: match_at_def length_host_name)
qed

lemma find_host_header_line:
  assumes "13 \<notin> set h" and "\<not> match_at c_tolower (ascii ''Host:'') h" and "t = 13 # t'"
  shows "find_sub c_tolower host_hdr_name (crlf @ h @ t) = find_sub c_tolower host_hdr_name t"
proof -
  have "\<not> match_at c_tolower host_hdr_name (13 # 10 # h @ t)"
    using assms match_host_prefix [OF assms(1), of t']
    by (auto simp: match_at_def host_hdr_name_cons)
  then have "find_sub c_tolower host_hdr_name (crlf @ h @ t) =
      find_sub c_tolower host_hdr_name ((10 # h) @ t)"
    by (simp add: crlf_def)
  also have "\<dots> = find_sub c_tolower host_hdr_name t"
    using assms(1) by (intro find_host_skip) simp
  finally show ?thesis .
qed

lemma request_ok_name: "request_ok m uri version hdrs name host \<Longrightarrow> length name = 5"
  unfolding request_ok_def using length_host_name(1) by (metis length_map)

lemma request_nul_free:
  assumes "request_ok m uri version hdrs name host"
  shows "nul_free (request_head m uri version hdrs @ host_line name n host)"
proof -
  have "map c_tolower name = map c_tolower (ascii ''Host:'')"
    using assms by (simp add: request_ok_def)
  then have "c_tolower ` set name = c_tolower ` set (ascii ''Host:'')" by (metis list.set_map)
  moreover have "0 \<notin> c_tolower ` set (ascii ''Host:'')"
    by (auto simp: ascii_def c_tolower_def)
  ultimately have "nul_free name"
    using c_tolower_zero_iff [of 0] by (metis image_eqI nul_free_def)
  moreover have "nul_free (concat (map (\<lambda>h. crlf @ h) hdrs))"
    using assms by (auto simp: request_ok_def line_ok_def nul_free_def crlf_def)
  moreover have "nul_free (replicate n SPACE)" by (simp add: nul_free_def)
  ultimately show ?thesis
    using assms by (simp add: request_head_def host_line_def request_ok_def line_ok_def)
qed

lemma find_host_in_request:
  assumes ok: "request_ok m uri version hdrs name host"
  shows "find_sub c_tolower host_hdr_name (request_head m uri version hdrs @ host_line name n host @ rest)
    = Some (host_line name n host @ rest)"
proof -
  let ?t = "host_line name n host @ rest"
  have mm: "m \<in> set http_methods" using ok by (simp add: request_ok_def)
  obtain w where m: "m = w @ [SPACE]" "13 \<notin> set w"
    using http_method_shape [OF mm] by blast
  have name: "map c_tolower name = map c_tolower (ascii ''Host:'')"
    using ok by (simp add: request_ok_def)
  have len: "length name = 5" by (rule request_ok_name [OF ok])
  have "map c_tolower (take 7 ?t) = map c_tolower host_hdr_name"
    using name len by (simp add: host_line_def host_hdr_name_def crlf_def)
  then have "match_at c_tolower host_hdr_name ?t"
    by (simp add: match_at_def length_host_name)
  then have here: "find_sub c_tolower host_hdr_name ?t = Some ?t"
    by (rule find_sub_here) (simp add: host_line_def crlf_def)
  have "find_sub c_tolower host_hdr_name (concat (map (\<lambda>h. crlf @ h) hs) @ ?t) = Some ?t"
    if "set hs \<subseteq> set hdrs" for hs
    using that
  proof (induction hs)
    case Nil
    then show ?case using here by simp
  next
    case (Cons h hs)
    have "\<exists>t'. concat (map (\<lambda>h. crlf @ h) hs) @ ?t = 13 # t'"
      by (cases hs) (auto simp: crlf_def host_line_def)
    then obtain t' where t': "concat (map (\<lambda>h. crlf @ h) hs) @ ?t = 13 # t'" by blast
    then show ?case
      using Cons find_host_header_line [OF _ _ t', of h] ok by (auto simp: request_ok_def line_ok_def)
  qed
  then show ?thesis
    using find_host_skip [of "m @ uri @ [SPACE] @ version"] ok m
    by (simp add: request_head_def request_ok_def line_ok_def)
qed

lemma http_url_request:
  assumes ok: "request_ok m uri version hdrs name host"
  shows "http_url (request_head m uri version hdrs @ host_line name n host @ rest) =
    Some (ascii ''http://'' @ host @ uri)"
proof -
  let ?s = "request_head m uri version hdrs @ host_line name n host @ rest"
  have mm: "m \<in> set http_methods" using ok by (simp add: request_ok_def)
  obtain w where w: "m = w @ [SPACE]" "SPACE \<notin> set w"
    using http_method_shape [OF mm] by blast
  obtain y where y: "?s = w @ SPACE # uri @ SPACE # y" "?s = m @ uri @ SPACE # y"
    using w by (simp add: request_head_def)
  have uri: "SPACE \<notin> set uri" using ok by (simp add: request_ok_def)
  have dw: "dropWhile (\<lambda>b. b \<noteq> SPACE) ?s = SPACE # uri @ SPACE # y"
    unfolding y(1) using w(2) by (auto simp: dropWhile_append)
  have tw: "takeWhile (\<lambda>b. b \<noteq> SPACE) (uri @ SPACE # y) = uri"
    using uri by (subst takeWhile_append2) auto
  have meth: "\<exists>m \<in> set http_methods. match_at (\<lambda>b. b) m ?s"
    using mm y(2) match_at_append by metis
  have len: "length name = 5" by (rule request_ok_name [OF ok])
  have "drop (length host_hdr_name) (host_line name n host @ rest) =
      replicate n SPACE @ host @ crlf @ rest"
    using len by (simp add: length_host_name host_line_def crlf_def)
  moreover have "dropWhile (\<lambda>b. b = SPACE) (replicate n SPACE @ host @ crlf @ rest) =
      host @ crlf @ rest"
    using ok by (cases host) (auto simp: request_ok_def crlf_def dropWhile_append)
  moreover have "find_sub (\<lambda>b. b) crlf (host @ crlf @ rest) = Some (crlf @ rest)"
    using ok find_crlf_skip [of host "crlf @ rest"] find_sub_here [of "\<lambda>b. b" crlf "crlf @ rest"]
      match_at_append by (simp add: request_ok_def line_ok_def)
  ultimately have "http_host ?s = Some host"
    using find_host_in_request [OF ok] by (simp add: http_host_def Let_def)
  moreover have "SPACE \<in> set ?s" unfolding y(1) by simp
  ultimately show ?thesis
    unfolding http_url_def Let_def dw using meth by (simp add: tw)
qed

text \<open>A match in a received prefix is a match in the whole text.\<close>

lemma match_at_extend: "match_at f lit s \<Longrightarrow> match_at f lit (s @ t)"
  by (auto simp: match_at_def dest: map_eq_imp_length_eq)

lemma match_at_longer:
  "match_at f lit (s @ t) \<Longrightarrow> length lit \<le> length s \<Longrightarrow> match_at f lit s"
  by (simp add: match_at_def)

lemma find_sub_extend: "find_sub f lit s = Some u \<Longrightarrow> find_sub f lit (s @ t) = Some (u @ t)"
proof (induction s)
  case (Cons x xs)
  show ?case
  proof (cases "match_at f lit (x # xs)")
    case True
    then show ?thesis using Cons.prems match_at_extend [of f lit "x # xs" t] by auto
  next
    case False
    then show ?thesis
      using Cons match_at_longer [of f lit "x # xs" t] find_sub_length [of f lit xs u]
        find_sub_suffix [of f lit xs u] by auto
  qed
qed simp

lemma incomplete_host_line:
  assumes ok: "request_ok m uri version hdrs name host"
    and cut: "s @ x = request_head m uri version hdrs @ host_line name n host" "x \<noteq> []"
  shows "http_host s = None"
proof (cases "find_sub c_tolower host_hdr_name s")
  case None
  then show ?thesis by (simp add: http_host_def)
next
  case (Some h)
  have "find_sub c_tolower host_hdr_name (s @ x) = Some (host_line name n host)"
    using find_host_in_request [OF ok, of n "[]"] cut by simp
  then have h: "h @ x = host_line name n host" using find_sub_extend [OF Some, of x] by simp
  have len: "length host_hdr_name \<le> length h" by (rule find_sub_length [OF Some])
  let ?d = "drop (length host_hdr_name) h"
  have "?d @ x = drop (length host_hdr_name) (host_line name n host)"
    using len h by (metis append_Nil2 diff_is_0_eq drop0 drop_append)
  then have d: "?d @ x = replicate n SPACE @ host @ crlf"
    using request_ok_name [OF ok] by (simp add: length_host_name host_line_def crlf_def)
  let ?v = "dropWhile (\<lambda>b. b = SPACE) ?d"
  have nosp: "dropWhile (\<lambda>b. b = SPACE) (host @ crlf) = host @ crlf"
    using ok by (cases host) (auto simp: request_ok_def crlf_def)
  have "find_sub (\<lambda>b. b) crlf ?v = None"
  proof (rule ccontr)
    assume "find_sub (\<lambda>b. b) crlf ?v \<noteq> None"
    then obtain e where e: "find_sub (\<lambda>b. b) crlf ?v = Some e" by auto
    then have "?v \<noteq> []" by (metis find_sub.simps(1) option.distinct(1))
    then have "?v @ x = dropWhile (\<lambda>b. b = SPACE) (?d @ x)"
      by (auto simp: dropWhile_append dropWhile_eq_Nil_conv)
    also have "\<dots> = host @ crlf"
      unfolding d using nosp by (simp add: dropWhile_append)
    finally have "find_sub (\<lambda>b. b) crlf (host @ crlf) = Some (e @ x)"
      using find_sub_extend [OF e, of x] by simp
    moreover have "find_sub (\<lambda>b. b) crlf (host @ crlf) = Some crlf"
      using ok find_crlf_skip [of host crlf] find_sub_here [of "\<lambda>b. b" crlf crlf]
        match_at_append [of "\<lambda>b. b" crlf "[]"]
      by (simp add: request_ok_def line_ok_def)
    ultimately have "e @ x = crlf" by simp
    moreover have "length crlf \<le> length e" by (rule find_sub_length [OF e])
    ultimately show False using cut(2) by (metis add_le_same_cancel1 le_zero_eq length_append
      length_0_conv)
  qed
  then show ?thesis using Some by (simp add: http_host_def Let_def)
qed

lemma http_extraction_spec:
  assumes "flow_inv st" and "\<not> st_verdict_cached st"
  shows "\<exists>st' r. try_extract_http st = Some (st', r) \<and> flow_inv st' \<and> same_flow st st' \<and>
    map_option (\<lambda>(str, len). take len str) r =
      map_option (take (FLOW_SCAN_BUF_CAP - 1)) (http_url (http_text st))"
proof (cases "http_url (http_text st)")
  case None
  then obtain st' where e: "try_extract_http st = Some (st', None)"
    by (simp add: try_extract_http_eq [OF assms(1)] Let_def)
  then show ?thesis using None try_extract_http_keeps [OF assms e] by simp
next
  case (Some u)
  then obtain st' where e: "try_extract_http st =
      Some (st', Some (c_snprintf (st_scan_buf st) u, min 511 (length u)))"
    by (simp add: try_extract_http_eq [OF assms(1)] Let_def)
  have "length (st_scan_buf st) = 512" using assms(1) by (simp add: flow_inv_def)
  then have "take (min 511 (length u)) (c_snprintf (st_scan_buf st) u) = take 511 u"
    using take_c_snprintf [of "st_scan_buf st" u] by simp
  then show ?thesis using Some e try_extract_http_keeps [OF assms e] by simp
qed

section \<open>Properties\<close>

text \<open>
  C32: on every flow that satisfies the reassembly invariant, with whatever bytes an attacker put
  into it, the HTTP extraction stays inside its buffers, keeps the invariant and the stream, and
  returns exactly what the reference extraction finds in the received text (the contiguous prefix up
  to its first NUL), cut to the scan buffer.
\<close>

theorem http_extraction_correct:
  assumes "flow_inv st" and "\<not> st_verdict_cached st"
  shows "\<exists>st' r. try_extract_http st = Some (st', r) \<and> flow_inv st' \<and> same_flow st st' \<and>
    map_option (\<lambda>(str, len). take len str) r =
      map_option (take (FLOW_SCAN_BUF_CAP - 1)) (http_url (http_text st))"
  using assms by (rule http_extraction_spec)

theorem http_extraction_correct_witness:
  "flow_inv zero_flow_state \<and> \<not> st_verdict_cached zero_flow_state \<and>
   (\<exists>st'. try_extract_http zero_flow_state = Some (st', None))"
proof -
  have h: "\<not> st_verdict_cached zero_flow_state" by (simp add: zero_flow_state_def)
  have "http_url (http_text zero_flow_state) = None"
    by (simp add: http_text_def contig_prefix_def zero_flow_state_def http_url_def)
  then show ?thesis
    using http_extraction_correct [OF flow_inv_zero h] flow_inv_zero h by auto
qed

lemma http_url_of_prefix:
  assumes "request_ok m uri version hdrs name host"
    and "p = request_head m uri version hdrs @ host_line name n host @ rest"
  shows "http_url (takeWhile (\<lambda>b. b \<noteq> 0) p) = Some (ascii ''http://'' @ host @ uri)"
proof -
  have "nul_free (request_head m uri version hdrs @ host_line name n host)"
    using request_nul_free [OF assms(1)] .
  then have "takeWhile (\<lambda>b. b \<noteq> 0) p =
      request_head m uri version hdrs @ host_line name n host @ takeWhile (\<lambda>b. b \<noteq> 0) rest"
    unfolding assms(2) append_assoc [symmetric]
    by (subst takeWhile_append2) (auto simp: nul_free_def)
  then show ?thesis using http_url_request [OF assms(1)] by simp
qed

text \<open>
  A request whose Host line has arrived yields \<open>http://\<close>, the host and the URI, cut to the
  scan buffer, for every method keyword, every spelling of the header name, any other header lines
  before it and any bytes after it.
\<close>

lemma http_request_extracted:
  assumes "flow_inv st" and "\<not> st_verdict_cached st"
    and "request_ok m uri version hdrs name host"
    and "contig_prefix st = request_head m uri version hdrs @ host_line name n host @ rest"
  shows "\<exists>st' str len. try_extract_http st = Some (st', Some (str, len)) \<and>
    take len str = take (FLOW_SCAN_BUF_CAP - 1) (ascii ''http://'' @ host @ uri)"
  using http_extraction_spec [OF assms(1,2)] http_url_of_prefix [OF assms(3,4)]
  by (auto simp: http_text_def)

text \<open>A flow that has received exactly one segment.\<close>

lemma one_segment_flow:
  assumes "0 < length p" "length p \<le> 4095"
  obtains st where "flow_inv st" "\<not> st_verdict_cached st" "contig_prefix st = p"
proof -
  have "seg_ok (demo_segment 1001 p)" using assms by (simp add: seg_ok_def demo_segment_def)
  then obtain st where "flow_inv st" "same_meta zero_flow_state st" "contig_prefix st = p"
    using first_segment_prefix [of "demo_segment 1001 p" zero_flow_state] assms flow_inv_zero
    by (auto simp: demo_segment_def zero_flow_state_def)
  then show ?thesis using that by (simp add: same_meta_def zero_flow_state_def)
qed

text \<open>
  No early verdict: while the Host line of a request is incomplete, at whatever byte the received
  prefix ends, there is no URL; in particular a truncated host name is never handed to the rule
  engine.
\<close>

lemma http_url_incomplete:
  assumes "request_ok m uri version hdrs name host"
    and "p @ x = request_head m uri version hdrs @ host_line name n host" and "x \<noteq> []"
  shows "http_url (takeWhile (\<lambda>b. b \<noteq> 0) p) = None"
proof -
  have "nul_free (p @ x)" unfolding assms(2) by (rule request_nul_free [OF assms(1)])
  then have "takeWhile (\<lambda>b. b \<noteq> 0) p = p" by (auto simp: nul_free_def takeWhile_eq_all_conv)
  then show ?thesis
    using incomplete_host_line [OF assms] by (simp only:) (simp add: http_url_def Let_def)
qed

end
