(* ===== verification/Tls_Extract.thy ===== *)
theory Tls_Extract
  imports Http_Extract
begin

text \<open>
  TLS ClientHello parsing: \<open>try_extract_tls_sni\<close> of \<open>src/parser.c\<close>, stage by stage. Every early exit
  of the function returns \<open>TLS_SNI_PENDING\<close>, so a stage returns \<open>Some None\<close> for that exit and
  \<open>Some (Some offset)\<close> to go on; \<^term>\<open>None\<close> is an access outside the buffer. Offsets never pass
  \<open>contig_len < 2 ^ 16\<close> (each stage adds only what \<open>TLS_NEED\<close> has checked), so natural numbers stand
  for the 16-bit variables.

  Shown: no access outside the buffer and no influence of bytes beyond the contiguous prefix;
  termination of the extension walk; a ClientHello with a server name yields that name, one without
  yields \<open>TLS_SNI_NOT_PRESENT\<close> at once, and every proper prefix of either yields
  \<open>TLS_SNI_PENDING\<close>.
\<close>

section \<open>Model\<close>

datatype tls_sni_result = TLS_SNI_PENDING | TLS_SNI_NOT_PRESENT | TLS_SNI_FOUND

text \<open>From the record header to the end of the session id.\<close>

definition tls_hello_start :: "byte list \<Rightarrow> nat \<Rightarrow> nat option option" where
  "tls_hello_start buf contig_len =
     (if 5 > contig_len then Some None
      else do {
        record_type \<leftarrow> rd buf 0;
        if record_type \<noteq> 0x16 then Some None
        else if 5 + 4 > contig_len then Some None
        else do {
          handshake_type \<leftarrow> rd buf 5;
          if handshake_type \<noteq> 0x01 then Some None
          else if 9 + (2 + 32 + 1) > contig_len then Some None
          else do {
            session_id_len \<leftarrow> rd buf (9 + 2 + 32);
            let offset = 9 + 2 + 32 + 1;
            if offset + unat session_id_len > contig_len then Some None
            else Some (Some (offset + unat session_id_len)) } } })"

text \<open>The cipher suites: a 16-bit length and that many bytes.\<close>

definition tls_skip16 :: "byte list \<Rightarrow> nat \<Rightarrow> nat \<Rightarrow> nat option option" where
  "tls_skip16 buf contig_len offset =
     (if offset + 2 > contig_len then Some None
      else do {
        cipher_len \<leftarrow> rd16 buf offset;
        if offset + 2 + unat cipher_len > contig_len then Some None
        else Some (Some (offset + 2 + unat cipher_len)) })"

text \<open>The compression methods: an 8-bit length and that many bytes.\<close>

definition tls_skip8 :: "byte list \<Rightarrow> nat \<Rightarrow> nat \<Rightarrow> nat option option" where
  "tls_skip8 buf contig_len offset =
     (if offset + 1 > contig_len then Some None
      else do {
        comp_len \<leftarrow> rd buf offset;
        if offset + 1 + unat comp_len > contig_len then Some None
        else Some (Some (offset + 1 + unat comp_len)) })"

text \<open>
  The server_name extension at \<open>offset\<close>: the string \<open>HOST://%.*s\<close> expands to, if the name is
  complete.
\<close>

definition tls_server_name ::
  "byte list \<Rightarrow> nat \<Rightarrow> nat \<Rightarrow> (tls_sni_result \<times> byte list) option" where
  "tls_server_name buf contig_len offset =
     (if offset + 2 > contig_len then Some (TLS_SNI_PENDING, [])
      else if offset + 2 + 3 > contig_len then Some (TLS_SNI_PENDING, [])
      else do {
        name_type \<leftarrow> rd buf (offset + 2);
        name_len \<leftarrow> rd16 buf (offset + 2 + 1);
        let p = offset + 2 + 3;
        if name_type \<noteq> 0x00 then Some (TLS_SNI_PENDING, [])
        else if p + unat name_len > contig_len then Some (TLS_SNI_PENDING, [])
        else do {
          name \<leftarrow> c_prec_str (unat name_len) (drop p buf);
          Some (TLS_SNI_FOUND, ascii ''HOST://'' @ name) } })"

text \<open>The walk over the extensions.\<close>

function tls_ext_walk ::
  "byte list \<Rightarrow> nat \<Rightarrow> nat \<Rightarrow> nat \<Rightarrow> (tls_sni_result \<times> byte list) option" where
  "tls_ext_walk buf contig_len ext_end offset =
     (if offset + 4 \<le> ext_end then
        if offset + 4 > contig_len then Some (TLS_SNI_PENDING, [])
        else do {
          ext_type \<leftarrow> rd16 buf offset;
          ext_len \<leftarrow> rd16 buf (offset + 2);
          if offset + 4 + unat ext_len > contig_len then Some (TLS_SNI_PENDING, [])
          else if offset + 4 + unat ext_len > ext_end then Some (TLS_SNI_PENDING, [])
          else if ext_type = 0x0000 then tls_server_name buf contig_len (offset + 4)
          else tls_ext_walk buf contig_len ext_end (offset + 4 + unat ext_len) }
      else Some (TLS_SNI_NOT_PRESENT, []))"
  by pat_completeness auto
termination
  by (relation "measure (\<lambda>(b, c, e, off). e - off)") auto

declare tls_ext_walk.simps [simp del]

text \<open>The extensions block: its 16-bit total length, then the walk.\<close>

definition tls_extensions ::
  "byte list \<Rightarrow> nat \<Rightarrow> nat \<Rightarrow> (tls_sni_result \<times> byte list) option" where
  "tls_extensions buf contig_len offset =
     (if offset + 2 > contig_len then Some (TLS_SNI_PENDING, [])
      else do {
        ext_total_len \<leftarrow> rd16 buf offset;
        if offset + 2 + unat ext_total_len > contig_len then Some (TLS_SNI_PENDING, [])
        else tls_ext_walk buf contig_len (offset + 2 + unat ext_total_len) (offset + 2) })"

definition tls_client_hello :: "byte list \<Rightarrow> nat \<Rightarrow> (tls_sni_result \<times> byte list) option" where
  "tls_client_hello buf contig_len = do {
     r1 \<leftarrow> tls_hello_start buf contig_len;
     case r1 of None \<Rightarrow> Some (TLS_SNI_PENDING, []) | Some off1 \<Rightarrow> do {
     r2 \<leftarrow> tls_skip16 buf contig_len off1;
     case r2 of None \<Rightarrow> Some (TLS_SNI_PENDING, []) | Some off2 \<Rightarrow> do {
     r3 \<leftarrow> tls_skip8 buf contig_len off2;
     case r3 of None \<Rightarrow> Some (TLS_SNI_PENDING, []) | Some off3 \<Rightarrow>
     tls_extensions buf contig_len off3 } } }"

text \<open>
  The whole function: on \<open>TLS_SNI_FOUND\<close> the string is printed into the scan buffer and the output
  parameters point at it.
\<close>

definition try_extract_tls_sni ::
  "flow_state \<Rightarrow> (flow_state \<times> tls_sni_result \<times> (cptr \<times> nat) option) option" where
  "try_extract_tls_sni st = do {
     (r, out) \<leftarrow> tls_client_hello (st_buf st) (st_contig_len st);
     if r = TLS_SNI_FOUND then do {
       let scan = c_snprintf (st_scan_buf st) out;
       Some (st\<lparr>st_scan_buf := scan\<rparr>, r, Some (scan, c_strnlen scan (length (st_scan_buf st)))) }
     else Some (st, r, None) }"

section \<open>The parse sees the contiguous prefix only\<close>

lemma rd16_take: "i + 1 < n \<Longrightarrow> n \<le> length xs \<Longrightarrow> rd16 (take n xs) i = rd16 xs i"
  by (simp add: rd16_def rd_take)

text \<open>The stages in one equation each, for a prefix that lies in the buffer.\<close>

lemma tls_hello_start_eq:
  assumes "n \<le> length buf"
  shows "tls_hello_start buf n =
    Some (if 44 \<le> n \<and> buf ! 0 = 0x16 \<and> buf ! 5 = 0x01 \<and> 44 + unat (buf ! 43) \<le> n
          then Some (44 + unat (buf ! 43)) else None)"
proof -
  have r0: "5 \<le> n \<Longrightarrow> rd buf 0 = Some (buf ! 0)" using assms by (auto simp: rd_def)
  consider "n < 5" | "5 \<le> n" "n < 9" | "9 \<le> n" "n < 44" | "44 \<le> n" by linarith
  then show ?thesis
    using assms by cases (simp_all add: tls_hello_start_def r0 mem_simps Let_def)
qed

lemma tls_skip16_eq:
  assumes "n \<le> length buf"
  shows "tls_skip16 buf n off =
    Some (if off + 2 \<le> n \<and> off + 2 + unat (be16 (buf ! off) (buf ! (off + 1))) \<le> n
          then Some (off + 2 + unat (be16 (buf ! off) (buf ! (off + 1)))) else None)"
  using assms by (auto simp: tls_skip16_def mem_simps)

lemma tls_skip8_eq:
  assumes "n \<le> length buf"
  shows "tls_skip8 buf n off =
    Some (if off + 1 \<le> n \<and> off + 1 + unat (buf ! off) \<le> n
          then Some (off + 1 + unat (buf ! off)) else None)"
  using assms by (auto simp: tls_skip8_def mem_simps)

lemma tls_stage_take:
  assumes "n \<le> length buf"
  shows "tls_hello_start (take n buf) n = tls_hello_start buf n"
    "tls_skip16 (take n buf) n off = tls_skip16 buf n off"
    "tls_skip8 (take n buf) n off = tls_skip8 buf n off"
proof -
  show "tls_hello_start (take n buf) n = tls_hello_start buf n"
    using assms by (cases "44 \<le> n") (simp_all add: tls_hello_start_eq)
  show "tls_skip16 (take n buf) n off = tls_skip16 buf n off"
    using assms by (cases "off + 2 \<le> n") (simp_all add: tls_skip16_eq)
  show "tls_skip8 (take n buf) n off = tls_skip8 buf n off"
    using assms by (cases "off + 1 \<le> n") (simp_all add: tls_skip8_eq)
qed

lemma tls_server_name_defined:
  assumes "n \<le> length buf"
  shows "\<exists>r. tls_server_name buf n off = Some r"
  using assms by (auto simp: tls_server_name_def mem_simps Let_def c_prec_str_within)

lemma tls_server_name_take:
  assumes "n \<le> length buf"
  shows "tls_server_name (take n buf) n off = tls_server_name buf n off"
proof -
  have "c_prec_str k (drop p (take n buf)) = c_prec_str k (drop p buf)" if "p + k \<le> n" for p k
    using that assms by (subst (1 2) c_prec_str_within) (simp_all add: take_drop min_def)
  then show ?thesis
    using assms by (auto simp: tls_server_name_def rd_take rd16_take mem_simps Let_def)
qed

text \<open>One step of the walk, at an offset whose extension header is in the prefix.\<close>

lemma tls_ext_walk_step:
  assumes "off + 4 \<le> e" "off + 4 \<le> n" "n \<le> length buf"
  shows "tls_ext_walk buf n e off =
    (let l = unat (be16 (buf ! (off + 2)) (buf ! (off + 3))) in
     if off + 4 + l > n \<or> off + 4 + l > e then Some (TLS_SNI_PENDING, [])
     else if be16 (buf ! off) (buf ! (off + 1)) = 0 then tls_server_name buf n (off + 4)
     else tls_ext_walk buf n e (off + 4 + l))"
  using assms
  by (subst tls_ext_walk.simps) (simp add: mem_simps Let_def eval_nat_numeral)

lemma tls_ext_walk_stop:
  "\<not> off + 4 \<le> e \<Longrightarrow> tls_ext_walk buf n e off = Some (TLS_SNI_NOT_PRESENT, [])"
  "off + 4 \<le> e \<Longrightarrow> \<not> off + 4 \<le> n \<Longrightarrow> tls_ext_walk buf n e off = Some (TLS_SNI_PENDING, [])"
  by (simp_all add: tls_ext_walk.simps)

lemma tls_ext_walk_prefix:
  assumes "n \<le> length buf"
  shows "(\<exists>r. tls_ext_walk buf n e off = Some r) \<and>
    tls_ext_walk (take n buf) n e off = tls_ext_walk buf n e off"
proof (induction "e - off" arbitrary: off rule: less_induct)
  case less
  show ?case
  proof (cases "off + 4 \<le> e \<and> off + 4 \<le> n")
    case True
    let ?l = "unat (be16 (buf ! (off + 2)) (buf ! (off + 3)))"
    have IH: "(\<exists>r. tls_ext_walk buf n e (off + 4 + ?l) = Some r) \<and>
        tls_ext_walk (take n buf) n e (off + 4 + ?l) = tls_ext_walk buf n e (off + 4 + ?l)"
      using True by (intro less) linarith
    show ?thesis
      using True assms IH tls_server_name_defined [OF assms, of "off + 4"]
      by (simp add: tls_ext_walk_step Let_def tls_server_name_take)
  next
    case False
    then show ?thesis by (cases "off + 4 \<le> e") (simp_all add: tls_ext_walk_stop)
  qed
qed

lemma tls_extensions_prefix:
  assumes "n \<le> length buf"
  shows "(\<exists>r. tls_extensions buf n off = Some r) \<and>
    tls_extensions (take n buf) n off = tls_extensions buf n off"
  using assms tls_ext_walk_prefix [OF assms]
  by (simp add: tls_extensions_def mem_simps rd16_take)

lemma tls_client_hello_prefix:
  assumes "n \<le> length buf"
  shows "(\<exists>r. tls_client_hello buf n = Some r) \<and>
    tls_client_hello (take n buf) n = tls_client_hello buf n"
proof -
  obtain r1 where r1: "tls_hello_start buf n = Some r1" using tls_hello_start_eq [OF assms] by blast
  obtain r2 where r2: "tls_skip16 buf n (the r1) = Some r2"
    using tls_skip16_eq [OF assms] by blast
  obtain r3 where r3: "tls_skip8 buf n (the r2) = Some r3"
    using tls_skip8_eq [OF assms] by blast
  show ?thesis
    using r1 r2 r3 tls_extensions_prefix [OF assms, of "the r3"]
    by (auto simp: tls_client_hello_def tls_stage_take [OF assms] split: option.split)
qed

section \<open>Effect on the flow\<close>

text \<open>The verdict of a parse of the contiguous prefix.\<close>

definition tls_verdict :: "byte list \<Rightarrow> tls_sni_result \<times> byte list" where
  "tls_verdict xs = the (tls_client_hello xs (length xs))"

lemma tls_client_hello_eq:
  assumes "flow_inv st"
  shows "tls_client_hello (st_buf st) (st_contig_len st) = Some (tls_verdict (contig_prefix st))"
proof -
  have n: "st_contig_len st \<le> length (st_buf st)" using assms by (auto simp: flow_inv_def)
  show ?thesis
    using tls_client_hello_prefix [OF n] length_contig_prefix [OF assms]
    by (auto simp: tls_verdict_def contig_prefix_def)
qed

lemma tls_server_name_nul_free:
  assumes "tls_server_name buf n off = Some (r, out)" "n \<le> length buf"
  shows "nul_free out"
proof -
  have "nul_free (takeWhile (\<lambda>b. b \<noteq> 0) xs)" for xs
    by (auto simp: nul_free_def dest: set_takeWhileD)
  then show ?thesis
    using assms by (auto simp: tls_server_name_def mem_simps Let_def c_prec_str_within ascii_def
        split: if_split_asm)
qed

lemma tls_ext_walk_nul_free:
  assumes "tls_ext_walk buf n e off = Some (r, out)" "n \<le> length buf"
  shows "nul_free out"
  using assms(1)
proof (induction "e - off" arbitrary: off rule: less_induct)
  case less
  show ?case
  proof (cases "off + 4 \<le> e \<and> off + 4 \<le> n")
    case True
    let ?l = "unat (be16 (buf ! (off + 2)) (buf ! (off + 3)))"
    have "nul_free out" if "tls_ext_walk buf n e (off + 4 + ?l) = Some (r, out)"
      using True that by (intro less(1) [of "off + 4 + ?l"]) linarith+
    then show ?thesis
      using True less.prems assms(2) tls_server_name_nul_free
      by (auto simp: tls_ext_walk_step Let_def split: if_split_asm)
  next
    case False
    then show ?thesis using less.prems by (cases "off + 4 \<le> e") (auto simp: tls_ext_walk_stop)
  qed
qed

lemma tls_client_hello_nul_free:
  assumes "tls_client_hello buf n = Some (r, out)" "n \<le> length buf"
  shows "nul_free out"
  using assms tls_ext_walk_nul_free [OF _ assms(2)]
  by (auto simp: tls_client_hello_def tls_extensions_def
      split: Option.bind_split_asm option.split_asm if_split_asm)

lemma try_extract_tls_sni_eq:
  assumes inv: "flow_inv st"
  shows "try_extract_tls_sni st =
    (case tls_verdict (contig_prefix st) of (r, out) \<Rightarrow>
       Some (if r = TLS_SNI_FOUND
         then (st\<lparr>st_scan_buf := c_snprintf (st_scan_buf st) out\<rparr>, r,
               Some (c_snprintf (st_scan_buf st) out, min (FLOW_SCAN_BUF_CAP - 1) (length out)))
         else (st, r, None)))"
proof -
  obtain r out where v: "tls_verdict (contig_prefix st) = (r, out)" by (cases "tls_verdict (contig_prefix st)")
  have n: "st_contig_len st \<le> length (st_buf st)" and sc: "length (st_scan_buf st) = 512"
    using inv by (auto simp: flow_inv_def)
  have "nul_free out"
    using tls_client_hello_nul_free [OF _ n] tls_client_hello_eq [OF inv] v by simp
  then have "c_strnlen (c_snprintf (st_scan_buf st) out) 512 = min 511 (length out)"
    using c_snprintf_strnlen [of out "st_scan_buf st"] sc by fastforce
  then show ?thesis
    using sc by (simp add: try_extract_tls_sni_def tls_client_hello_eq [OF inv] v Let_def)
qed

section \<open>Well-formed ClientHello messages\<close>

text \<open>
  A ClientHello in one TLS record, as a peer lays it out: \<open>r\<close> holds version and length of the
  record, \<open>h\<close> the handshake length, \<open>vr\<close> client version and random.
\<close>

definition hello_head ::
  "byte list \<Rightarrow> byte list \<Rightarrow> byte list \<Rightarrow> byte list \<Rightarrow> byte list \<Rightarrow> byte list \<Rightarrow> byte list" where
  "hello_head r h vr sid ciphers compr =
     [0x16] @ r @ [0x01] @ h @ vr @ [of_nat (length sid)] @ sid @
     enc16 (length ciphers) @ ciphers @ [of_nat (length compr)] @ compr"

definition hello_head_ok ::
  "byte list \<Rightarrow> byte list \<Rightarrow> byte list \<Rightarrow> byte list \<Rightarrow> byte list \<Rightarrow> byte list \<Rightarrow> bool" where
  "hello_head_ok r h vr sid ciphers compr \<longleftrightarrow>
     length r = 4 \<and> length h = 3 \<and> length vr = 34 \<and> length sid < 256 \<and>
     length ciphers < 65536 \<and> length compr < 256"

text \<open>An extension: type, length, data.\<close>

definition enc_ext :: "nat \<times> byte list \<Rightarrow> byte list" where
  "enc_ext x = enc16 (fst x) @ enc16 (length (snd x)) @ snd x"

definition enc_exts :: "(nat \<times> byte list) list \<Rightarrow> byte list" where
  "enc_exts es = concat (map enc_ext es)"

definition ext_ok :: "nat \<times> byte list \<Rightarrow> bool" where
  "ext_ok x \<longleftrightarrow> fst x < 65536 \<and> length (snd x) < 65536"

text \<open>The data of a server_name extension whose first entry is a host name.\<close>

definition enc_sni :: "nat \<Rightarrow> byte list \<Rightarrow> byte list \<Rightarrow> byte list" where
  "enc_sni list_len host others = enc16 list_len @ [0x00] @ enc16 (length host) @ host @ others"

lemma nth_enc16:
  assumes "length a = off" "k < 65536"
  shows "unat (be16 ((a @ enc16 k @ rest) ! off) ((a @ enc16 k @ rest) ! (off + 1))) = k"
  using assms be16_enc16 [OF assms(2)] by (simp add: enc16_def nth_append)

lemma tls_skip16_at:
  assumes "length a = off" "k < 65536" "n \<le> length (a @ enc16 k @ rest)"
  shows "tls_skip16 (a @ enc16 k @ rest) n off =
    Some (if off + 2 + k \<le> n then Some (off + 2 + k) else None)"
  unfolding tls_skip16_eq [OF assms(3)] nth_enc16 [OF assms(1,2)] by simp

lemma tls_skip8_at:
  assumes "length a = off" "k < 256" "n \<le> length (a @ [of_nat k] @ rest)"
  shows "tls_skip8 (a @ [of_nat k] @ rest) n off =
    Some (if off + 1 + k \<le> n then Some (off + 1 + k) else None)"
  using assms unat_byte_of_nat [OF assms(2)] by (auto simp: tls_skip8_eq nth_append)

lemma tls_hello_start_at:
  assumes "length r = 4" "length h = 3" "length vr = 34" "k < 256"
    and "n \<le> length ([0x16] @ r @ [0x01] @ h @ vr @ [of_nat k] @ rest)"
  shows "tls_hello_start ([0x16] @ r @ [0x01] @ h @ vr @ [of_nat k] @ rest) n =
    Some (if 44 + k \<le> n then Some (44 + k) else None)"
  using assms unat_byte_of_nat [OF assms(4)]
  by (subst tls_hello_start_eq) (simp_all add: nth_append nth_Cons')

lemma tls_client_hello_at:
  assumes ok: "hello_head_ok r h vr sid ciphers compr" "length exts < 65536"
    and f: "f = hello_head r h vr sid ciphers compr @ enc16 (length exts) @ exts @ trailer"
    and o: "o3 = length (hello_head r h vr sid ciphers compr)" and n: "n \<le> length f"
  shows "tls_client_hello f n =
    (if o3 + 2 + length exts \<le> n then tls_ext_walk f n (o3 + 2 + length exts) (o3 + 2)
     else Some (TLS_SNI_PENDING, []))"
proof -
  let ?a1 = "[0x16] @ r @ [0x01] @ h @ vr @ [of_nat (length sid)] @ sid"
  let ?a2 = "?a1 @ enc16 (length ciphers) @ ciphers"
  let ?o1 = "44 + length sid"
  let ?o2 = "?o1 + 2 + length ciphers"
  have l: "length r = 4" "length h = 3" "length vr = 34" "length sid < 256"
    "length ciphers < 65536" "length compr < 256"
    using ok(1) by (simp_all add: hello_head_ok_def)
  have o3: "o3 = ?o2 + 1 + length compr" using o l by (simp add: hello_head_def)
  have f1: "f = [0x16] @ r @ [0x01] @ h @ vr @ [of_nat (length sid)] @
      (sid @ enc16 (length ciphers) @ ciphers @ [of_nat (length compr)] @ compr @
       enc16 (length exts) @ exts @ trailer)"
    and f2: "f = ?a1 @ enc16 (length ciphers) @
      (ciphers @ [of_nat (length compr)] @ compr @ enc16 (length exts) @ exts @ trailer)"
    and f3: "f = ?a2 @ [of_nat (length compr)] @ (compr @ enc16 (length exts) @ exts @ trailer)"
    unfolding f hello_head_def by simp_all
  have s1: "tls_hello_start f n = Some (if ?o1 \<le> n then Some ?o1 else None)"
    using tls_hello_start_at [OF l(1-4) n [unfolded f1]] unfolding f1 .
  have "length ?a1 = ?o1" using l by simp
  from tls_skip16_at [OF this l(5) n [unfolded f2]]
  have s2: "tls_skip16 f n ?o1 = Some (if ?o2 \<le> n then Some ?o2 else None)" unfolding f2 .
  have "length ?a2 = ?o2" using l by simp
  from tls_skip8_at [OF this l(6) n [unfolded f3]]
  have s3: "tls_skip8 f n ?o2 = Some (if o3 \<le> n then Some o3 else None)" unfolding f3 o3 .
  have "unat (be16 (f ! o3) (f ! (o3 + 1))) = length exts"
    using nth_enc16 [OF o [symmetric] ok(2)] unfolding f .
  then have s4: "tls_extensions f n o3 =
      (if o3 + 2 + length exts \<le> n then tls_ext_walk f n (o3 + 2 + length exts) (o3 + 2)
       else Some (TLS_SNI_PENDING, []))"
    using n by (auto simp: tls_extensions_def mem_simps)
  show ?thesis
    unfolding tls_client_hello_def s1 using s2 s3 s4 o3 by simp
qed

text \<open>The walk passes over an extension that is not a server_name.\<close>

lemma tls_ext_walk_at:
  assumes f: "f = a @ enc_ext x @ rest" and a: "length a = off" and ok: "ext_ok x"
    and e: "off + length (enc_ext x) \<le> e" "e \<le> n" "n \<le> length f"
  shows "tls_ext_walk f n e off =
    (if fst x = 0 then tls_server_name f n (off + 4)
     else tls_ext_walk f n e (off + length (enc_ext x)))"
proof -
  let ?k = "length (snd x)"
  have k: "?k < 65536" "fst x < 65536" using ok by (simp_all add: ext_ok_def)
  have len: "length (enc_ext x) = 4 + ?k" by (simp add: enc_ext_def)
  have ty: "unat (be16 (f ! off) (f ! (off + 1))) = fst x"
    unfolding f enc_ext_def append_assoc by (rule nth_enc16 [OF a k(2)])
  have "unat (be16 (((a @ enc16 (fst x)) @ enc16 ?k @ snd x @ rest) ! (off + 2))
      (((a @ enc16 (fst x)) @ enc16 ?k @ snd x @ rest) ! (off + 2 + 1))) = ?k"
    using a by (intro nth_enc16 [OF _ k(1)]) simp
  then have l: "unat (be16 (f ! (off + 2)) (f ! (off + 3))) = ?k"
    unfolding f enc_ext_def by (simp add: eval_nat_numeral)
  have z: "be16 (f ! off) (f ! (off + 1)) = 0 \<longleftrightarrow> fst x = 0"
    using ty by (metis unat_0 unat_eq_zero)
  have b: "off + 4 \<le> e" "off + 4 \<le> n" using e len by simp_all
  show ?thesis
    unfolding tls_ext_walk_step [OF b e(3)] l z Let_def using e len by (simp add: add.assoc)
qed

lemma tls_ext_walk_skip:
  assumes "f = a @ enc_exts es @ rest" "length a = off"
    and "\<forall>x \<in> set es. ext_ok x \<and> fst x \<noteq> 0"
    and "off + length (enc_exts es) \<le> e" "e \<le> n" "n \<le> length f"
  shows "tls_ext_walk f n e off = tls_ext_walk f n e (off + length (enc_exts es))"
  using assms
proof (induction es arbitrary: a off)
  case Nil
  then show ?case by (simp add: enc_exts_def)
next
  case (Cons x es)
  have f: "f = a @ enc_ext x @ (enc_exts es @ rest)" and f': "f = (a @ enc_ext x) @ enc_exts es @ rest"
    using Cons.prems(1) by (simp_all add: enc_exts_def)
  have len: "length (enc_exts (x # es)) = length (enc_ext x) + length (enc_exts es)"
    by (simp add: enc_exts_def)
  have "tls_ext_walk f n e off = tls_ext_walk f n e (off + length (enc_ext x))"
    using tls_ext_walk_at [OF f Cons.prems(2)] Cons.prems len by simp
  also have "\<dots> = tls_ext_walk f n e (off + length (enc_ext x) + length (enc_exts es))"
    using Cons.prems len by (intro Cons.IH [OF f']) simp_all
  finally show ?case using len by (simp add: add.assoc)
qed

lemma tls_server_name_at:
  assumes f: "f = a @ enc_sni ll host others @ rest" and a: "length a = off"
    and k: "length host < 65536" and n: "off + length (enc_sni ll host others) \<le> n" "n \<le> length f"
  shows "tls_server_name f n off =
    Some (TLS_SNI_FOUND, ascii ''HOST://'' @ takeWhile (\<lambda>b. b \<noteq> 0) host)"
proof -
  have len: "length (enc_sni ll host others) = 5 + length host + length others"
    by (simp add: enc_sni_def)
  have t: "f ! (off + 2) = 0"
    unfolding f enc_sni_def using a by (simp add: nth_append enc16_def)
  have "unat (be16 (((a @ enc16 ll @ [0]) @ enc16 (length host) @ host @ others @ rest) ! (off + 3))
      (((a @ enc16 ll @ [0]) @ enc16 (length host) @ host @ others @ rest) ! (off + 3 + 1))) =
      length host"
    using a by (intro nth_enc16 [OF _ k]) simp
  then have l: "unat (be16 (f ! (off + 3)) (f ! (off + 4))) = length host"
    unfolding f enc_sni_def by (simp add: eval_nat_numeral)
  have d: "drop (off + 5) f = host @ others @ rest"
    unfolding f enc_sni_def using a by (simp add: enc16_def)
  have "c_prec_str (length host) (host @ others @ rest) =
      Some (takeWhile (\<lambda>b. b \<noteq> 0) host)"
    by (subst c_prec_str_within) simp_all
  then show ?thesis
    using n len t l d by (simp add: tls_server_name_def mem_simps Let_def eval_nat_numeral)
qed

lemma tls_extraction_spec:
  assumes "flow_inv st"
  shows "\<exists>st' r out. try_extract_tls_sni st = Some (st', r, out) \<and> flow_inv st' \<and>
    same_flow st st' \<and> r = fst (tls_verdict (contig_prefix st)) \<and>
    map_option (\<lambda>(str, len). take len str) out =
      (if r = TLS_SNI_FOUND
       then Some (take (FLOW_SCAN_BUF_CAP - 1) (snd (tls_verdict (contig_prefix st)))) else None)"
proof -
  obtain r u where v: "tls_verdict (contig_prefix st) = (r, u)" by (cases "tls_verdict (contig_prefix st)")
  have sc: "length (st_scan_buf st) = 512" using assms by (simp add: flow_inv_def)
  have "take (min 511 (length u)) (c_snprintf (st_scan_buf st) u) = take 511 u"
    using take_c_snprintf [of "st_scan_buf st" u] sc by simp
  then show ?thesis
    using try_extract_tls_sni_eq [OF assms] v scan_buf_keeps [of st] assms
      flow_inv_snprintf [OF assms] by (cases "r = TLS_SNI_FOUND") simp_all
qed

section \<open>Properties\<close>

text \<open>
  C33: on every flow that satisfies the reassembly invariant the ClientHello parse stays inside the
  buffer, ends, keeps the invariant and the stream, and its outcome is a function of the contiguous
  prefix alone: bytes beyond a gap, stale bytes and the previous scan buffer have no influence.
\<close>

theorem tls_extraction_safe:
  assumes "flow_inv st"
  shows "\<exists>st' r out. try_extract_tls_sni st = Some (st', r, out) \<and> flow_inv st' \<and>
    same_flow st st' \<and> r = fst (tls_verdict (contig_prefix st)) \<and>
    map_option (\<lambda>(str, len). take len str) out =
      (if r = TLS_SNI_FOUND
       then Some (take (FLOW_SCAN_BUF_CAP - 1) (snd (tls_verdict (contig_prefix st)))) else None)"
  using assms by (rule tls_extraction_spec)

theorem tls_extraction_safe_witness:
  "flow_inv zero_flow_state \<and>
   (\<exists>st'. try_extract_tls_sni zero_flow_state = Some (st', TLS_SNI_PENDING, None))"
proof -
  have "tls_verdict (contig_prefix zero_flow_state) = (TLS_SNI_PENDING, [])"
    by (simp add: contig_prefix_def zero_flow_state_def tls_verdict_def tls_client_hello_def
        tls_hello_start_def)
  then show ?thesis using tls_extraction_safe [OF flow_inv_zero] flow_inv_zero by auto
qed

lemma tls_verdict_sni:
  assumes "length f \<le> 4095" and "hello_head_ok r h vr sid ciphers compr"
    and "\<forall>x \<in> set before. ext_ok x \<and> fst x \<noteq> 0"
    and "exts = enc_exts before @ enc_ext (0, enc_sni ll host others) @ after"
    and "f = hello_head r h vr sid ciphers compr @ enc16 (length exts) @ exts @ trailer"
  shows "tls_verdict f = (TLS_SNI_FOUND, ascii ''HOST://'' @ takeWhile (\<lambda>b. b \<noteq> 0) host)"
proof -
  let ?H = "hello_head r h vr sid ciphers compr" and ?sni = "enc_sni ll host others"
  let ?o = "length ?H + 2"
  have lens: "length exts < 65536" "length ?sni < 65536" "length host < 65536"
    using assms(1) unfolding assms(5) assms(4) by (simp_all add: enc_ext_def enc_sni_def)
  have f: "f = (?H @ enc16 (length exts)) @ enc_exts before @
      (enc_ext (0, ?sni) @ after @ trailer)"
    and f': "f = (?H @ enc16 (length exts) @ enc_exts before) @ enc_ext (0, ?sni) @ (after @ trailer)"
    and f'': "f = (?H @ enc16 (length exts) @ enc_exts before @ enc16 0 @ enc16 (length ?sni)) @
      ?sni @ (after @ trailer)"
    using assms(4,5) by (simp_all add: enc_ext_def)
  have n: "?o + length exts \<le> length f" unfolding assms(5) by simp
  let ?w = "tls_ext_walk f (length f) (?o + length exts)"
  have "tls_client_hello f (length f) = ?w ?o"
    using tls_client_hello_at [OF assms(2) lens(1) assms(5) refl order_refl] n by simp
  also have "\<dots> = ?w (?o + length (enc_exts before))"
    using assms(3,4) n by (intro tls_ext_walk_skip [OF f]) simp_all
  also have "\<dots> = tls_server_name f (length f) (?o + length (enc_exts before) + 4)"
    using assms(4) n lens by (subst tls_ext_walk_at [OF f']) (simp_all add: ext_ok_def)
  also have "\<dots> = Some (TLS_SNI_FOUND, ascii ''HOST://'' @ takeWhile (\<lambda>b. b \<noteq> 0) host)"
    using assms(4) n lens by (intro tls_server_name_at [OF f'']) (simp_all add: enc_ext_def)
  finally show ?thesis by (simp add: tls_verdict_def)
qed

text \<open>
  A complete ClientHello whose first server_name extension names a host yields
  \<open>HOST://\<close> and that host (up to a NUL in it), cut to the scan buffer, whatever session id, cipher
  suites, compression methods, other extensions and later data it carries.
\<close>

lemma tls_sni_extracted:
  assumes "flow_inv st" and "hello_head_ok r h vr sid ciphers compr"
    and "\<forall>x \<in> set before. ext_ok x \<and> fst x \<noteq> 0"
    and "exts = enc_exts before @ enc_ext (0, enc_sni ll host others) @ after"
    and "contig_prefix st =
      hello_head r h vr sid ciphers compr @ enc16 (length exts) @ exts @ trailer"
  shows "\<exists>st' str len. try_extract_tls_sni st = Some (st', TLS_SNI_FOUND, Some (str, len)) \<and>
    take len str = take (FLOW_SCAN_BUF_CAP - 1)
      (ascii ''HOST://'' @ takeWhile (\<lambda>b. b \<noteq> 0) host)"
proof -
  have "length (contig_prefix st) \<le> 4095"
    using assms(1) by (simp add: length_contig_prefix [OF assms(1)] flow_inv_def)
  then show ?thesis
    using tls_verdict_sni [OF _ assms(2-5)] tls_extraction_spec [OF assms(1)] by auto
qed

text \<open>A ClientHello with two extensions, the second one naming \<open>bad-gambling.net\<close>.\<close>

definition demo_head :: "byte list" where
  "demo_head = hello_head [3, 1, 0, 80] [0, 0, 76] (replicate 34 7) [9, 9] [19, 1] [0]"

definition demo_sni :: "byte list" where
  "demo_sni = enc_exts [(10, [0, 2])] @ enc_ext (0, enc_sni 19 (ascii ''bad-gambling.net'') []) @ []"

definition demo_hello :: "byte list \<Rightarrow> byte list" where
  "demo_hello exts = demo_head @ enc16 (length exts) @ exts"

lemma demo_head_ok: "hello_head_ok [3, 1, 0, 80] [0, 0, 76] (replicate 34 7) [9, 9] [19, 1] [0]"
  by (simp add: hello_head_ok_def)

lemma demo_lengths:
  "length demo_head = 52" "length demo_sni = 31" "length (demo_hello exts) = 54 + length exts"
  by (simp_all add: demo_head_def demo_sni_def demo_hello_def hello_head_def enc_exts_def
      enc_ext_def enc_sni_def ascii_def)

text \<open>
  C34: a complete ClientHello without a server_name extension, such as an encrypted-ClientHello one,
  is reported as \<open>TLS_SNI_NOT_PRESENT\<close> as soon as its extensions block is there. Up to three bytes
  that do not form an extension may be left over at the end of the block.
\<close>

theorem tls_no_sni_reported:
  assumes "flow_inv st" and "hello_head_ok r h vr sid ciphers compr"
    and "\<forall>x \<in> set es. ext_ok x \<and> fst x \<noteq> 0" and "length junk < 4"
    and "exts = enc_exts es @ junk"
    and "contig_prefix st =
      hello_head r h vr sid ciphers compr @ enc16 (length exts) @ exts @ trailer"
  shows "\<exists>st'. try_extract_tls_sni st = Some (st', TLS_SNI_NOT_PRESENT, None)"
proof -
  let ?H = "hello_head r h vr sid ciphers compr"
  let ?f = "contig_prefix st" and ?o = "length ?H + 2"
  have small: "length ?f \<le> 4095"
    using assms(1) by (simp add: length_contig_prefix [OF assms(1)] flow_inv_def)
  have l: "length exts < 65536" using small unfolding assms(6) by simp
  have f: "?f = (?H @ enc16 (length exts)) @ enc_exts es @ (junk @ trailer)"
    using assms(5,6) by simp
  have n: "?o + length exts \<le> length ?f" unfolding assms(6) by simp
  let ?w = "tls_ext_walk ?f (length ?f) (?o + length exts)"
  have "tls_client_hello ?f (length ?f) = ?w ?o"
    using tls_client_hello_at [OF assms(2) l assms(6) refl order_refl] n by simp
  also have "\<dots> = ?w (?o + length (enc_exts es))"
    using assms(3,5) n by (intro tls_ext_walk_skip [OF f]) simp_all
  also have "\<dots> = Some (TLS_SNI_NOT_PRESENT, [])"
    using assms(4,5) by (intro tls_ext_walk_stop) simp
  finally have "tls_verdict ?f = (TLS_SNI_NOT_PRESENT, [])" by (simp add: tls_verdict_def)
  then show ?thesis using tls_extraction_spec [OF assms(1)] by auto
qed

theorem tls_no_sni_reported_witness:
  "\<exists>st st'. flow_inv st \<and>
     contig_prefix st = demo_hello (enc_exts [(0xfe0d, [1, 2, 3])] @ [0, 0, 5]) \<and>
     try_extract_tls_sni st = Some (st', TLS_SNI_NOT_PRESENT, None)"
proof -
  let ?e = "enc_exts [(0xfe0d, [1, 2, 3])] @ [0, 0, 5]"
  have "0 < length (demo_hello ?e)" "length (demo_hello ?e) \<le> 4095"
    by (simp_all add: demo_lengths enc_exts_def enc_ext_def)
  then obtain st where st: "flow_inv st" "contig_prefix st = demo_hello ?e"
    by (rule one_segment_flow)
  have x: "\<forall>x \<in> set [(0xfe0d, [1, 2, 3])]. ext_ok x \<and> fst x \<noteq> 0" by (simp add: ext_ok_def)
  have p: "contig_prefix st = hello_head [3, 1, 0, 80] [0, 0, 76] (replicate 34 7) [9, 9] [19, 1] [0]
      @ enc16 (length ?e) @ ?e @ []"
    using st(2) by (simp add: demo_hello_def demo_head_def)
  show ?thesis
    using tls_no_sni_reported [OF st(1) demo_head_ok x _ refl p] st by auto
qed

text \<open>
  Every proper prefix of a ClientHello, cut at any byte before the end of its extensions block, is
  \<open>TLS_SNI_PENDING\<close>: neither a host name nor the absence of one is reported early.
\<close>

lemma tls_verdict_incomplete:
  assumes "hello_head_ok r h vr sid ciphers compr" and "length exts < 65536"
    and "p @ x = hello_head r h vr sid ciphers compr @ enc16 (length exts) @ exts" and "x \<noteq> []"
  shows "tls_verdict p = (TLS_SNI_PENDING, [])"
proof -
  let ?H = "hello_head r h vr sid ciphers compr"
  have f: "p @ x = ?H @ enc16 (length exts) @ exts @ []" using assms(3) by simp
  have n: "length p \<le> length (p @ x)" by simp
  have l: "length (p @ x) = length ?H + 2 + length exts" unfolding f by simp
  have "length p < length (p @ x)" using assms(4) by simp
  then have "\<not> length ?H + 2 + length exts \<le> length p" unfolding l by (simp only: not_le)
  then have "tls_client_hello (p @ x) (length p) = Some (TLS_SNI_PENDING, [])"
    using tls_client_hello_at [OF assms(1,2) f refl n] by simp
  then have "tls_client_hello p (length p) = Some (TLS_SNI_PENDING, [])"
    using tls_client_hello_prefix [OF n] by simp
  then show ?thesis by (simp add: tls_verdict_def)
qed

text \<open>
  Data on port 443 that is not a TLS handshake record, or not a ClientHello, never produces a
  verdict about its server name: the outcome is \<open>TLS_SNI_PENDING\<close> however much of it arrives.
\<close>

lemma tls_not_a_client_hello_is_pending:
  assumes "flow_inv st"
    and "0 < st_contig_len st \<and> contig_prefix st ! 0 \<noteq> 0x16 \<or>
         5 < st_contig_len st \<and> contig_prefix st ! 5 \<noteq> 0x01"
  shows "\<exists>st'. try_extract_tls_sni st = Some (st', TLS_SNI_PENDING, None)"
proof -
  let ?p = "contig_prefix st"
  have "tls_hello_start ?p (length ?p) = Some None"
    using assms length_contig_prefix [OF assms(1)] by (subst tls_hello_start_eq) auto
  then have "tls_verdict ?p = (TLS_SNI_PENDING, [])"
    by (simp add: tls_verdict_def tls_client_hello_def)
  then show ?thesis using tls_extraction_spec [OF assms(1)] by auto
qed

end
