(* ===== verification/Flow_Table.thy ===== *)
theory Flow_Table
  imports Headers Tls_Extract
begin

text \<open>
  The per-worker flow table (\<open>struct flow_table\<close> of \<open>src/parser.c\<close>): creation and release, the idle
  sweep, \<open>parser_flow_update\<close> as a whole, and \<open>parser_flow_cache_verdict\<close>.

  The DPDK hash table is not part of the sources. It enters as a record of the four operations the
  code calls, and the interface \<open>rte_hash_contract\<close> states their documented behaviour: a lookup
  returns the position stored for the key, positions are distinct and below the number of entries,
  deletion removes the key, and the iterator moves forward over live entries. Nothing is assumed
  about which insertions fail, nor that an iteration interleaved with deletions visits every entry
  (the DPDK caveat the sources mention). Time stamps are arguments: one for each call of
  \<open>rte_get_timer_cycles\<close>.

  The abstract view of a table is a map from flow keys to flow states. Shown: every operation is
  defined, ends, keeps the table invariant, and acts on that map as a map update on the packet's own
  key, except for the sweep, which removes idle flows only.
\<close>

section \<open>Model\<close>

abbreviation (input) FLOW_TABLE_CAPACITY :: nat where "FLOW_TABLE_CAPACITY \<equiv> 1024"
abbreviation (input) FLOW_EXPIRY_SCAN_INTERVAL :: u64 where "FLOW_EXPIRY_SCAN_INTERVAL \<equiv> 256"

text \<open>
  \<open>rte_hash_lookup\<close>, \<open>rte_hash_add_key\<close>, \<open>rte_hash_del_key\<close> and \<open>rte_hash_iterate\<close>. A position is an
  \<open>int32_t\<close>, negative on failure; the iterator returns the position, the key and the next cursor.
\<close>

record 'h rte_hash_ops =
  hash_lookup :: "'h \<Rightarrow> flow_key \<Rightarrow> int"
  hash_add_key :: "'h \<Rightarrow> flow_key \<Rightarrow> 'h \<times> int"
  hash_del_key :: "'h \<Rightarrow> flow_key \<Rightarrow> 'h"
  hash_iterate :: "'h \<Rightarrow> nat \<Rightarrow> int \<times> flow_key \<times> nat"

record 'h flow_table =
  ft_h :: 'h
  ft_states :: "flow_state list"
  ft_timeout_cycles :: u64
  ft_call_count :: u64

subsection \<open>Creation and release\<close>

text \<open>The heap objects of a table, and those that are live.\<close>

datatype table_object = Obj_table | Obj_hash | Obj_states

text \<open>\<open>snprintf\<close> of \<open>%u\<close>.\<close>

fun dec_digits :: "nat \<Rightarrow> byte list" where
  "dec_digits n =
     (if n < 10 then [48 + of_nat n] else dec_digits (n div 10) @ [48 + of_nat (n mod 10)])"

declare dec_digits.simps [simp del]

text \<open>
  The three allocations may each fail: \<open>zmalloc_table\<close> and \<open>zmalloc_states\<close> say whether
  \<open>rte_zmalloc\<close> succeeds, \<open>hash_create\<close> is \<open>rte_hash_create\<close> on the table's name. The result has the
  next value of the static \<open>table_seq\<close>, the live objects and the table, if any.
\<close>

definition parser_flow_table_create ::
  "bool \<Rightarrow> (byte list \<Rightarrow> 'h option) \<Rightarrow> bool \<Rightarrow> u32 \<Rightarrow> u64 \<Rightarrow>
   u32 \<times> table_object list \<times> 'h flow_table option" where
  "parser_flow_table_create zmalloc_table hash_create zmalloc_states table_seq timeout_cycles =
     (if \<not> zmalloc_table then (table_seq, [], None)
      else
        let live = [Obj_table];
            name = ascii ''flow_hash_'' @ dec_digits (unat table_seq);
            table_seq = table_seq + 1
        in case hash_create name of
             None \<Rightarrow> (table_seq, remove1 Obj_table live, None)
           | Some h \<Rightarrow>
               let live = Obj_hash # live in
               if \<not> zmalloc_states
               then (table_seq, remove1 Obj_table (remove1 Obj_hash live), None)
               else (table_seq, Obj_states # live,
                     Some \<lparr>ft_h = h, ft_states = replicate FLOW_TABLE_CAPACITY zero_flow_state,
                           ft_timeout_cycles = timeout_cycles, ft_call_count = 0\<rparr>))"

definition parser_flow_table_free ::
  "'h flow_table option \<Rightarrow> table_object list \<Rightarrow> table_object list" where
  "parser_flow_table_free ft live =
     (case ft of
        None \<Rightarrow> live
      | Some _ \<Rightarrow> remove1 Obj_table (remove1 Obj_hash (remove1 Obj_states live)))"

subsection \<open>The idle sweep\<close>

text \<open>
  The loop of \<open>flow_table_expire\<close> from the cursor \<open>nxt\<close> on. The cast of \<open>now - last_seen\<close> is the
  unsigned 64-bit subtraction of C. The result is \<^term>\<open>None\<close> if the loop leaves the state array or
  does not end.
\<close>

partial_function (option) expire_loop ::
  "'h rte_hash_ops \<Rightarrow> flow_state list \<Rightarrow> u64 \<Rightarrow> u64 \<Rightarrow> 'h \<Rightarrow> nat \<Rightarrow> 'h option" where
  "expire_loop H states timeout now h nxt =
     (case hash_iterate H h nxt of (idx, key, nxt') \<Rightarrow>
        if idx < 0 then Some h
        else do {
          st \<leftarrow> rd states (nat idx);
          expire_loop H states timeout now
            (if now - st_last_seen_tsc st > timeout then hash_del_key H h key else h) nxt' })"

definition flow_table_expire ::
  "'h rte_hash_ops \<Rightarrow> 'h flow_table \<Rightarrow> u64 \<Rightarrow> 'h flow_table option" where
  "flow_table_expire H ft now = do {
     h \<leftarrow> expire_loop H (ft_states ft) (ft_timeout_cycles ft) now (ft_h ft) 0;
     Some (ft\<lparr>ft_h := h\<rparr>) }"

subsection \<open>One packet\<close>

text \<open>What \<open>parser_flow_update\<close> returns and stores through its out parameters.\<close>

record update_result =
  ur_status :: reassembly_status
  ur_out :: "(cptr \<times> nat) option"
  ur_cached_action :: "packet_action option"
  ur_no_sni :: bool

definition only_status :: "reassembly_status \<Rightarrow> update_result" where
  "only_status s = \<lparr>ur_status = s, ur_out = None, ur_cached_action = None, ur_no_sni = False\<rparr>"

text \<open>The tail: give up when the contiguous prefix fills the window, wait otherwise.\<close>

definition flow_pending :: "flow_state \<Rightarrow> update_result" where
  "flow_pending st =
     only_status (if st_contig_len st \<ge> FLOW_BUF_CAP - 1 then REASSEMBLY_GIVE_UP
                  else REASSEMBLY_PENDING)"

definition flow_extract ::
  "flow_state \<Rightarrow> traffic_type \<Rightarrow> (flow_state \<times> update_result) option" where
  "flow_extract st type =
     (if type = TRAFFIC_HTTP then do {
        (st, out) \<leftarrow> try_extract_http st;
        if out \<noteq> None then Some (st, (only_status REASSEMBLY_READY)\<lparr>ur_out := out\<rparr>)
        else Some (st, flow_pending st) }
      else do {
        (st, r, out) \<leftarrow> try_extract_tls_sni st;
        if r = TLS_SNI_FOUND then Some (st, (only_status REASSEMBLY_READY)\<lparr>ur_out := out\<rparr>)
        else if r = TLS_SNI_NOT_PRESENT then
          Some (st\<lparr>st_no_sni_cached := True\<rparr>,
                (only_status REASSEMBLY_NO_SNI)\<lparr>ur_no_sni := True\<rparr>)
        else Some (st, flow_pending st) })"

text \<open>The part of \<open>parser_flow_update\<close> that works on the one flow state, from the time stamp on.\<close>

definition flow_state_update ::
  "flow_state \<Rightarrow> l2l4_result \<Rightarrow> u64 \<Rightarrow> (flow_state \<times> update_result) option" where
  "flow_state_update st l now = do {
     let st = st\<lparr>st_last_seen_tsc := now\<rparr>;
     if st_verdict_cached st then
       Some (st, \<lparr>ur_status = REASSEMBLY_CACHED, ur_out = None,
                  ur_cached_action = Some (st_cached_action st), ur_no_sni = st_no_sni_cached st\<rparr>)
     else do {
       st \<leftarrow> place_segment st l;
       flow_extract st (l2l4_type l) } }"

text \<open>The lookup, with the insertion of a new flow and its cleared state.\<close>

definition flow_slot ::
  "'h rte_hash_ops \<Rightarrow> 'h flow_table \<Rightarrow> l2l4_result \<Rightarrow> ('h flow_table \<times> int) option" where
  "flow_slot H ft l =
     (let idx = hash_lookup H (ft_h ft) (l2l4_key l) in
      if idx < 0 then
        case hash_add_key H (ft_h ft) (l2l4_key l) of (h, idx) \<Rightarrow>
          let ft = ft\<lparr>ft_h := h\<rparr> in
          if idx < 0 then Some (ft, idx)
          else do {
            states \<leftarrow> wr (ft_states ft) (nat idx) (zero_flow_state\<lparr>st_type := l2l4_type l\<rparr>);
            Some (ft\<lparr>ft_states := states\<rparr>, idx) }
      else Some (ft, idx))"

text \<open>
  The whole function. \<open>now_sweep\<close> is the clock read inside the sweep, when there is one, and
  \<open>now\<close> the one read for the flow's time stamp.
\<close>

definition parser_flow_update ::
  "'h rte_hash_ops \<Rightarrow> 'h flow_table \<Rightarrow> l2l4_result \<Rightarrow> u64 \<Rightarrow> u64 \<Rightarrow>
   ('h flow_table \<times> update_result) option" where
  "parser_flow_update H ft l now_sweep now = do {
     let ft = ft\<lparr>ft_call_count := ft_call_count ft + 1\<rparr>;
     ft \<leftarrow> (if ft_call_count ft mod FLOW_EXPIRY_SCAN_INTERVAL = 0
           then flow_table_expire H ft now_sweep else Some ft);
     (ft, idx) \<leftarrow> flow_slot H ft l;
     if idx < 0 then Some (ft, only_status REASSEMBLY_GIVE_UP)
     else do {
       st \<leftarrow> rd (ft_states ft) (nat idx);
       (st, r) \<leftarrow> flow_state_update st l now;
       states \<leftarrow> wr (ft_states ft) (nat idx) st;
       Some (ft\<lparr>ft_states := states\<rparr>, r) } }"

definition parser_flow_classify_fallback :: "flow_features \<Rightarrow> fallback_verdict" where
  "parser_flow_classify_fallback features = FALLBACK_UNKNOWN"

definition set_verdict :: "flow_state \<Rightarrow> packet_action \<Rightarrow> flow_state" where
  "set_verdict st action =
     st\<lparr>st_verdict_cached := True, st_cached_action := action, st_contig_len := 0\<rparr>"

definition parser_flow_cache_verdict ::
  "'h rte_hash_ops \<Rightarrow> 'h flow_table \<Rightarrow> flow_key \<Rightarrow> packet_action \<Rightarrow> 'h flow_table option" where
  "parser_flow_cache_verdict H ft key action =
     (let idx = hash_lookup H (ft_h ft) key in
      if idx < 0 then Some ft
      else do {
        st \<leftarrow> rd (ft_states ft) (nat idx);
        states \<leftarrow> wr (ft_states ft) (nat idx) (set_verdict st action);
        Some (ft\<lparr>ft_states := states\<rparr>) })"

section \<open>One flow\<close>

text \<open>
  What a flow answers, as a function of its contiguous prefix: the status and the string for the
  scanner.
\<close>

definition give_up_or_wait :: "byte list \<Rightarrow> reassembly_status" where
  "give_up_or_wait p =
     (if length p \<ge> FLOW_BUF_CAP - 1 then REASSEMBLY_GIVE_UP else REASSEMBLY_PENDING)"

definition scan_request :: "traffic_type \<Rightarrow> byte list \<Rightarrow> reassembly_status \<times> byte list option" where
  "scan_request ty p =
     (if ty = TRAFFIC_HTTP then
        (case http_url (takeWhile (\<lambda>b. b \<noteq> 0) p) of
           Some u \<Rightarrow> (REASSEMBLY_READY, Some (take (FLOW_SCAN_BUF_CAP - 1) u))
         | None \<Rightarrow> (give_up_or_wait p, None))
      else
        (case fst (tls_verdict p) of
           TLS_SNI_FOUND \<Rightarrow>
             (REASSEMBLY_READY, Some (take (FLOW_SCAN_BUF_CAP - 1) (snd (tls_verdict p))))
         | TLS_SNI_NOT_PRESENT \<Rightarrow> (REASSEMBLY_NO_SNI, None)
         | TLS_SNI_PENDING \<Rightarrow> (give_up_or_wait p, None)))"

definition answer :: "update_result \<Rightarrow> reassembly_status \<times> byte list option" where
  "answer r = (ur_status r, map_option (\<lambda>(str, len). take len str) (ur_out r))"

text \<open>What the extraction keeps of a flow.\<close>

definition extract_frame :: "flow_state \<Rightarrow> flow_state \<Rightarrow> bool" where
  "extract_frame st st' \<longleftrightarrow>
     stream st' = stream st \<and> contig_prefix st' = contig_prefix st \<and>
     st_hwm st' = st_hwm st \<and> st_first_seq st' = st_first_seq st \<and>
     st_first_seq_set st' = st_first_seq_set st \<and> st_type st' = st_type st \<and>
     st_last_seen_tsc st' = st_last_seen_tsc st \<and>
     st_verdict_cached st' = st_verdict_cached st \<and> st_cached_action st' = st_cached_action st"

lemma same_flow_frame:
  "same_flow st st' \<Longrightarrow> st_hwm st' = st_hwm st \<Longrightarrow> extract_frame st st'"
  by (simp add: same_flow_def extract_frame_def)

lemma answer_only_status [simp]:
  "answer (only_status s) = (s, None)"
  "answer ((only_status s)\<lparr>ur_out := x\<rparr>) = (s, map_option (\<lambda>(str, len). take len str) x)"
  "answer ((only_status s)\<lparr>ur_no_sni := b\<rparr>) = (s, None)"
  "ur_no_sni (only_status s) = False" "ur_cached_action (only_status s) = None"
  "ur_status (only_status s) = s"
  by (simp_all add: answer_def only_status_def)

lemma answer_flow_pending:
  "flow_inv st \<Longrightarrow> answer (flow_pending st) = (give_up_or_wait (contig_prefix st), None)"
  by (simp add: flow_pending_def give_up_or_wait_def length_contig_prefix)

lemma flow_pending_simps [simp]:
  "ur_no_sni (flow_pending st) = False" "ur_cached_action (flow_pending st) = None"
  "ur_status (flow_pending st) \<noteq> REASSEMBLY_NO_SNI" "give_up_or_wait p \<noteq> REASSEMBLY_NO_SNI"
  by (simp_all add: flow_pending_def give_up_or_wait_def)

lemma only_status_ready [simp]:
  "ur_status ((only_status s)\<lparr>ur_out := x\<rparr>) = s" "ur_no_sni ((only_status s)\<lparr>ur_out := x\<rparr>) = False"
  "ur_cached_action ((only_status s)\<lparr>ur_out := x\<rparr>) = None"
  by (simp_all add: only_status_def)

lemma try_extract_http_hwm:
  assumes "flow_inv st" "try_extract_http st = Some (st', out)"
  shows "st_hwm st' = st_hwm st"
  using assms by (auto simp: try_extract_http_eq Let_def split: option.splits)

lemma try_extract_tls_hwm:
  assumes "try_extract_tls_sni st = Some (st', r, out)"
  shows "st_hwm st' = st_hwm st"
  using assms by (auto simp: try_extract_tls_sni_def Let_def split: Option.bind_splits if_splits)

text \<open>The facts a result of the extraction satisfies, with \<open>p\<close> the contiguous prefix it saw.\<close>

definition extracted :: "flow_state \<Rightarrow> traffic_type \<Rightarrow> flow_state \<Rightarrow> update_result \<Rightarrow> bool" where
  "extracted st ty st' r \<longleftrightarrow>
     flow_inv st' \<and> extract_frame st st' \<and> answer r = scan_request ty (contig_prefix st) \<and>
     ur_cached_action r = None \<and> ur_no_sni r = (ur_status r = REASSEMBLY_NO_SNI) \<and>
     st_no_sni_cached st' = (st_no_sni_cached st \<or> ur_status r = REASSEMBLY_NO_SNI)"

lemma flow_no_sni_field [simp]:
  "stream (st\<lparr>st_no_sni_cached := b\<rparr>) = stream st"
  "contig_prefix (st\<lparr>st_no_sni_cached := b\<rparr>) = contig_prefix st"
  by (simp_all add: stream_def contig_prefix_def fun_eq_iff Let_def)

lemma flow_extract_http:
  assumes "flow_inv st" "\<not> st_verdict_cached st"
  shows "\<exists>st' r. flow_extract st TRAFFIC_HTTP = Some (st', r) \<and> extracted st TRAFFIC_HTTP st' r"
proof -
  obtain st' out where e: "try_extract_http st = Some (st', out)" "flow_inv st'" "same_flow st st'"
    "map_option (\<lambda>(str, len). take len str) out =
      map_option (take (FLOW_SCAN_BUF_CAP - 1)) (http_url (http_text st))"
    using http_extraction_spec [OF assms] by blast
  have f: "extract_frame st st'"
    using same_flow_frame e(3) try_extract_http_hwm [OF assms(1) e(1)] by blast
  have p: "contig_prefix st' = contig_prefix st" using f by (simp add: extract_frame_def)
  show ?thesis
  proof (cases out)
    case None
    then have "http_url (http_text st) = None" using e(4) by simp
    then show ?thesis using e None f p answer_flow_pending [OF e(2)]
      by (auto simp: flow_extract_def extracted_def scan_request_def http_text_def same_flow_def)
  next
    case (Some x)
    then obtain u where "http_url (http_text st) = Some u"
      using e(4) by (cases "http_url (http_text st)") auto
    then show ?thesis using e Some f
      by (auto simp: flow_extract_def extracted_def scan_request_def http_text_def same_flow_def)
  qed
qed

lemma flow_extract_tls:
  assumes "flow_inv st" "ty \<noteq> TRAFFIC_HTTP"
  shows "\<exists>st' r. flow_extract st ty = Some (st', r) \<and> extracted st ty st' r"
proof -
  obtain st' r out where e: "try_extract_tls_sni st = Some (st', r, out)" "flow_inv st'"
    "same_flow st st'" "r = fst (tls_verdict (contig_prefix st))"
    "map_option (\<lambda>(str, len). take len str) out =
      (if r = TLS_SNI_FOUND
       then Some (take (FLOW_SCAN_BUF_CAP - 1) (snd (tls_verdict (contig_prefix st)))) else None)"
    using tls_extraction_spec [OF assms(1)] by blast
  have f: "extract_frame st st'"
    using same_flow_frame e(3) try_extract_tls_hwm [OF e(1)] by blast
  have p: "contig_prefix st' = contig_prefix st" using f by (simp add: extract_frame_def)
  show ?thesis
  proof (cases r)
    case TLS_SNI_PENDING
    then show ?thesis using e f p assms(2) answer_flow_pending [OF e(2)]
      by (auto simp: flow_extract_def extracted_def scan_request_def same_flow_def)
  next
    case TLS_SNI_NOT_PRESENT
    have "flow_inv (st'\<lparr>st_no_sni_cached := True\<rparr>)" using e(2) by (simp add: flow_inv_def)
    moreover have "extract_frame st (st'\<lparr>st_no_sni_cached := True\<rparr>)"
      using f by (simp add: extract_frame_def)
    ultimately show ?thesis using e TLS_SNI_NOT_PRESENT assms(2)
      by (auto simp: flow_extract_def extracted_def scan_request_def only_status_def answer_def)
  next
    case TLS_SNI_FOUND
    then show ?thesis using e f assms(2)
      by (auto simp: flow_extract_def extracted_def scan_request_def same_flow_def)
  qed
qed

lemma flow_extract_spec:
  assumes "flow_inv st" "\<not> st_verdict_cached st"
  shows "\<exists>st' r. flow_extract st ty = Some (st', r) \<and> extracted st ty st' r"
  using flow_extract_http [OF assms] flow_extract_tls [OF assms(1)] by (cases "ty = TRAFFIC_HTTP") auto

lemma flow_inv_touch [simp]: "flow_inv (st\<lparr>st_last_seen_tsc := t\<rparr>) = flow_inv st"
  by (simp add: flow_inv_def)

lemma flow_inv_type [simp]: "flow_inv (st\<lparr>st_type := t\<rparr>) = flow_inv st"
  by (simp add: flow_inv_def)

lemma flow_inv_set_verdict: "flow_inv st \<Longrightarrow> flow_inv (set_verdict st a)"
  by (auto simp: flow_inv_def set_verdict_def)

lemma stream_touch [simp]: "stream (st\<lparr>st_last_seen_tsc := t\<rparr>) = stream st"
  by (simp add: stream_def fun_eq_iff Let_def)

lemma new_bytes_touch [simp]: "new_bytes (st\<lparr>st_last_seen_tsc := t\<rparr>) = new_bytes st"
  by (simp add: new_bytes_def seg_fits_def window_base_def fun_eq_iff)

text \<open>A packet of a flow with a cached verdict, and of one without.\<close>

lemma flow_state_update_cached:
  assumes "st_verdict_cached st"
  shows "flow_state_update st l now = Some (st\<lparr>st_last_seen_tsc := now\<rparr>,
    \<lparr>ur_status = REASSEMBLY_CACHED, ur_out = None,
     ur_cached_action = Some (st_cached_action st), ur_no_sni = st_no_sni_cached st\<rparr>)"
  using assms by (simp add: flow_state_update_def)

lemma flow_state_update_open:
  assumes "flow_inv st" "seg_ok l" "\<not> st_verdict_cached st"
  shows "\<exists>st1 st' r. place_segment (st\<lparr>st_last_seen_tsc := now\<rparr>) l = Some st1 \<and> flow_inv st1 \<and>
    same_meta (st\<lparr>st_last_seen_tsc := now\<rparr>) st1 \<and> stream st1 = new_bytes st l ++ stream st \<and>
    flow_state_update st l now = Some (st', r) \<and> extracted st1 (l2l4_type l) st' r"
proof -
  let ?st = "st\<lparr>st_last_seen_tsc := now\<rparr>"
  obtain st1 where p: "place_segment ?st l = Some st1" "flow_inv st1" "same_meta ?st st1"
    "stream st1 = new_bytes st l ++ stream st"
    using place_segment_spec [of ?st l] assms(1,2) by auto
  have "\<not> st_verdict_cached st1" using p(3) assms(3) by (simp add: same_meta_def)
  then obtain st' r where "flow_extract st1 (l2l4_type l) = Some (st', r)"
    "extracted st1 (l2l4_type l) st' r"
    using flow_extract_spec [OF p(2)] by blast
  with p assms(3) show ?thesis by (auto simp: flow_state_update_def)
qed

lemma flow_state_update_spec:
  assumes "flow_inv st" "seg_ok l"
  shows "\<exists>st' r. flow_state_update st l now = Some (st', r) \<and> flow_inv st' \<and>
    st_last_seen_tsc st' = now \<and> st_type st' = st_type st \<and>
    st_verdict_cached st' = st_verdict_cached st \<and> st_cached_action st' = st_cached_action st \<and>
    (st_no_sni_cached st' \<longrightarrow> st_no_sni_cached st \<or> l2l4_type l \<noteq> TRAFFIC_HTTP)"
proof (cases "st_verdict_cached st")
  case True
  then show ?thesis using assms by (simp add: flow_state_update_cached)
next
  case False
  obtain st1 st' r where u: "same_meta (st\<lparr>st_last_seen_tsc := now\<rparr>) st1"
    "flow_state_update st l now = Some (st', r)" "extracted st1 (l2l4_type l) st' r"
    using flow_state_update_open [OF assms False] by blast
  have "ur_status r = fst (scan_request (l2l4_type l) (contig_prefix st1))"
    using u(3) by (simp add: extracted_def answer_def prod_eq_iff)
  then have "l2l4_type l = TRAFFIC_HTTP \<longrightarrow> ur_status r \<noteq> REASSEMBLY_NO_SNI"
    by (auto simp: scan_request_def give_up_or_wait_def split: option.splits)
  then show ?thesis using u
    by (auto simp: extracted_def extract_frame_def same_meta_def)
qed

section \<open>The hash table's contract\<close>

text \<open>The table as a map from keys to flow states, given the positions of the keys.\<close>

definition flow_of :: "('h \<Rightarrow> flow_key \<rightharpoonup> nat) \<Rightarrow> 'h flow_table \<Rightarrow> flow_key \<rightharpoonup> flow_state" where
  "flow_of keys ft k = map_option (\<lambda>i. ft_states ft ! i) (keys (ft_h ft) k)"

text \<open>
  A flow of the table satisfies the reassembly invariant, has the traffic type of its key's
  destination port, and is marked as having no SNI only if it is HTTPS.
\<close>

definition flow_ok :: "flow_key \<Rightarrow> flow_state \<Rightarrow> bool" where
  "flow_ok k st \<longleftrightarrow>
     flow_inv st \<and> classify_port (dst_port k) = Some (st_type st) \<and>
     (st_no_sni_cached st \<longrightarrow> st_type st = TRAFFIC_HTTPS)"

definition table_inv :: "('h \<Rightarrow> bool) \<Rightarrow> ('h \<Rightarrow> flow_key \<rightharpoonup> nat) \<Rightarrow> 'h flow_table \<Rightarrow> bool" where
  "table_inv ok keys ft \<longleftrightarrow>
     ok (ft_h ft) \<and> length (ft_states ft) = FLOW_TABLE_CAPACITY \<and>
     (\<forall>k st. flow_of keys ft k = Some st \<longrightarrow> flow_ok k st)"

text \<open>What the L2-L4 parse guarantees about its result.\<close>

definition l2l4_ok :: "l2l4_result \<Rightarrow> bool" where
  "l2l4_ok l \<longleftrightarrow> seg_ok l \<and> classify_port (dst_port (l2l4_key l)) = Some (l2l4_type l)"

definition new_flow :: "traffic_type \<Rightarrow> flow_state" where
  "new_flow ty = zero_flow_state\<lparr>st_type := ty\<rparr>"

text \<open>
  \<open>ok\<close> holds of the tables \<open>rte_hash_create\<close> and the operations produce, \<open>keys\<close> is the map from the
  keys in a table to their positions, and \<open>slots\<close> bounds the iteration cursor.
\<close>

locale rte_hash_contract =
  fixes H :: "'h rte_hash_ops"
    and ok :: "'h \<Rightarrow> bool"
    and keys :: "'h \<Rightarrow> flow_key \<rightharpoonup> nat"
    and slots :: nat
  assumes position_bound: "ok h \<Longrightarrow> keys h k = Some i \<Longrightarrow> i < FLOW_TABLE_CAPACITY"
    and position_distinct: "ok h \<Longrightarrow> keys h k = Some i \<Longrightarrow> keys h k' = Some i \<Longrightarrow> k = k'"
    and lookup_hit: "ok h \<Longrightarrow> keys h k = Some i \<Longrightarrow> hash_lookup H h k = int i"
    and lookup_miss: "ok h \<Longrightarrow> keys h k = None \<Longrightarrow> hash_lookup H h k < 0"
    and add_ok: "ok h \<Longrightarrow> keys h k = None \<Longrightarrow> hash_add_key H h k = (h', j) \<Longrightarrow> 0 \<le> j \<Longrightarrow>
      ok h' \<and> keys h' = (keys h)(k \<mapsto> nat j)"
    and add_full: "ok h \<Longrightarrow> keys h k = None \<Longrightarrow> hash_add_key H h k = (h', j) \<Longrightarrow> j < 0 \<Longrightarrow>
      ok h' \<and> keys h' = keys h"
    and del_key: "ok h \<Longrightarrow> ok (hash_del_key H h k) \<and> keys (hash_del_key H h k) = (keys h)(k := None)"
    and iterate: "ok h \<Longrightarrow> hash_iterate H h n = (j, k, n') \<Longrightarrow> 0 \<le> j \<Longrightarrow>
      keys h k = Some (nat j) \<and> n < n' \<and> n' \<le> slots"
begin

lemma expire_loop_spec:
  assumes "ok h" and "\<And>k i. keys h k = Some i \<Longrightarrow> i < length states"
  shows "\<exists>h'. expire_loop H states timeout now h n = Some h' \<and> ok h' \<and> keys h' \<subseteq>\<^sub>m keys h \<and>
    (\<forall>k i. keys h k = Some i \<and> keys h' k = None \<longrightarrow>
       now - st_last_seen_tsc (states ! i) > timeout)"
  using assms
proof (induction "slots - n" arbitrary: h n rule: less_induct)
  case less
  obtain j k n' where it: "hash_iterate H h n = (j, k, n')" by (metis prod_cases3)
  show ?case
  proof (cases "j < 0")
    case True
    then show ?thesis using it less.prems by (auto simp: expire_loop.simps [of H])
  next
    case False
    then have j: "keys h k = Some (nat j)" "n < n'" "n' \<le> slots"
      using iterate [OF less.prems(1) it] by auto
    let ?st = "states ! nat j"
    define h1 where "h1 = (if now - st_last_seen_tsc ?st > timeout then hash_del_key H h k else h)"
    have h1: "ok h1" "keys h1 \<subseteq>\<^sub>m keys h"
      using del_key [OF less.prems(1), of k] less.prems(1)
      by (auto simp: h1_def map_le_def)
    have gone: "k' = k \<and> now - st_last_seen_tsc ?st > timeout"
      if "keys h k' = Some i" "keys h1 k' = None" for k' i
      using that del_key [OF less.prems(1), of k] by (auto simp: h1_def split: if_splits)
    have in1: "i < length states" if "keys h1 k' = Some i" for k' i
      using that h1(2) less.prems(2) by (metis domI map_le_def)
    have "slots - n' < slots - n" using j by linarith
    then obtain h' where h': "expire_loop H states timeout now h1 n' = Some h'" "ok h'"
      "keys h' \<subseteq>\<^sub>m keys h1"
      "\<forall>k i. keys h1 k = Some i \<and> keys h' k = None \<longrightarrow>
         now - st_last_seen_tsc (states ! i) > timeout"
      using less.hyps [of n' h1] h1(1) in1 by blast
    have "expire_loop H states timeout now h n = Some h'"
      using it False h'(1) less.prems(2) [OF j(1)]
      by (simp add: expire_loop.simps [of H _ _ _ h n] mem_simps h1_def)
    moreover have "now - st_last_seen_tsc (states ! i) > timeout"
      if "keys h k' = Some i" "keys h' k' = None" for k' i
    proof (cases "keys h1 k'")
      case None
      then show ?thesis using gone that(1) j(1) by auto
    next
      case (Some i')
      then have "i' = i" using h1(2) that(1) by (metis domI map_le_def option.inject)
      then show ?thesis using h'(4) Some that(2) by blast
    qed
    ultimately show ?thesis using h'(2,3) h1(2) by (blast intro: map_le_trans)
  qed
qed

lemma positions_in_states:
  assumes "table_inv ok keys ft" "keys (ft_h ft) k = Some i"
  shows "i < length (ft_states ft)"
  using assms position_bound by (auto simp: table_inv_def)

lemma expire_spec:
  assumes "table_inv ok keys ft"
  shows "\<exists>h. flow_table_expire H ft now = Some (ft\<lparr>ft_h := h\<rparr>) \<and>
    table_inv ok keys (ft\<lparr>ft_h := h\<rparr>) \<and> flow_of keys (ft\<lparr>ft_h := h\<rparr>) \<subseteq>\<^sub>m flow_of keys ft \<and>
    (\<forall>k st. flow_of keys ft k = Some st \<and> flow_of keys (ft\<lparr>ft_h := h\<rparr>) k = None \<longrightarrow>
       now - st_last_seen_tsc st > ft_timeout_cycles ft)"
proof -
  have "ok (ft_h ft)" using assms by (simp add: table_inv_def)
  then obtain h where h: "expire_loop H (ft_states ft) (ft_timeout_cycles ft) now (ft_h ft) 0 = Some h"
    "ok h" "keys h \<subseteq>\<^sub>m keys (ft_h ft)"
    "\<forall>k i. keys (ft_h ft) k = Some i \<and> keys h k = None \<longrightarrow>
       now - st_last_seen_tsc (ft_states ft ! i) > ft_timeout_cycles ft"
    using expire_loop_spec [of "ft_h ft" "ft_states ft" "ft_timeout_cycles ft" now 0]
      positions_in_states [OF assms] by blast
  have sub: "flow_of keys (ft\<lparr>ft_h := h\<rparr>) \<subseteq>\<^sub>m flow_of keys ft"
    using h(3) by (auto simp: map_le_def flow_of_def dom_def)
  then have "table_inv ok keys (ft\<lparr>ft_h := h\<rparr>)"
    using assms h(2) by (simp add: table_inv_def) (metis domI map_le_def)
  with h sub show ?thesis
    by (auto simp: flow_table_expire_def flow_of_def)
qed

lemma write_slot:
  assumes "table_inv ok keys ft" "keys (ft_h ft) k = Some i" "flow_ok k st"
  shows "flow_of keys (ft\<lparr>ft_states := (ft_states ft)[i := st]\<rparr>) = (flow_of keys ft)(k \<mapsto> st)"
    and "table_inv ok keys (ft\<lparr>ft_states := (ft_states ft)[i := st]\<rparr>)"
proof -
  let ?ft = "ft\<lparr>ft_states := (ft_states ft)[i := st]\<rparr>"
  have okh: "ok (ft_h ft)" using assms(1) by (simp add: table_inv_def)
  have i: "i < length (ft_states ft)" by (rule positions_in_states [OF assms(1,2)])
  have ne: "j \<noteq> i" if "keys (ft_h ft) k' = Some j" "k' \<noteq> k" for k' j
    using position_distinct [OF okh] assms(2) that by blast
  show f: "flow_of keys ?ft = (flow_of keys ft)(k \<mapsto> st)"
  proof
    fix k'
    show "flow_of keys ?ft k' = ((flow_of keys ft)(k \<mapsto> st)) k'"
      using ne [of k'] assms(2) i
      by (cases "k' = k"; cases "keys (ft_h ft) k'") (auto simp: flow_of_def)
  qed
  show "table_inv ok keys ?ft"
    using assms(1,3) f by (auto simp: table_inv_def)
qed

lemma new_flow_ok: "l2l4_ok l \<Longrightarrow> flow_ok (l2l4_key l) (new_flow (l2l4_type l))"
  using flow_inv_zero
  by (simp add: l2l4_ok_def flow_ok_def new_flow_def) (simp add: zero_flow_state_def)

lemma flow_slot_spec:
  assumes inv: "table_inv ok keys ft" and l: "l2l4_ok l"
  shows "(flow_of keys ft (l2l4_key l) = None \<and>
     (\<exists>ft' j. flow_slot H ft l = Some (ft', j) \<and> j < 0 \<and> table_inv ok keys ft' \<and>
        flow_of keys ft' = flow_of keys ft \<and> ft_call_count ft' = ft_call_count ft)) \<or>
    (\<exists>ft' i. flow_slot H ft l = Some (ft', int i) \<and> keys (ft_h ft') (l2l4_key l) = Some i \<and>
       table_inv ok keys ft' \<and> ft_call_count ft' = ft_call_count ft \<and>
       flow_of keys ft' = (flow_of keys ft)(l2l4_key l \<mapsto>
         (case flow_of keys ft (l2l4_key l) of Some st \<Rightarrow> st
          | None \<Rightarrow> new_flow (l2l4_type l))))"
proof -
  let ?k = "l2l4_key l"
  have okh: "ok (ft_h ft)" using inv by (simp add: table_inv_def)
  show ?thesis
  proof (cases "keys (ft_h ft) ?k")
    case (Some i)
    then have "flow_slot H ft l = Some (ft, int i)"
      using lookup_hit [OF okh Some] by (simp add: flow_slot_def)
    moreover have "flow_of keys ft = (flow_of keys ft)(?k \<mapsto>
        (case flow_of keys ft ?k of Some st \<Rightarrow> st | None \<Rightarrow> new_flow (l2l4_type l)))"
      using Some by (auto simp: flow_of_def)
    ultimately show ?thesis using Some inv by metis
  next
    case None
    then have none: "flow_of keys ft ?k = None" by (simp add: flow_of_def)
    have miss: "hash_lookup H (ft_h ft) ?k < 0" by (rule lookup_miss [OF okh None])
    obtain h j where add: "hash_add_key H (ft_h ft) ?k = (h, j)" by (metis surj_pair)
    show ?thesis
    proof (cases "j < 0")
      case True
      have h: "ok h" "keys h = keys (ft_h ft)" using add_full [OF okh None add True] by simp_all
      have f: "flow_of keys (ft\<lparr>ft_h := h\<rparr>) = flow_of keys ft"
        using h by (simp add: flow_of_def fun_eq_iff)
      have "table_inv ok keys (ft\<lparr>ft_h := h\<rparr>)"
        using inv h(1) unfolding table_inv_def f by simp
      with f none True miss add show ?thesis by (auto simp: flow_slot_def)
    next
      case False
      have h: "ok h" "keys h = (keys (ft_h ft))(?k \<mapsto> nat j)"
        using add_ok [OF okh None add] False by simp_all
      then have i: "nat j < length (ft_states ft)"
        using position_bound [OF h(1), of ?k] inv by (simp add: table_inv_def)
      let ?z = "new_flow (l2l4_type l)"
      let ?ft = "ft\<lparr>ft_h := h, ft_states := (ft_states ft)[nat j := ?z]\<rparr>"
      have fl: "flow_slot H ft l = Some (?ft, int (nat j))"
        using add miss False i by (simp add: flow_slot_def mem_simps new_flow_def)
      have ne: "i' \<noteq> nat j" if "keys (ft_h ft) k' = Some i'" "k' \<noteq> ?k" for k' i'
        using position_distinct [OF h(1), of k' i' ?k] h(2) that by auto
      have f: "flow_of keys ?ft = (flow_of keys ft)(?k \<mapsto> ?z)"
      proof
        fix k'
        show "flow_of keys ?ft k' = ((flow_of keys ft)(?k \<mapsto> ?z)) k'"
          using ne [of k'] h(2) i
          by (cases "k' = ?k"; cases "keys (ft_h ft) k'") (auto simp: flow_of_def)
      qed
      have "table_inv ok keys ?ft"
        using inv h(1) new_flow_ok [OF l] unfolding table_inv_def f by auto
      then show ?thesis
        using fl f h(2) none by (intro disjI2 exI [of _ ?ft] exI [of _ "nat j"]) simp
    qed
  qed
qed

end

text \<open>
  What one packet does to the map of flows \<open>F\<close>: \<open>F1\<close> is \<open>F\<close> after the sweep that may precede, and
  the packet either finds no room and gives up, or updates its own flow.
\<close>

definition swept :: "u64 \<Rightarrow> u64 \<Rightarrow> (flow_key \<rightharpoonup> flow_state) \<Rightarrow> (flow_key \<rightharpoonup> flow_state) \<Rightarrow> bool" where
  "swept timeout now F F1 \<longleftrightarrow> F1 \<subseteq>\<^sub>m F \<and>
     (\<forall>k st. F k = Some st \<and> F1 k = None \<longrightarrow> now - st_last_seen_tsc st > timeout)"

definition packet_effect ::
  "(flow_key \<rightharpoonup> flow_state) \<Rightarrow> l2l4_result \<Rightarrow> u64 \<Rightarrow> (flow_key \<rightharpoonup> flow_state) \<Rightarrow> update_result \<Rightarrow> bool" where
  "packet_effect F1 l now F2 r \<longleftrightarrow>
     (F1 (l2l4_key l) = None \<and> F2 = F1 \<and> r = only_status REASSEMBLY_GIVE_UP) \<or>
     (\<exists>st'. flow_state_update
              (case F1 (l2l4_key l) of Some st \<Rightarrow> st | None \<Rightarrow> new_flow (l2l4_type l)) l now =
              Some (st', r) \<and> F2 = F1(l2l4_key l \<mapsto> st'))"

lemma flow_state_update_ok:
  assumes "flow_ok (l2l4_key l) st" "l2l4_ok l" "flow_state_update st l now = Some (st', r)"
  shows "flow_ok (l2l4_key l) st'"
proof -
  have "l2l4_type l = st_type st" using assms(1,2) by (simp add: flow_ok_def l2l4_ok_def)
  moreover have "st_type st \<in> {TRAFFIC_HTTP, TRAFFIC_HTTPS}"
    using assms(1) by (auto simp: flow_ok_def classify_port_def split: if_splits)
  ultimately show ?thesis
    using flow_state_update_spec [of st l now] assms by (auto simp: flow_ok_def l2l4_ok_def)
qed

context rte_hash_contract
begin

lemma slot_update:
  assumes inv: "table_inv ok keys ft" and l: "l2l4_ok l"
  shows "\<exists>ft' r. do {
       (ft, idx) \<leftarrow> flow_slot H ft l;
       if idx < 0 then Some (ft, only_status REASSEMBLY_GIVE_UP)
       else do {
         st \<leftarrow> rd (ft_states ft) (nat idx);
         (st, r) \<leftarrow> flow_state_update st l now;
         states \<leftarrow> wr (ft_states ft) (nat idx) st;
         Some (ft\<lparr>ft_states := states\<rparr>, r) } } = Some (ft', r) \<and>
     table_inv ok keys ft' \<and> packet_effect (flow_of keys ft) l now (flow_of keys ft') r"
  using flow_slot_spec [OF assms]
proof (elim disjE conjE exE)
  fix ft1 j
  assume "flow_of keys ft (l2l4_key l) = None" "flow_slot H ft l = Some (ft1, j)" "j < 0"
    "table_inv ok keys ft1" "flow_of keys ft1 = flow_of keys ft"
  then show ?thesis by (auto simp: packet_effect_def)
next
  fix ft1 i
  let ?k = "l2l4_key l"
  let ?st = "case flow_of keys ft ?k of Some st \<Rightarrow> st | None \<Rightarrow> new_flow (l2l4_type l)"
  assume s: "flow_slot H ft l = Some (ft1, int i)" "keys (ft_h ft1) ?k = Some i"
    "table_inv ok keys ft1" "flow_of keys ft1 = (flow_of keys ft)(?k \<mapsto> ?st)"
  have i: "i < length (ft_states ft1)" by (rule positions_in_states [OF s(3,2)])
  have st: "ft_states ft1 ! i = ?st" "flow_ok ?k ?st"
    using fun_cong [OF s(4), of ?k] s(2,3) by (auto simp: flow_of_def table_inv_def)
  then obtain st' r where u: "flow_state_update ?st l now = Some (st', r)"
    using flow_state_update_spec [of ?st l now] l by (auto simp: flow_ok_def l2l4_ok_def)
  have "flow_ok ?k st'" by (rule flow_state_update_ok [OF st(2) l u])
  note w = write_slot [OF s(3,2) this]
  show ?thesis
    using s(1) i st(1) u w s(4) by (auto simp: packet_effect_def mem_simps)
qed

lemma update_spec:
  assumes inv: "table_inv ok keys ft" and l: "l2l4_ok l"
  shows "\<exists>ft' r F1. parser_flow_update H ft l now_sweep now = Some (ft', r) \<and>
    table_inv ok keys ft' \<and>
    (if (ft_call_count ft + 1) mod 256 = 0
     then swept (ft_timeout_cycles ft) now_sweep (flow_of keys ft) F1 else F1 = flow_of keys ft) \<and>
    packet_effect F1 l now (flow_of keys ft') r"
proof -
  let ?ft = "ft\<lparr>ft_call_count := ft_call_count ft + 1\<rparr>"
  have f: "flow_of keys ?ft = flow_of keys ft" by (simp add: flow_of_def fun_eq_iff)
  then have inv': "table_inv ok keys ?ft" using inv by (simp add: table_inv_def)
  show ?thesis
  proof (cases "(ft_call_count ft + 1) mod 256 = 0")
    case True
    obtain h where h: "flow_table_expire H ?ft now_sweep = Some (?ft\<lparr>ft_h := h\<rparr>)"
      "table_inv ok keys (?ft\<lparr>ft_h := h\<rparr>)"
      "swept (ft_timeout_cycles ft) now_sweep (flow_of keys ft) (flow_of keys (?ft\<lparr>ft_h := h\<rparr>))"
      using expire_spec [OF inv', of now_sweep] unfolding f swept_def by auto
    show ?thesis
      using slot_update [OF h(2) l, of now] h(1,3) True
      by (auto simp: parser_flow_update_def Let_def)
  next
    case False
    then show ?thesis
      using slot_update [OF inv' l, of now] f by (auto simp: parser_flow_update_def Let_def)
  qed
qed

lemma cache_verdict_spec:
  assumes "table_inv ok keys ft"
  shows "\<exists>ft'. parser_flow_cache_verdict H ft k a = Some ft' \<and> table_inv ok keys ft' \<and>
    ft_call_count ft' = ft_call_count ft \<and> ft_timeout_cycles ft' = ft_timeout_cycles ft \<and>
    flow_of keys ft' =
      (case flow_of keys ft k of None \<Rightarrow> flow_of keys ft
       | Some st \<Rightarrow> (flow_of keys ft)(k \<mapsto> set_verdict st a))"
proof -
  have okh: "ok (ft_h ft)" using assms by (simp add: table_inv_def)
  show ?thesis
  proof (cases "keys (ft_h ft) k")
    case None
    then show ?thesis
      using lookup_miss [OF okh None] assms by (simp add: parser_flow_cache_verdict_def flow_of_def)
  next
    case (Some i)
    then have i: "i < length (ft_states ft)" by (rule positions_in_states [OF assms])
    have st: "flow_of keys ft k = Some (ft_states ft ! i)" using Some by (simp add: flow_of_def)
    then have "flow_ok k (ft_states ft ! i)" using assms by (simp add: table_inv_def)
    then have "flow_ok k (set_verdict (ft_states ft ! i) a)"
      using flow_inv_set_verdict by (simp add: flow_ok_def) (simp add: set_verdict_def)
    note w = write_slot [OF assms Some this]
    show ?thesis
      using w i st lookup_hit [OF okh Some] by (simp add: parser_flow_cache_verdict_def mem_simps)
  qed
qed

end

section \<open>A hash table that satisfies the contract\<close>

text \<open>
  An array of slots, searched from the start; insertion takes the first free slot and fails when
  there is none.
\<close>

primrec position :: "('a \<Rightarrow> bool) \<Rightarrow> 'a list \<Rightarrow> nat option" where
  "position P [] = None"
| "position P (x # xs) = (if P x then Some 0 else map_option Suc (position P xs))"

lemma position_SomeD: "position P xs = Some i \<Longrightarrow> i < length xs \<and> P (xs ! i)"
  by (induction xs arbitrary: i) (auto split: if_splits)

lemma position_None: "position P xs = None \<longleftrightarrow> (\<forall>x \<in> set xs. \<not> P x)"
  by (induction xs) auto

type_synonym slot_hash = "flow_key option list"

definition slot_keys :: "slot_hash \<Rightarrow> flow_key \<rightharpoonup> nat" where
  "slot_keys h k = position (\<lambda>s. s = Some k) h"

definition slot_ok :: "slot_hash \<Rightarrow> bool" where
  "slot_ok h \<longleftrightarrow> length h = FLOW_TABLE_CAPACITY \<and>
     (\<forall>i j k. i < length h \<and> j < length h \<and> h ! i = Some k \<and> h ! j = Some k \<longrightarrow> i = j)"

definition slot_ops :: "slot_hash rte_hash_ops" where
  "slot_ops = \<lparr>
     hash_lookup = (\<lambda>h k. case slot_keys h k of None \<Rightarrow> - 2 | Some i \<Rightarrow> int i),
     hash_add_key = (\<lambda>h k. case slot_keys h k of
         Some i \<Rightarrow> (h, int i)
       | None \<Rightarrow> (case position (\<lambda>s. s = None) h of
           None \<Rightarrow> (h, - 28)
         | Some i \<Rightarrow> (h[i := Some k], int i))),
     hash_del_key = (\<lambda>h k. case slot_keys h k of None \<Rightarrow> h | Some i \<Rightarrow> h[i := None]),
     hash_iterate = (\<lambda>h n. case position (\<lambda>s. s \<noteq> None) (drop n h) of
         None \<Rightarrow> (- 2, \<lparr>src_ip = 0, dst_ip = 0, src_port = 0, dst_port = 0, proto = 0\<rparr>, n)
       | Some i \<Rightarrow> (int (n + i), the (h ! (n + i)), n + i + 1))\<rparr>"

lemma slot_keys_iff:
  assumes "slot_ok h"
  shows "slot_keys h k = Some i \<longleftrightarrow> i < length h \<and> h ! i = Some k"
proof
  assume "slot_keys h k = Some i"
  then show "i < length h \<and> h ! i = Some k" by (auto simp: slot_keys_def dest: position_SomeD)
next
  assume i: "i < length h \<and> h ! i = Some k"
  then have "slot_keys h k \<noteq> None" by (auto simp: slot_keys_def position_None in_set_conv_nth)
  then obtain j where j: "slot_keys h k = Some j" by auto
  then have "j < length h \<and> h ! j = Some k" by (auto simp: slot_keys_def dest: position_SomeD)
  then have "j = i" using i assms unfolding slot_ok_def by blast
  then show "slot_keys h k = Some i" using j by simp
qed

lemma slot_keys_None: "slot_keys h k = None \<longleftrightarrow> (\<forall>i < length h. h ! i \<noteq> Some k)"
  by (auto simp: slot_keys_def position_None in_set_conv_nth)

lemma slot_keys_eqI:
  assumes "slot_ok h" "\<And>k i. m k = Some i \<longleftrightarrow> i < length h \<and> h ! i = Some k"
  shows "slot_keys h = m"
proof
  fix k
  show "slot_keys h k = m k"
    using slot_keys_iff [OF assms(1), of k] assms(2) [of k]
    by (cases "slot_keys h k"; cases "m k") auto
qed

lemma slot_update_keys:
  assumes "slot_ok h" "i < length h" "\<forall>j < length h. v = None \<or> h ! j \<noteq> v"
  shows "slot_ok (h[i := v])"
  using assms unfolding slot_ok_def by (simp add: nth_list_update) auto

lemma slot_del_ok:
  assumes "slot_ok h"
  shows "slot_ok (hash_del_key slot_ops h k) \<and>
    slot_keys (hash_del_key slot_ops h k) = (slot_keys h)(k := None)"
proof (cases "slot_keys h k")
  case None
  then show ?thesis using assms by (auto simp: slot_ops_def)
next
  case (Some i)
  then have i: "i < length h" "h ! i = Some k" using slot_keys_iff [OF assms] by auto
  have ok: "slot_ok (h[i := None])" using assms i by (intro slot_update_keys) auto
  have "((slot_keys h)(k := None)) k' = Some j \<longleftrightarrow> j < length h \<and> h[i := None] ! j = Some k'"
    for k' j
    using i slot_keys_iff [OF assms, of k' j] assms unfolding slot_ok_def
    by (auto simp: nth_list_update)
  then have "slot_keys (h[i := None]) = (slot_keys h)(k := None)"
    by (intro slot_keys_eqI [OF ok]) simp
  with ok Some show ?thesis by (simp add: slot_ops_def)
qed

lemma slot_add_ok:
  assumes "slot_ok h" "slot_keys h k = None" "hash_add_key slot_ops h k = (h', j)" "0 \<le> j"
  shows "slot_ok h' \<and> slot_keys h' = (slot_keys h)(k \<mapsto> nat j)"
proof -
  obtain i where p: "position (\<lambda>s. s = None) h = Some i" and e: "h' = h[i := Some k]" "j = int i"
    using assms(2-4) by (auto simp: slot_ops_def split: option.splits)
  then have i: "i < length h" "h ! i = None" using position_SomeD [OF p] by auto
  have new: "\<forall>j < length h. h ! j \<noteq> Some k" using assms(2) by (simp add: slot_keys_None)
  have ok: "slot_ok (h[i := Some k])" using assms(1) i new by (intro slot_update_keys) auto
  have "((slot_keys h)(k \<mapsto> i)) k' = Some n \<longleftrightarrow> n < length h \<and> h[i := Some k] ! n = Some k'" for k' n
    using i new slot_keys_iff [OF assms(1), of k' n] by (auto simp: nth_list_update)
  then have "slot_keys (h[i := Some k]) = (slot_keys h)(k \<mapsto> i)"
    by (intro slot_keys_eqI [OF ok]) simp
  with ok e show ?thesis by simp
qed

lemma slot_iterate_ok:
  assumes "slot_ok h" "hash_iterate slot_ops h n = (j, k, n')" "0 \<le> j"
  shows "slot_keys h k = Some (nat j) \<and> n < n' \<and> n' \<le> FLOW_TABLE_CAPACITY"
proof -
  obtain i where p: "position (\<lambda>s. s \<noteq> None) (drop n h) = Some i"
    and e: "j = int (n + i)" "k = the (h ! (n + i))" "n' = n + i + 1"
    using assms(2,3) by (auto simp: slot_ops_def split: option.splits)
  then have i: "n + i < length h" "h ! (n + i) \<noteq> None" using position_SomeD [OF p] by auto
  then have "slot_keys h k = Some (n + i)"
    using slot_keys_iff [OF assms(1)] e(2) by auto
  then show ?thesis using e i assms(1) by (simp add: slot_ok_def)
qed

interpretation slot_hash: rte_hash_contract slot_ops slot_ok slot_keys FLOW_TABLE_CAPACITY
proof unfold_locales
  fix h k i
  assume "slot_ok h" "slot_keys h k = Some i"
  then show "i < FLOW_TABLE_CAPACITY" using slot_keys_iff [of h k i] by (auto simp: slot_ok_def)
next
  fix h k k' i
  assume "slot_ok h" "slot_keys h k = Some i" "slot_keys h k' = Some i"
  then show "k = k'" using slot_keys_iff [of h] by auto
next
  fix h k h' j
  assume "slot_ok h" "slot_keys h k = None" "hash_add_key slot_ops h k = (h', j)" "j < 0"
  then show "slot_ok h' \<and> slot_keys h' = slot_keys h"
    by (auto simp: slot_ops_def split: option.splits)
next
  fix h k h' j
  assume "slot_ok h" "slot_keys h k = None" "hash_add_key slot_ops h k = (h', j)" "(0 :: int) \<le> j"
  then show "slot_ok h' \<and> slot_keys h' = (slot_keys h)(k \<mapsto> nat j)" by (rule slot_add_ok)
next
  fix h k
  assume "slot_ok h"
  then show "slot_ok (hash_del_key slot_ops h k) \<and>
    slot_keys (hash_del_key slot_ops h k) = (slot_keys h)(k := None)" by (rule slot_del_ok)
next
  fix h n j k n'
  assume "slot_ok h" "hash_iterate slot_ops h n = (j, k, n')" "(0 :: int) \<le> j"
  then show "slot_keys h k = Some (nat j) \<and> n < n' \<and> n' \<le> FLOW_TABLE_CAPACITY"
    by (rule slot_iterate_ok)
qed (auto simp: slot_ops_def)

end
