(* ===== verification/Flow_Verdicts.thy ===== *)
theory Flow_Verdicts
  imports Flow_Table "HOL-Library.Multiset"
begin

text \<open>
  Consequences for the flow table's clients: the refinement of \<open>parser_flow_update\<close> to the map of
  flows, cached verdicts, the life cycle of a table, and the path of a request or a ClientHello from
  its segments to the string handed to the scanner.
\<close>

section \<open>Sequences of packets of one flow\<close>

text \<open>Successive calls on one flow state, with their time stamps, and the results in order.\<close>

fun flow_run ::
  "flow_state \<Rightarrow> (l2l4_result \<times> u64) list \<Rightarrow> (flow_state \<times> update_result list) option" where
  "flow_run st [] = Some (st, [])"
| "flow_run st ((l, now) # ps) = do {
     (st1, r) \<leftarrow> flow_state_update st l now;
     (st2, rs) \<leftarrow> flow_run st1 ps;
     Some (st2, r # rs) }"

lemma in_window_touch [simp]: "in_window base (st\<lparr>st_last_seen_tsc := t\<rparr>) = in_window base st"
  by (simp add: in_window_def)

lemma in_window_frame: "extract_frame st st' \<Longrightarrow> in_window base st' = in_window base st"
  by (simp add: in_window_def extract_frame_def)

lemma flow_state_update_window:
  assumes "flow_inv st" "in_window base st" "\<not> st_verdict_cached st" "seg_of T base l"
  shows "\<exists>st' r. flow_state_update st l now = Some (st', r) \<and> flow_inv st' \<and> in_window base st' \<and>
    \<not> st_verdict_cached st' \<and> answer r = scan_request (l2l4_type l) (contig_prefix st') \<and>
    (\<forall>s. stream st' s = (case stream st s of Some b \<Rightarrow> Some b
       | None \<Rightarrow> if covers l s then Some (T s) else None))"
proof -
  let ?st = "st\<lparr>st_last_seen_tsc := now\<rparr>"
  obtain st1 st' r where u: "place_segment ?st l = Some st1" "same_meta ?st st1"
    "flow_state_update st l now = Some (st', r)" "extracted st1 (l2l4_type l) st' r"
    using flow_state_update_open [OF assms(1) seg_of_ok [OF assms(4)] assms(3)] by blast
  have "place_all ?st [l] = Some st1" using u(1) by simp
  then have w: "in_window base st1"
    "\<forall>s. stream st1 s = (case stream st s of Some b \<Rightarrow> Some b
       | None \<Rightarrow> if covers l s then Some (T s) else None)"
    using place_all_window [of ?st base "[l]" T] assms by auto
  have e: "flow_inv st'" "extract_frame st1 st'"
    "answer r = scan_request (l2l4_type l) (contig_prefix st1)"
    using u(4) by (simp_all add: extracted_def)
  then show ?thesis
    using u(2,3) w in_window_frame [OF e(2)] assms(3)
    by (auto simp: extract_frame_def same_meta_def)
qed

lemma flow_run_window:
  assumes "flow_inv st" "in_window base st" "\<not> st_verdict_cached st"
    and "\<forall>p \<in> set ps. seg_of T base (fst p)"
  shows "\<exists>st' rs. flow_run st ps = Some (st', rs) \<and> flow_inv st' \<and> in_window base st' \<and>
    \<not> st_verdict_cached st' \<and> length rs = length ps \<and>
    (ps \<noteq> [] \<longrightarrow> answer (last rs) = scan_request (l2l4_type (fst (last ps))) (contig_prefix st')) \<and>
    (\<forall>s. stream st' s = (case stream st s of Some b \<Rightarrow> Some b
       | None \<Rightarrow> if \<exists>l \<in> set (map fst ps). covers l s then Some (T s) else None))"
  using assms
proof (induction ps arbitrary: st)
  case Nil
  then show ?case by (simp split: option.split)
next
  case (Cons p ps)
  obtain l now where p: "p = (l, now)" by (cases p)
  obtain st1 r where u: "flow_state_update st l now = Some (st1, r)" "flow_inv st1"
    "in_window base st1" "\<not> st_verdict_cached st1"
    "answer r = scan_request (l2l4_type l) (contig_prefix st1)"
    "\<forall>s. stream st1 s = (case stream st s of Some b \<Rightarrow> Some b
       | None \<Rightarrow> if covers l s then Some (T s) else None)"
    using flow_state_update_window [OF Cons.prems(1-3), of T l now] Cons.prems(4) p by auto
  obtain st' rs where v: "flow_run st1 ps = Some (st', rs)" "flow_inv st'" "in_window base st'"
    "\<not> st_verdict_cached st'" "length rs = length ps"
    "ps \<noteq> [] \<longrightarrow> answer (last rs) = scan_request (l2l4_type (fst (last ps))) (contig_prefix st')"
    "\<forall>s. stream st' s = (case stream st1 s of Some b \<Rightarrow> Some b
       | None \<Rightarrow> if \<exists>l \<in> set (map fst ps). covers l s then Some (T s) else None)"
    using Cons.IH [OF u(2-4)] Cons.prems(4) by auto
  have run: "flow_run st (p # ps) = Some (st', r # rs)" using u(1) v(1) p by simp
  have last: "answer (last (r # rs)) =
      scan_request (l2l4_type (fst (last (p # ps)))) (contig_prefix st')"
  proof (cases "ps = []")
    case True
    then show ?thesis using v(1,5) u(5) p by simp
  next
    case False
    then show ?thesis using v(5,6) by (cases rs) auto
  qed
  have "stream st' s = (case stream st s of Some b \<Rightarrow> Some b
       | None \<Rightarrow> if \<exists>l \<in> set (map fst (p # ps)). covers l s then Some (T s) else None)" for s
    using u(6) [rule_format, of s] v(7) [rule_format, of s] p by (auto split: option.splits)
  then show ?case using run v(2-5) last by (intro exI [of _ st'] exI [of _ "r # rs"]) simp
qed

lemma new_flow_facts [simp]:
  "flow_inv (new_flow ty)" "in_window base (new_flow ty)" "\<not> st_verdict_cached (new_flow ty)"
  "stream (new_flow ty) s = None" "st_type (new_flow ty) = ty" "\<not> st_no_sni_cached (new_flow ty)"
  using flow_inv_zero by (simp_all add: new_flow_def)
    (simp_all add: zero_flow_state_def in_window_def stream_def Let_def)

text \<open>
  A new flow fed with segments that cover the first \<open>n\<close> bytes of a stream answers for a prefix that
  starts with those bytes.
\<close>

lemma new_flow_answer:
  assumes "ps \<noteq> []" and "\<forall>p \<in> set ps. seg_of T base (fst p) \<and> l2l4_type (fst p) = ty"
    and "0 < n" "n \<le> FLOW_BUF_CAP - 1"
    and "\<forall>i < n. \<exists>p \<in> set ps. covers (fst p) (base + of_nat i)"
  shows "\<exists>st' rs rest. flow_run (new_flow ty) ps = Some (st', rs) \<and> length rs = length ps \<and>
    answer (last rs) = scan_request ty (map (\<lambda>i. T (base + of_nat i)) [0..<n] @ rest) \<and>
    length rest + n \<le> FLOW_BUF_CAP - 1"
proof -
  obtain st' rs where r: "flow_run (new_flow ty) ps = Some (st', rs)" "flow_inv st'"
    "in_window base st'" "\<not> st_verdict_cached st'" "length rs = length ps"
    "answer (last rs) = scan_request (l2l4_type (fst (last ps))) (contig_prefix st')"
    "\<And>s. stream st' s = (if \<exists>l \<in> set (map fst ps). covers l s then Some (T s) else None)"
    using flow_run_window [of "new_flow ty" base ps T] assms(1,2) by auto
  have "\<forall>i < n. \<exists>l \<in> set (map fst ps). covers l (base + of_nat i)" using assms(5) by simp
  then have w: "n \<le> st_contig_len st'"
    "take n (contig_prefix st') = map (\<lambda>i. T (base + of_nat i)) [0..<n]"
    using window_prefix [OF r(2-4,7) assms(3,4)] by blast+
  have ty: "l2l4_type (fst (last ps)) = ty" using assms(1,2) by simp
  have len: "length (contig_prefix st') \<le> 4095"
    using r(2) by (simp add: length_contig_prefix flow_inv_def)
  have split: "contig_prefix st' = map (\<lambda>i. T (base + of_nat i)) [0..<n] @ drop n (contig_prefix st')"
    using w(2) by (metis append_take_drop_id)
  show ?thesis
    using r(1,5,6) ty len w(1) length_contig_prefix [OF r(2)]
    by (intro exI [of _ st'] exI [of _ rs] exI [of _ "drop n (contig_prefix st')"])
      (simp add: split [symmetric])
qed

text \<open>A byte string as a sender's stream from \<open>base\<close> on, and the segments cut from it.\<close>

definition stream_of :: "u32 \<Rightarrow> byte list \<Rightarrow> u32 \<Rightarrow> byte" where
  "stream_of base bs s = (let i = unat (s - base) in if i < length bs then bs ! i else 0)"

definition cut_segment :: "traffic_type \<Rightarrow> u32 \<Rightarrow> byte list \<Rightarrow> nat \<Rightarrow> nat \<Rightarrow> l2l4_result" where
  "cut_segment ty base bs a m =
     (demo_segment (base + of_nat a) (take m (drop a bs)))\<lparr>l2l4_type := ty\<rparr>"

lemma map_stream_of:
  assumes "length bs \<le> 4095"
  shows "map (\<lambda>i. stream_of base bs (base + of_nat i)) [0..<length bs] = bs"
proof (intro nth_equalityI)
  fix i
  assume "i < length (map (\<lambda>i. stream_of base bs (base + of_nat i)) [0..<length bs])"
  then have i: "i < length bs" by simp
  then have "unat (of_nat i :: u32) = i" using assms by (simp add: unat_of_nat)
  then show "map (\<lambda>i. stream_of base bs (base + of_nat i)) [0..<length bs] ! i = bs ! i"
    using i by (simp add: stream_of_def Let_def)
qed simp

lemma cut_segment_facts:
  assumes "a + m \<le> length bs" "length bs \<le> 4095"
  shows "seg_of (stream_of base bs) base (cut_segment ty base bs a m)"
    and "l2l4_type (cut_segment ty base bs a m) = ty"
    and "i < 4096 \<Longrightarrow> covers (cut_segment ty base bs a m) (base + of_nat i) \<longleftrightarrow> a \<le> i \<and> i < a + m"
proof -
  have small: "unat (of_nat n :: u32) = n" if "n \<le> 5000" for n
    using that by (simp add: unat_of_nat)
  have "stream_of base bs (base + of_nat a + of_nat j) = bs ! (a + j)" if "j < m" for j
  proof -
    have "base + of_nat a + of_nat j - base = (of_nat (a + j) :: u32)" by simp
    then show ?thesis using small [of "a + j"] that assms by (simp add: stream_of_def Let_def)
  qed
  then show "seg_of (stream_of base bs) base (cut_segment ty base bs a m)"
    using assms small [of a] by (simp add: seg_of_def cut_segment_def demo_segment_def)
  show "l2l4_type (cut_segment ty base bs a m) = ty" by (simp add: cut_segment_def)
  assume i: "i < 4096"
  show "covers (cut_segment ty base bs a m) (base + of_nat i) \<longleftrightarrow> a \<le> i \<and> i < a + m"
  proof (cases "a \<le> i")
    case True
    then have e: "base + of_nat i - (base + of_nat a) = (of_nat (i - a) :: u32)" by simp
    then show ?thesis using True small [of "i - a"] i assms
      by (auto simp: covers_def cut_segment_def demo_segment_def)
  next
    case False
    let ?d = "2 ^ 32 - (a - i)"
    have "(of_nat ?d :: u32) = of_nat (2 ^ 32) - of_nat (a - i)"
      using assms by (intro of_nat_diff) simp
    then have "base + of_nat i - (base + of_nat a) = (of_nat ?d :: u32)" using False by simp
    moreover have "unat (of_nat ?d :: u32) = ?d"
      using False by (simp add: unat_of_nat del: of_nat_diff of_nat_add)
    ultimately have "unat (base + of_nat i - (base + of_nat a)) = ?d" by (simp only:)
    then show ?thesis using False assms
      by (simp add: covers_def cut_segment_def demo_segment_def)
  qed
qed

section \<open>Properties\<close>

text \<open>
  An HTTP request is handed to the scanner however it is segmented. Feed a new flow with
  segments of the sender's stream, in any order, with overlaps and duplicates, all inside one
  window, that together cover the request line, the header lines and the Host line: the last call
  returns \<open>REASSEMBLY_READY\<close> and the string \<open>http://\<close>, host, URI, cut to the scan buffer.
\<close>

lemma segmented_request_reaches_scanner:
  assumes "ps \<noteq> []" and "\<forall>p \<in> set ps. seg_of T base (fst p) \<and> l2l4_type (fst p) = TRAFFIC_HTTP"
    and "request_ok m uri version hdrs name host"
    and "req = request_head m uri version hdrs @ host_line name k host"
    and "length req \<le> FLOW_BUF_CAP - 1"
    and "map (\<lambda>i. T (base + of_nat i)) [0..<length req] = req"
    and "\<forall>i < length req. \<exists>p \<in> set ps. covers (fst p) (base + of_nat i)"
  shows "\<exists>st rs. flow_run (new_flow TRAFFIC_HTTP) ps = Some (st, rs) \<and>
    answer (last rs) =
      (REASSEMBLY_READY, Some (take (FLOW_SCAN_BUF_CAP - 1) (ascii ''http://'' @ host @ uri)))"
proof -
  have "0 < length req" unfolding assms(4) by (simp add: host_line_def crlf_def ascii_def)
  then obtain st rs rest where r: "flow_run (new_flow TRAFFIC_HTTP) ps = Some (st, rs)"
    "answer (last rs) = scan_request TRAFFIC_HTTP (req @ rest)"
    using new_flow_answer [OF assms(1,2) _ assms(5,7)] assms(6) by auto
  have "http_url (takeWhile (\<lambda>b. b \<noteq> 0) (req @ rest)) = Some (ascii ''http://'' @ host @ uri)"
    using http_url_of_prefix [OF assms(3), of "req @ rest" k rest] assms(4) by simp
  then show ?thesis using r by (auto simp: scan_request_def)
qed

text \<open>
  A TLS server name is handed to the scanner however the ClientHello is segmented: segments of
  the sender's stream in any order, with overlaps and duplicates, inside one window, that cover a
  ClientHello with a server_name extension at any position, make the last call return
  \<open>REASSEMBLY_READY\<close> with \<open>HOST://\<close> and the name.
\<close>

lemma segmented_client_hello_reaches_scanner:
  assumes "ps \<noteq> []" and "\<forall>p \<in> set ps. seg_of T base (fst p) \<and> l2l4_type (fst p) = TRAFFIC_HTTPS"
    and "hello_head_ok r h vr sid ciphers compr"
    and "\<forall>x \<in> set before. ext_ok x \<and> fst x \<noteq> 0"
    and "exts = enc_exts before @ enc_ext (0, enc_sni ll host others) @ after"
    and "hello = hello_head r h vr sid ciphers compr @ enc16 (length exts) @ exts"
    and "length hello \<le> FLOW_BUF_CAP - 1"
    and "map (\<lambda>i. T (base + of_nat i)) [0..<length hello] = hello"
    and "\<forall>i < length hello. \<exists>p \<in> set ps. covers (fst p) (base + of_nat i)"
  shows "\<exists>st rs. flow_run (new_flow TRAFFIC_HTTPS) ps = Some (st, rs) \<and>
    answer (last rs) = (REASSEMBLY_READY, Some (take (FLOW_SCAN_BUF_CAP - 1)
      (ascii ''HOST://'' @ takeWhile (\<lambda>b. b \<noteq> 0) host)))"
proof -
  have "0 < length hello" unfolding assms(6) by simp
  then obtain st rs rest where r: "flow_run (new_flow TRAFFIC_HTTPS) ps = Some (st, rs)"
    "answer (last rs) = scan_request TRAFFIC_HTTPS (hello @ rest)"
    "length rest + length hello \<le> 4096 - 1"
    using new_flow_answer [OF assms(1,2) _ assms(7,9)] assms(8) by auto
  have "tls_verdict (hello @ rest) =
      (TLS_SNI_FOUND, ascii ''HOST://'' @ takeWhile (\<lambda>b. b \<noteq> 0) host)"
    using r(3) assms(6) by (intro tls_verdict_sni [OF _ assms(3-5)]) simp_all
  then show ?thesis using r by (auto simp: scan_request_def)
qed

section \<open>Properties of the table\<close>

text \<open>
  C9: \<open>parser_flow_update\<close> refines an update of the map of flows. For every table that satisfies the
  invariant and every parsed packet, with any hash table that meets its contract, the call ends
  without leaving an array and keeps the invariant. On every 256th call it first drops flows, all of
  them idle for longer than the timeout. Then it either gives up because a new flow finds no room,
  changing nothing, or it acts on the packet's own flow alone, a new one starting from the cleared
  state.
\<close>

theorem flow_update_refines:
  assumes "rte_hash_contract H ok keys slots" and "table_inv ok keys ft" and "l2l4_ok l"
  shows "\<exists>ft' r F1. parser_flow_update H ft l now_sweep now = Some (ft', r) \<and>
    table_inv ok keys ft' \<and>
    (if (ft_call_count ft + 1) mod 256 = 0
     then swept (ft_timeout_cycles ft) now_sweep (flow_of keys ft) F1 else F1 = flow_of keys ft) \<and>
    packet_effect F1 l now (flow_of keys ft') r"
  using assms by (rule rte_hash_contract.update_spec)

definition empty_table :: "u64 \<Rightarrow> slot_hash flow_table" where
  "empty_table timeout = \<lparr>ft_h = replicate FLOW_TABLE_CAPACITY None,
     ft_states = replicate FLOW_TABLE_CAPACITY zero_flow_state, ft_timeout_cycles = timeout,
     ft_call_count = 0\<rparr>"

lemma empty_table_inv: "table_inv slot_ok slot_keys (empty_table timeout)"
  and flow_of_empty_table: "flow_of slot_keys (empty_table timeout) = Map.empty"
proof -
  have "slot_keys (replicate 1024 None) = Map.empty"
    by (rule ext) (simp add: slot_keys_None)
  then show e: "flow_of slot_keys (empty_table timeout) = Map.empty"
    by (simp add: flow_of_def empty_table_def fun_eq_iff)
  show "table_inv slot_ok slot_keys (empty_table timeout)"
    unfolding table_inv_def e by (auto simp: empty_table_def slot_ok_def)
qed

lemma empty_table_update:
  assumes "flow_state_update (new_flow (l2l4_type l)) l now = Some (st, r)"
  shows "\<exists>ft. parser_flow_update slot_ops (empty_table timeout) l now_sweep now = Some (ft, r)"
proof -
  have k: "slot_keys (replicate 1024 None) (l2l4_key l) = None" by (simp add: slot_keys_None)
  have "position (\<lambda>s. s = None) (replicate n (None :: flow_key option)) = Some 0" if "0 < n" for n
    using that by (cases n) simp_all
  then have p: "position (\<lambda>s. s = None) (replicate 1024 (None :: flow_key option)) = Some 0" by simp
  show ?thesis
    using assms
    by (simp add: parser_flow_update_def empty_table_def flow_slot_def slot_ops_def k p mem_simps
        new_flow_def)
qed

lemma demo_segment_ok: "length p < 2 ^ 16 \<Longrightarrow> l2l4_ok (demo_segment seq p)"
  by (simp add: l2l4_ok_def seg_ok_def demo_segment_def classify_port_def)

theorem flow_update_refines_witness:
  "\<exists>ft' r. parser_flow_update slot_ops (empty_table 100) (demo_segment 1001 [71, 69, 84]) 5 6 =
     Some (ft', r) \<and> table_inv slot_ok slot_keys ft' \<and>
     packet_effect Map.empty (demo_segment 1001 [71, 69, 84]) 6 (flow_of slot_keys ft') r"
proof -
  have ok: "l2l4_ok (demo_segment 1001 [71, 69, 84])" by (rule demo_segment_ok) simp
  show ?thesis
    using flow_update_refines [OF slot_hash.rte_hash_contract_axioms empty_table_inv ok,
        of 100 5 6] flow_of_empty_table [of 100]
    by (auto simp: empty_table_def)
qed

text \<open>
  A cached verdict is the answer from then on. After \<open>parser_flow_cache_verdict\<close> on a tracked
  flow, the next packet of that flow, whatever it carries, is answered with \<open>REASSEMBLY_CACHED\<close> and
  exactly that action, unless the packet triggers a sweep and the flow has been idle for longer than
  the timeout; the missing-SNI mark is reported with it, and the verdict stays cached.
\<close>

lemma cached_verdict_returned:
  assumes "rte_hash_contract H ok keys slots" and "table_inv ok keys ft" and "l2l4_ok l"
    and "flow_of keys ft (l2l4_key l) = Some st"
    and "(ft_call_count ft + 1) mod 256 \<noteq> 0 \<or> now_sweep - st_last_seen_tsc st \<le> ft_timeout_cycles ft"
  shows "\<exists>ft1 ft2. parser_flow_cache_verdict H ft (l2l4_key l) a = Some ft1 \<and>
    parser_flow_update H ft1 l now_sweep now = Some (ft2,
      \<lparr>ur_status = REASSEMBLY_CACHED, ur_out = None, ur_cached_action = Some a,
       ur_no_sni = st_no_sni_cached st\<rparr>) \<and>
    flow_of keys ft2 (l2l4_key l) = Some ((set_verdict st a)\<lparr>st_last_seen_tsc := now\<rparr>)"
proof -
  let ?k = "l2l4_key l" and ?st = "set_verdict st a"
  obtain ft1 where c: "parser_flow_cache_verdict H ft ?k a = Some ft1" "table_inv ok keys ft1"
    "ft_call_count ft1 = ft_call_count ft" "ft_timeout_cycles ft1 = ft_timeout_cycles ft"
    "flow_of keys ft1 ?k = Some ?st"
    using rte_hash_contract.cache_verdict_spec [OF assms(1,2), of ?k a] assms(4) by auto
  obtain ft2 r F1 where u: "parser_flow_update H ft1 l now_sweep now = Some (ft2, r)"
    "if (ft_call_count ft + 1) mod 256 = 0
     then swept (ft_timeout_cycles ft) now_sweep (flow_of keys ft1) F1 else F1 = flow_of keys ft1"
    "packet_effect F1 l now (flow_of keys ft2) r"
    using rte_hash_contract.update_spec [OF assms(1) c(2) assms(3), of now_sweep now]
    unfolding c(3,4) by blast
  have "now_sweep - st_last_seen_tsc ?st > ft_timeout_cycles ft" if "F1 ?k = None"
    using u(2) c(5) that by (auto simp: swept_def split: if_splits)
  then have "F1 ?k \<noteq> None"
    using u(2) assms(5) c(5) by (intro notI) (auto simp: set_verdict_def split: if_splits)
  moreover have "F1 \<subseteq>\<^sub>m flow_of keys ft1" using u(2) by (auto simp: swept_def split: if_splits)
  ultimately have "F1 ?k = Some ?st" using c(5) by (metis domI map_le_def not_None_eq)
  then show ?thesis
    using u(1,3) c(1) flow_state_update_cached [of ?st l now]
    by (auto simp: packet_effect_def set_verdict_def)
qed

text \<open>A table that tracks one flow.\<close>

lemma one_flow_table:
  assumes "flow_ok k st"
  shows "\<exists>ft. table_inv slot_ok slot_keys ft \<and> ft_timeout_cycles ft = 100 \<and> ft_call_count ft = 0 \<and>
     flow_of slot_keys ft k = Some st"
proof -
  let ?ft = "(empty_table 100)\<lparr>ft_h := Some k # replicate 1023 None,
     ft_states := st # replicate 1023 zero_flow_state\<rparr>"
  have h: "slot_ok (Some k # replicate 1023 None)"
    by (auto simp: slot_ok_def nth_Cons split: nat.splits)
  have keys: "slot_keys (Some k # replicate 1023 None) = [k \<mapsto> 0]"
    by (rule ext) (simp add: slot_keys_def position_None)
  have f: "flow_of slot_keys ?ft = [k \<mapsto> st]"
    by (rule ext) (simp add: flow_of_def keys)
  have "table_inv slot_ok slot_keys ?ft" unfolding table_inv_def f using h assms by simp
  then show ?thesis using f by (intro exI [of _ ?ft]) (simp add: empty_table_def)
qed

lemma flow_slot_demo:
  "\<exists>ft. table_inv slot_ok slot_keys ft \<and> ft_timeout_cycles ft = 100 \<and> ft_call_count ft = 0 \<and>
     flow_of slot_keys ft (l2l4_key (demo_segment seq p)) = Some (new_flow TRAFFIC_HTTP)"
  by (rule one_flow_table) (simp add: flow_ok_def demo_segment_def classify_port_def)

text \<open>
  C30: the idle sweep ends, and spares active flows: with a clock that has not run backwards since the
  flow's last packet, a flow seen within the timeout is still there, unchanged, after the sweep, and
  no flow is changed other than by being dropped.
\<close>

theorem sweep_spares_active_flows:
  assumes "rte_hash_contract H ok keys slots" and "table_inv ok keys ft"
    and "flow_of keys ft k = Some st" and "st_last_seen_tsc st \<le> now"
    and "unat now \<le> unat (st_last_seen_tsc st) + unat (ft_timeout_cycles ft)"
  shows "\<exists>ft'. flow_table_expire H ft now = Some ft' \<and> table_inv ok keys ft' \<and>
    flow_of keys ft' k = Some st \<and> flow_of keys ft' \<subseteq>\<^sub>m flow_of keys ft"
proof -
  obtain h where h: "flow_table_expire H ft now = Some (ft\<lparr>ft_h := h\<rparr>)"
    "table_inv ok keys (ft\<lparr>ft_h := h\<rparr>)" "flow_of keys (ft\<lparr>ft_h := h\<rparr>) \<subseteq>\<^sub>m flow_of keys ft"
    "\<forall>k st. flow_of keys ft k = Some st \<and> flow_of keys (ft\<lparr>ft_h := h\<rparr>) k = None \<longrightarrow>
       now - st_last_seen_tsc st > ft_timeout_cycles ft"
    using rte_hash_contract.expire_spec [OF assms(1,2), of now] by blast
  have "unat (now - st_last_seen_tsc st) = unat now - unat (st_last_seen_tsc st)"
    using assms(4) by (rule unat_sub)
  then have "\<not> now - st_last_seen_tsc st > ft_timeout_cycles ft"
    using assms(5) by (simp add: word_less_nat_alt)
  then have not_idle: "flow_of keys (ft\<lparr>ft_h := h\<rparr>) k = None \<Longrightarrow> False"
    using h(4) [rule_format, OF conjI [OF assms(3)]] by (rule notE)
  have "flow_of keys (ft\<lparr>ft_h := h\<rparr>) k = Some st"
  proof (cases "flow_of keys (ft\<lparr>ft_h := h\<rparr>) k")
    case None
    then show ?thesis by (rule not_idle [THEN FalseE])
  next
    case (Some st')
    then show ?thesis using h(3) assms(3) by (force simp: map_le_def dom_def)
  qed
  with h(1-3) show ?thesis by blast
qed

theorem sweep_spares_active_flows_witness:
  "\<exists>ft ft' k st. flow_of slot_keys ft k = Some st \<and> st_last_seen_tsc st = 0 \<and>
     flow_table_expire slot_ops ft 50 = Some ft' \<and> flow_of slot_keys ft' k = Some st"
proof -
  let ?l = "demo_segment 1004 [1]"
  have ok: "l2l4_ok ?l" by (rule demo_segment_ok) simp
  obtain ft where s: "table_inv slot_ok slot_keys ft"
    "flow_of slot_keys ft (l2l4_key ?l) = Some (new_flow TRAFFIC_HTTP)" "ft_timeout_cycles ft = 100"
    using flow_slot_demo by blast
  have z: "st_last_seen_tsc (new_flow TRAFFIC_HTTP) = 0"
    by (simp add: new_flow_def zero_flow_state_def)
  have t: "unat (50 :: u64) \<le> unat (st_last_seen_tsc (new_flow TRAFFIC_HTTP)) +
      unat (ft_timeout_cycles ft)"
    using s(3) z by simp
  show ?thesis
    using sweep_spares_active_flows [OF slot_hash.rte_hash_contract_axioms s(1,2) _ t] s z by auto
qed

text \<open>
  A table is created completely or not at all. If one of the three allocations fails, the result
  is no table and nothing stays allocated; otherwise the new table has no flows and satisfies the
  invariant, and freeing it releases everything.
\<close>

lemma table_life_cycle:
  assumes "\<forall>name h. hash_create name = Some h \<longrightarrow> ok h \<and> keys h = Map.empty"
  shows "case parser_flow_table_create a hash_create b seq timeout of
    (seq', live, None) \<Rightarrow> live = [] \<and>
      (\<not> a \<or> \<not> b \<or> hash_create (ascii ''flow_hash_'' @ dec_digits (unat seq)) = None)
  | (seq', live, Some ft) \<Rightarrow> table_inv ok keys ft \<and> flow_of keys ft = Map.empty \<and>
      ft_timeout_cycles ft = timeout \<and> seq' = seq + 1 \<and>
      mset live = {#Obj_table, Obj_hash, Obj_states#} \<and> parser_flow_table_free (Some ft) live = []"
  using assms
  by (auto simp: parser_flow_table_create_def parser_flow_table_free_def table_inv_def flow_of_def
      Let_def fun_eq_iff split: option.split)

end
