(* ===== verification/Buckets.thy ===== *)
theory Buckets
  imports Prelude
begin

text \<open>
  The hash buckets that steer packets to workers (\<open>src/parser.c\<close>, \<open>parser_bucket_*\<close>): 256 buckets,
  each with the worker that owns it and the time stamp of its last packet. The RX thread selects and
  stamps, the statistics thread moves idle buckets away from an overloaded worker.

  Worker numbers are \<open>unsigned\<close> arguments and are stored as \<open>uint8_t\<close>; the truncation is written out.
  Time stamps are 64-bit words with C's wrapping subtraction. Shown: the rebalancing pass moves
  exactly the first eight idle buckets of the overloaded worker, it never moves a bucket that was
  active within the threshold, also when its stamp is newer than the pass's own clock reading, and
  the packets of a flow keep their worker across any interleaving of RX and rebalancing as long as
  the flow is not idle.
\<close>

section \<open>Model\<close>

abbreviation (input) PARSER_NUM_BUCKETS :: nat where "PARSER_NUM_BUCKETS \<equiv> 256"
abbreviation (input) PARSER_MAX_BUCKETS_PER_PASS :: nat where "PARSER_MAX_BUCKETS_PER_PASS \<equiv> 8"

record bucket_table =
  bucket_worker :: "byte list"
  bucket_last_seen_tsc :: "u64 list"

text \<open>\<^term>\<open>None\<close> for zero workers: the remainder is undefined.\<close>

definition parser_bucket_table_init :: "nat \<Rightarrow> bucket_table option" where
  "parser_bucket_table_init num_workers =
     (if num_workers = 0 then None
      else Some \<lparr>bucket_worker = map (\<lambda>b. of_nat (b mod num_workers)) [0..<PARSER_NUM_BUCKETS],
                 bucket_last_seen_tsc = replicate PARSER_NUM_BUCKETS 0\<rparr>)"

definition parser_bucket_select_worker :: "bucket_table \<Rightarrow> u32 \<Rightarrow> u64 \<Rightarrow> (bucket_table \<times> nat) option" where
  "parser_bucket_select_worker t hash now_tsc = do {
     let bucket = unat (hash AND (of_nat PARSER_NUM_BUCKETS - 1));
     seen \<leftarrow> wr (bucket_last_seen_tsc t) bucket now_tsc;
     w \<leftarrow> rd (bucket_worker t) bucket;
     Some (t\<lparr>bucket_last_seen_tsc := seen\<rparr>, unat w) }"

text \<open>The loop of the rebalancing pass, from bucket \<open>b\<close> on with \<open>moved\<close> buckets moved so far.\<close>

function rebalance_loop ::
  "nat \<Rightarrow> nat \<Rightarrow> u64 \<Rightarrow> u64 \<Rightarrow> u64 list \<Rightarrow> nat \<Rightarrow> nat \<Rightarrow> byte list \<Rightarrow> (byte list \<times> nat) option" where
  "rebalance_loop overloaded underloaded now_tsc idle seen b moved worker =
     (if b < PARSER_NUM_BUCKETS \<and> moved < PARSER_MAX_BUCKETS_PER_PASS then do {
        w \<leftarrow> rd worker b;
        if unat w \<noteq> overloaded then rebalance_loop overloaded underloaded now_tsc idle seen (Suc b) moved worker
        else do {
          last \<leftarrow> rd seen b;
          if last \<ge> now_tsc \<or> now_tsc - last \<le> idle
          then rebalance_loop overloaded underloaded now_tsc idle seen (Suc b) moved worker
          else do {
            worker \<leftarrow> wr worker b (of_nat underloaded);
            rebalance_loop overloaded underloaded now_tsc idle seen (Suc b) (Suc moved) worker } } }
      else Some (worker, moved))"
  by pat_completeness auto
termination
  by (relation "measure (\<lambda>(ov, un, n, i, s, b, m, w). PARSER_NUM_BUCKETS - b)") auto

declare rebalance_loop.simps [simp del]

definition parser_bucket_rebalance ::
  "bucket_table \<Rightarrow> nat \<Rightarrow> nat \<Rightarrow> u64 \<Rightarrow> u64 \<Rightarrow> (bucket_table \<times> nat) option" where
  "parser_bucket_rebalance t overloaded underloaded now_tsc idle_threshold_cycles = do {
     (worker, moved) \<leftarrow> rebalance_loop overloaded underloaded now_tsc idle_threshold_cycles
                          (bucket_last_seen_tsc t) 0 0 (bucket_worker t);
     Some (t\<lparr>bucket_worker := worker\<rparr>, moved) }"

text \<open>\<open>counts_out\<close> is the caller's array; only its first \<open>num_workers\<close> cells are written.\<close>

definition count_bucket :: "nat \<Rightarrow> nat list \<Rightarrow> byte \<Rightarrow> nat list option" where
  "count_bucket num_workers counts w =
     (if unat w < num_workers then do { c \<leftarrow> rd counts (unat w); wr counts (unat w) (c + 1) }
      else Some counts)"

definition parser_bucket_get_distribution :: "bucket_table \<Rightarrow> nat \<Rightarrow> nat list \<Rightarrow> nat list option" where
  "parser_bucket_get_distribution t num_workers counts_out = do {
     counts \<leftarrow> c_memset counts_out 0 num_workers;
     fold_opt (count_bucket num_workers) counts (bucket_worker t) }"

section \<open>Invariant and reference\<close>

definition buckets_inv :: "nat \<Rightarrow> bucket_table \<Rightarrow> bool" where
  "buckets_inv n t \<longleftrightarrow>
     length (bucket_worker t) = PARSER_NUM_BUCKETS \<and>
     length (bucket_last_seen_tsc t) = PARSER_NUM_BUCKETS \<and>
     (\<forall>w \<in> set (bucket_worker t). unat w < n)"

definition bucket_of :: "u32 \<Rightarrow> nat" where
  "bucket_of hash = unat hash mod PARSER_NUM_BUCKETS"

text \<open>A bucket may move if its owner is the overloaded worker and it has been idle.\<close>

definition movable :: "bucket_table \<Rightarrow> nat \<Rightarrow> u64 \<Rightarrow> u64 \<Rightarrow> nat \<Rightarrow> bool" where
  "movable t overloaded now idle b \<longleftrightarrow>
     unat (bucket_worker t ! b) = overloaded \<and>
     unat (bucket_last_seen_tsc t ! b) + unat idle < unat now"

definition moved_buckets :: "bucket_table \<Rightarrow> nat \<Rightarrow> u64 \<Rightarrow> u64 \<Rightarrow> nat list" where
  "moved_buckets t overloaded now idle =
     take PARSER_MAX_BUCKETS_PER_PASS (filter (movable t overloaded now idle) [0..<PARSER_NUM_BUCKETS])"

section \<open>Facts\<close>

lemma unat_and_255: "unat (hash AND (of_nat 256 - 1) :: u32) = bucket_of hash"
proof -
  have "hash AND 255 = take_bit 8 hash" by (simp add: take_bit_eq_mask mask_numeral)
  then show ?thesis by (simp add: bucket_of_def take_bit_eq_mod unat_mod)
qed

lemma bucket_of_less [simp]: "bucket_of hash < 256"
  by (simp add: bucket_of_def)

lemma idle_test:
  fixes last now idle :: u64
  shows "(last \<ge> now \<or> now - last \<le> idle) \<longleftrightarrow> \<not> unat last + unat idle < unat now"
proof (cases "last \<ge> now")
  case True
  then show ?thesis by (simp add: word_le_nat_alt)
next
  case False
  then have "unat (now - last) = unat now - unat last" by (intro unat_sub) simp
  then show ?thesis using False by (auto simp: word_le_nat_alt)
qed

lemma select_spec:
  assumes "buckets_inv n t"
  shows "parser_bucket_select_worker t hash now =
    Some (t\<lparr>bucket_last_seen_tsc := (bucket_last_seen_tsc t)[bucket_of hash := now]\<rparr>,
          unat (bucket_worker t ! bucket_of hash))"
  using assms
  by (simp add: parser_bucket_select_worker_def unat_and_255 [simplified] Let_def buckets_inv_def mem_simps)

lemma rebalance_loop_spec:
  assumes "length worker = 256" "length seen = 256" "b \<le> 256" "moved \<le> 8"
  shows "rebalance_loop ov un now idle seen b moved worker =
    (let bs = take (8 - moved) (filter (\<lambda>b. unat (worker ! b) = ov \<and>
            unat (seen ! b) + unat idle < unat now) [b..<256]) in
     Some (map (\<lambda>i. if i \<in> set bs then of_nat un else worker ! i) [0..<256], moved + length bs))"
  using assms
proof (induction ov un now idle seen b moved worker rule: rebalance_loop.induct)
  case (1 ov un now idle seen b moved worker)
  let ?P = "\<lambda>w b. unat (w ! b :: byte) = ov \<and> unat (seen ! b) + unat idle < unat now"
  have same: "map (\<lambda>i. worker ! i) [0..<256] = worker" using "1.prems"(1) map_nth [of worker] by simp
  show ?case
  proof (cases "b < 256 \<and> moved < 8")
    case False
    then show ?thesis using "1.prems" same by (auto simp: rebalance_loop.simps [of ov])
  next
    case True
    then have upt: "[b..<256] = b # [Suc b..<256]" by (simp add: upt_rec)
    show ?thesis
    proof (cases "?P worker b")
      case False
      then have "rebalance_loop ov un now idle seen b moved worker =
          rebalance_loop ov un now idle seen (Suc b) moved worker"
        using True "1.prems" by (auto simp: rebalance_loop.simps [of ov un now idle seen b] mem_simps idle_test)
      moreover have "filter (?P worker) [b..<256] = filter (?P worker) [Suc b..<256]"
        unfolding upt using False by auto
      ultimately show ?thesis
        using "1.IH"(1,2) [of "worker ! b"] True False "1.prems" by (auto simp: mem_simps idle_test)
    next
      case P: True
      let ?w = "worker[b := of_nat un]"
      have step: "rebalance_loop ov un now idle seen b moved worker =
          rebalance_loop ov un now idle seen (Suc b) (Suc moved) ?w"
        using True P "1.prems" by (simp add: rebalance_loop.simps [of ov un now idle seen b] mem_simps idle_test)
      have f: "filter (?P ?w) [Suc b..<256] = filter (?P worker) [Suc b..<256]"
        by (intro filter_cong) auto
      let ?bs = "take (8 - Suc moved) (filter (?P worker) [Suc b..<256])"
      have IH: "rebalance_loop ov un now idle seen (Suc b) (Suc moved) ?w =
          Some (map (\<lambda>i. if i \<in> set ?bs then of_nat un else ?w ! i) [0..<256], Suc moved + length ?bs)"
        using "1.IH"(3) [of "worker ! b" "seen ! b" ?w] True P "1.prems"
        by (simp add: mem_simps idle_test f Let_def)
      have bs: "take (8 - moved) (filter (?P worker) [b..<256]) = b # ?bs"
        unfolding upt using P True by (simp add: Suc_diff_Suc [symmetric] del: upt_Suc)
      have "(if i \<in> set ?bs then of_nat un else ?w ! i) =
          (if i \<in> set (b # ?bs) then of_nat un else worker ! i)" if "i < 256" for i
        using that "1.prems"(1) by (auto simp: nth_list_update)
      then show ?thesis unfolding step IH bs Let_def by (simp del: upt_Suc)
    qed
  qed
qed

lemma rebalance_spec:
  assumes "buckets_inv n t"
  shows "parser_bucket_rebalance t ov un now idle =
    (let bs = moved_buckets t ov now idle in
     Some (t\<lparr>bucket_worker := map (\<lambda>b. if b \<in> set bs then of_nat un else bucket_worker t ! b)
                [0..<PARSER_NUM_BUCKETS]\<rparr>, length bs))"
  using assms rebalance_loop_spec [of "bucket_worker t" "bucket_last_seen_tsc t" 0 0 ov un now idle]
  by (simp add: parser_bucket_rebalance_def moved_buckets_def movable_def [abs_def] buckets_inv_def Let_def)

lemma init_inv:
  assumes "0 < n" "n \<le> 256"
  shows "\<exists>t. parser_bucket_table_init n = Some t \<and> buckets_inv n t"
proof -
  have "unat (of_nat (b mod n) :: byte) < n" for b
  proof -
    have "b mod n < n" using assms by simp
    moreover have "b mod n < 256" using calculation assms(2) by linarith
    ultimately show ?thesis by (subst unat_byte_of_nat) simp_all
  qed
  then show ?thesis using assms by (auto simp: parser_bucket_table_init_def buckets_inv_def)
qed

lemma select_inv:
  assumes "buckets_inv n t" "parser_bucket_select_worker t hash now = Some (t', w)"
  shows "buckets_inv n t' \<and> w < n"
  using assms by (auto simp: select_spec buckets_inv_def)

lemma rebalance_inv:
  assumes inv: "buckets_inv n t" and "un < n" "n \<le> 256"
    and r: "parser_bucket_rebalance t ov un now idle = Some (t', moved)"
  shows "buckets_inv n t'"
proof -
  have "unat (of_nat un :: byte) < n" using assms(2,3) by (simp add: unat_byte_of_nat)
  then show ?thesis
    using inv r by (auto simp: rebalance_spec [OF inv] buckets_inv_def Let_def)
qed

lemma rebalance_keeps_stamps:
  assumes "buckets_inv n t" "parser_bucket_rebalance t ov un now idle = Some (t', moved)"
  shows "bucket_last_seen_tsc t' = bucket_last_seen_tsc t"
  using assms by (auto simp: rebalance_spec Let_def)

lemma rebalance_active_stays:
  assumes "buckets_inv n t" "parser_bucket_rebalance t ov un now idle = Some (t', moved)"
    and "b < 256" "unat now \<le> unat (bucket_last_seen_tsc t ! b) + unat idle"
  shows "bucket_worker t' ! b = bucket_worker t ! b"
proof -
  have "b \<notin> set (moved_buckets t ov now idle)"
    using assms(4) by (auto simp: moved_buckets_def movable_def dest!: in_set_takeD)
  then show ?thesis using assms(1-3) by (auto simp: rebalance_spec Let_def)
qed

section \<open>The interface the RX thread relies on\<close>

text \<open>A selection is defined, keeps the invariant and names one of the \<open>n\<close> workers.\<close>

locale worker_steering =
  fixes inv :: "nat \<Rightarrow> 't \<Rightarrow> bool"
    and select :: "'t \<Rightarrow> u32 \<Rightarrow> u64 \<Rightarrow> ('t \<times> nat) option"
  assumes select_ok: "inv n t \<Longrightarrow> \<exists>t' w. select t h now = Some (t', w) \<and> inv n t' \<and> w < n"
begin

lemma select_all:
  assumes "inv n t"
  shows "\<exists>t' ws. fold_opt (\<lambda>(t, ws) h. do { (t', w) \<leftarrow> select t h now; Some (t', ws @ [w]) })
      (t, []) hs = Some (t', ws) \<and> inv n t' \<and> length ws = length hs \<and> (\<forall>w \<in> set ws. w < n)"
proof (induction hs rule: rev_induct)
  case Nil
  then show ?case using assms by simp
next
  case (snoc h hs)
  then obtain t1 ws where "fold_opt (\<lambda>(t, ws) h. do { (t', w) \<leftarrow> select t h now; Some (t', ws @ [w]) })
      (t, []) hs = Some (t1, ws)" "inv n t1" "length ws = length hs" "\<forall>w \<in> set ws. w < n" by blast
  moreover obtain t2 w where "select t1 h now = Some (t2, w)" "inv n t2" "w < n"
    using select_ok [OF \<open>inv n t1\<close>] by blast
  ultimately show ?case by (auto simp: fold_opt_append)
qed

end

interpretation buckets: worker_steering buckets_inv parser_bucket_select_worker
proof unfold_locales
  fix n t h now
  assume "buckets_inv n t"
  then show "\<exists>t' w. parser_bucket_select_worker t h now = Some (t', w) \<and> buckets_inv n t' \<and> w < n"
    using select_spec [of n t h now] select_inv [of n t h now] by blast
qed

section \<open>Interleavings of RX and rebalancing\<close>

text \<open>
  One step of the shared table: the RX thread selects a worker, or the statistics thread runs a
  pass. \<open>steer_run n t evs t'\<close>: from \<open>t\<close>, the events happen in this order and lead to \<open>t'\<close>.
\<close>

datatype steer_event =
  Rx_select u32 u64 nat
| Rebalance_pass nat nat u64 u64 nat

inductive steer_run :: "nat \<Rightarrow> bucket_table \<Rightarrow> steer_event list \<Rightarrow> bucket_table \<Rightarrow> bool" for n where
  steer_none: "steer_run n t [] t"
| steer_select: "parser_bucket_select_worker t hash now = Some (t1, w) \<Longrightarrow> steer_run n t1 evs t' \<Longrightarrow>
    steer_run n t (Rx_select hash now w # evs) t'"
| steer_pass: "un < n \<Longrightarrow> parser_bucket_rebalance t ov un now idle = Some (t1, moved) \<Longrightarrow>
    steer_run n t1 evs t' \<Longrightarrow> steer_run n t (Rebalance_pass ov un now idle moved # evs) t'"

inductive_cases steer_run_ConsE: "steer_run n t (e # evs) t'"

text \<open>
  A bucket stays warm if no pass finds it idle: every pass reads a clock at most its threshold after
  the bucket's last packet, \<open>seen\<close> being that packet's time stamp.
\<close>

fun stays_warm :: "nat \<Rightarrow> u64 \<Rightarrow> steer_event list \<Rightarrow> bool" where
  "stays_warm b seen [] = True"
| "stays_warm b seen (Rx_select hash now w # evs) =
     stays_warm b (if bucket_of hash = b then now else seen) evs"
| "stays_warm b seen (Rebalance_pass ov un now idle moved # evs) =
     (unat now \<le> unat seen + unat idle \<and> stays_warm b seen evs)"

lemma warm_bucket_keeps_worker:
  assumes "steer_run n t evs t'" "buckets_inv n t" "n \<le> 256" "b < 256"
    and "stays_warm b (bucket_last_seen_tsc t ! b) evs"
  shows "buckets_inv n t' \<and> bucket_worker t' ! b = bucket_worker t ! b \<and>
    (\<forall>hash now w. Rx_select hash now w \<in> set evs \<and> bucket_of hash = b \<longrightarrow>
       w = unat (bucket_worker t ! b))"
  using assms
proof (induction rule: steer_run.induct)
  case (steer_none t)
  then show ?case by simp
next
  case (steer_select t hash now t1 w evs t')
  have t1: "t1 = t\<lparr>bucket_last_seen_tsc := (bucket_last_seen_tsc t)[bucket_of hash := now]\<rparr>"
    "w = unat (bucket_worker t ! bucket_of hash)"
    using steer_select.hyps(1) steer_select.prems(1) by (auto simp: select_spec)
  have "bucket_last_seen_tsc t1 ! b = (if bucket_of hash = b then now else bucket_last_seen_tsc t ! b)"
    using t1 steer_select.prems(1,3) by (auto simp: buckets_inv_def)
  then show ?case
    using steer_select.IH select_inv [OF steer_select.prems(1) steer_select.hyps(1)]
      steer_select.prems t1 by auto
next
  case (steer_pass un t ov now idle t1 moved evs t')
  note r = steer_pass.hyps(2) and inv = steer_pass.prems(1)
  have "bucket_worker t1 ! b = bucket_worker t ! b"
    using rebalance_active_stays [OF inv r steer_pass.prems(3)] steer_pass.prems(4) by simp
  then show ?case
    using steer_pass.IH rebalance_inv [OF inv steer_pass.hyps(1) steer_pass.prems(2) r]
      rebalance_keeps_stamps [OF inv r] steer_pass.prems by auto
qed

section \<open>The distribution\<close>

lemma count_buckets:
  assumes "n \<le> length counts" "\<forall>w \<in> set ws. unat w < n"
  shows "\<exists>c. fold_opt (count_bucket n) counts ws = Some c \<and> length c = length counts \<and>
    (\<forall>i < length counts. c ! i = counts ! i + count_list (map unat ws) i)"
  using assms
proof (induction ws arbitrary: counts)
  case (Cons w ws)
  let ?c = "counts[unat w := counts ! unat w + 1]"
  have w: "unat w < n" "unat w < length counts" using Cons.prems by auto
  obtain c where "fold_opt (count_bucket n) ?c ws = Some c" "length c = length counts"
    "\<forall>i < length counts. c ! i = ?c ! i + count_list (map unat ws) i"
    using Cons.IH [of ?c] Cons.prems by auto
  moreover have "count_bucket n counts w = Some ?c" using w by (simp add: count_bucket_def mem_simps)
  ultimately show ?case using w by (auto simp: nth_list_update)
qed simp

lemma distribution_defined:
  assumes "buckets_inv n t" "n \<le> length out"
  shows "\<exists>c. parser_bucket_get_distribution t n out = Some c"
  using count_buckets [of n "replicate n 0 @ drop n out" "bucket_worker t"] assms
  by (auto simp: parser_bucket_get_distribution_def mem_simps buckets_inv_def)

section \<open>Properties\<close>

text \<open>
  C27: a rebalancing pass moves exactly the first eight buckets, in index order, that belong to the
  overloaded worker and whose last packet lies more than the threshold before the pass's clock
  reading; it leaves every other bucket and all time stamps alone, and returns how many it moved.
\<close>

theorem rebalance_moves_first_idle:
  assumes "buckets_inv n t"
  shows "parser_bucket_rebalance t overloaded underloaded now idle =
    (let bs = moved_buckets t overloaded now idle in
     Some (t\<lparr>bucket_worker :=
               map (\<lambda>b. if b \<in> set bs then of_nat underloaded else bucket_worker t ! b)
                 [0..<PARSER_NUM_BUCKETS]\<rparr>, length bs))"
  using assms by (rule rebalance_spec)

text \<open>Two workers; worker 0 owns the even buckets, of which only bucket 4 is hot.\<close>

definition demo_buckets :: bucket_table where
  "demo_buckets = \<lparr>bucket_worker = map (\<lambda>b. of_nat (b mod 2)) [0..<256],
     bucket_last_seen_tsc = (replicate 256 0)[4 := 1000]\<rparr>"

lemma demo_buckets_inv: "buckets_inv 2 demo_buckets"
proof -
  have "unat (of_nat (b mod 2) :: byte) < 2" for b :: nat
    by (cases "even b") (simp_all add: unat_byte_of_nat mod2_eq_if)
  then show ?thesis by (auto simp: buckets_inv_def demo_buckets_def)
qed

lemma demo_moved:
  assumes "now \<in> {900, 1000}"
  shows "moved_buckets demo_buckets 0 now 200 = [0, 2, 6, 8, 10, 12, 14, 16]"
proof -
  have "[0..<256] = [0..<17] @ [17..<256 :: nat]" using upt_add_eq_append [of 0 17 239] by simp
  moreover have "filter (movable demo_buckets 0 now 200) [0..<17] = [0, 2, 6, 8, 10, 12, 14, 16]"
    using assms by (auto simp: upt_rec movable_def demo_buckets_def nth_list_update)
  ultimately show ?thesis by (simp add: moved_buckets_def del: upt_Suc)
qed

theorem rebalance_moves_first_idle_witness:
  "buckets_inv 2 demo_buckets \<and>
   (\<exists>t'. parser_bucket_rebalance demo_buckets 0 1 900 200 = Some (t', 8) \<and>
      take 6 (bucket_worker t') = [1, 1, 1, 1, 0, 1])"
proof -
  have six: "take 6 [0..<256 :: nat] = [0, 1, 2, 3, 4, 5]"
    by (subst take_upt) (simp_all add: upt_rec [of _ 6])
  have "take 6 (map (\<lambda>b. if b \<in> set [0, 2, 6, 8, 10, 12, 14, 16] then of_nat 1
      else bucket_worker demo_buckets ! b) [0..<256]) = [1, 1, 1, 1, 0, 1 :: byte]"
    unfolding take_map six by (simp add: demo_buckets_def)
  then show ?thesis
    using rebalance_moves_first_idle [OF demo_buckets_inv, of 0 1 900 200] demo_buckets_inv demo_moved [of 900]
    by (simp add: Let_def)
qed

text \<open>
  C26: flow affinity. In every interleaving of packets and rebalancing passes, all packets of a
  bucket go to the worker that owned it at the start, as long as no pass reads its clock more than
  the threshold after the bucket's latest packet. A packet stamped after the pass took its clock
  reading counts as activity: the unsigned subtraction does not wrap into a huge idle time.
\<close>

theorem steering_affinity:
  assumes "steer_run n t evs t'" and "buckets_inv n t" and "n \<le> 256"
    and "stays_warm (bucket_of hash) (bucket_last_seen_tsc t ! bucket_of hash) evs"
  shows "buckets_inv n t' \<and> bucket_worker t' ! bucket_of hash = bucket_worker t ! bucket_of hash \<and>
    (\<forall>hash' now w. Rx_select hash' now w \<in> set evs \<and> bucket_of hash' = bucket_of hash \<longrightarrow>
       w = unat (bucket_worker t ! bucket_of hash))"
  using assms by (intro warm_bucket_keeps_worker) simp_all

theorem steering_affinity_witness:
  "\<exists>t'. steer_run 2 demo_buckets [Rx_select 260 1000 0, Rebalance_pass 0 1 900 200 8, Rx_select 4 1100 0] t' \<and>
     bucket_worker t' ! 4 = 0"
proof -
  let ?t1 = "demo_buckets\<lparr>bucket_last_seen_tsc := (bucket_last_seen_tsc demo_buckets)[4 := 1000]\<rparr>"
  have b: "bucket_of 260 = 4" "bucket_of 4 = 4" by (simp_all add: bucket_of_def)
  have w: "bucket_worker demo_buckets ! 4 = 0" by (simp add: demo_buckets_def)
  have same: "?t1 = demo_buckets" by (simp add: demo_buckets_def)
  have s1: "parser_bucket_select_worker demo_buckets 260 1000 = Some (demo_buckets, 0)"
    unfolding select_spec [OF demo_buckets_inv] b same w by simp
  obtain t2 where s2: "parser_bucket_rebalance demo_buckets 0 1 900 200 = Some (t2, 8)"
    "buckets_inv 2 t2"
    using rebalance_spec [OF demo_buckets_inv, of 0 1 900 200]
      rebalance_inv [OF demo_buckets_inv, of 1 0 900 200]
      arg_cong [of _ _ length, OF demo_moved [of 900]]
    by (auto simp: Let_def)
  have w2: "bucket_worker t2 ! 4 = 0"
    using rebalance_active_stays [OF demo_buckets_inv s2(1), of 4] w
    by (simp add: demo_buckets_def)
  obtain t3 where s3: "parser_bucket_select_worker t2 4 1100 = Some (t3, 0)"
    using select_spec [OF s2(2), of 4 1100] b w2 by simp
  have run: "steer_run 2 demo_buckets
      [Rx_select 260 1000 0, Rebalance_pass 0 1 900 200 8, Rx_select 4 1100 0] t3"
    using s1 s2(1) s3 by (auto intro!: steer_run.intros)
  have "stays_warm (bucket_of 4) (bucket_last_seen_tsc demo_buckets ! bucket_of 4)
      [Rx_select 260 1000 0, Rebalance_pass 0 1 900 200 8, Rx_select 4 1100 0]"
    by (simp add: b)
  from steering_affinity [OF run demo_buckets_inv _ this] run w show ?thesis
    unfolding b by auto
qed

text \<open>
  The workers a configuration of \<open>n\<close> workers can select. Initialisation is defined and keeps
  every bucket below \<open>n\<close>; every selection is defined and returns a worker below \<open>n\<close>, so that the RX
  thread's per-worker arrays are never overrun; and passes between workers below \<open>n\<close> keep it so.
\<close>

lemma selected_worker_in_range:
  assumes "0 < n" and "n \<le> 256"
  shows "\<exists>t. parser_bucket_table_init n = Some t \<and>
    (\<forall>evs t' hash now. steer_run n t evs t' \<longrightarrow>
       (\<exists>t2 w. parser_bucket_select_worker t' hash now = Some (t2, w) \<and> w < n))"
proof -
  obtain t where t: "parser_bucket_table_init n = Some t" "buckets_inv n t"
    using init_inv [OF assms] by blast
  have "buckets_inv n t'" if "steer_run n t evs t'" for evs t'
    using that t(2) by induction (auto dest: select_inv rebalance_inv [OF _ _ assms(2)])
  then show ?thesis using t(1) buckets.select_ok by blast
qed

text \<open>
  The diagnostic distribution is exact: for an output array of at least \<open>n\<close> cells, cell \<open>w\<close>
  receives the number of buckets worker \<open>w\<close> owns, the cells beyond \<open>n\<close> keep their values, and the
  counts of the \<open>n\<close> workers add up to the number of buckets.
\<close>

lemma distribution_exact:
  assumes "buckets_inv n t" and "n \<le> length out"
  shows "\<exists>c. parser_bucket_get_distribution t n out = Some c \<and> length c = length out \<and>
    (\<forall>w < n. c ! w = length (filter (\<lambda>b. unat b = w) (bucket_worker t))) \<and>
    (\<forall>w. n \<le> w \<and> w < length out \<longrightarrow> c ! w = out ! w) \<and>
    sum_list (take n c) = PARSER_NUM_BUCKETS"
proof -
  let ?ws = "map unat (bucket_worker t)"
  obtain c where c: "parser_bucket_get_distribution t n out = Some c" "length c = length out"
    "\<forall>i < length out. c ! i = (replicate n 0 @ drop n out) ! i + count_list ?ws i"
    using count_buckets [of n "replicate n 0 @ drop n out" "bucket_worker t"] assms
    by (auto simp: parser_bucket_get_distribution_def mem_simps buckets_inv_def)
  have none: "count_list ?ws w = 0" if "n \<le> w" for w
    using assms(1) that by (auto simp: buckets_inv_def count_list_0_iff)
  have low: "c ! w = count_list ?ws w" if "w < n" for w
    using c(3) that assms(2) by (simp add: nth_append)
  have high: "c ! w = out ! w" if "n \<le> w" "w < length out" for w
    using c(3) that none by (simp add: nth_append)
  have "take n c = map (count_list ?ws) [0..<n]"
    using low c(2) assms(2) by (intro nth_equalityI) auto
  moreover have "sum_list (map (count_list ?ws) [0..<n]) = length ?ws"
  proof -
    have "set ?ws \<subseteq> {0..<n}" using assms(1) by (auto simp: buckets_inv_def)
    then have "sum (count_list ?ws) {0..<n} = length ?ws" by (rule sum_count_set) simp
    then show ?thesis by (simp add: interv_sum_list_conv_sum_set_nat)
  qed
  moreover have "count_list ?ws w = length (filter (\<lambda>b. unat b = w) (bucket_worker t))" for w
    by (induction "bucket_worker t" rule: list.induct) (auto simp: count_list_eq_length_filter filter_map o_def eq_commute)
  ultimately show ?thesis using c(1,2) low high assms(1) by (auto simp: buckets_inv_def)
qed

end
