(* ===== verification/Dpi_Rules.thy ===== *)
theory Dpi_Rules
  imports Hyperdpi_Types
begin

text \<open>
  The rule file of the DPI engine (\<open>src/dpi_engine.c\<close>): \<open>trim\<close>, \<open>parse_line\<close> and the reading loop of
  \<open>dpi_engine_load_rules\<close>.

  A C string is its bytes up to the terminating NUL. The in-place edits of the sources only cut a
  string at its ends or at a separator, so each string stands alone. Reading follows \<open>fgets\<close> on a
  buffer of 512 bytes: a line of the file, or its next 511 bytes.
\<close>

section \<open>Model\<close>

abbreviation (input) is_blank :: "byte \<Rightarrow> bool" where
  "is_blank b \<equiv> b = 32 \<or> b = 9"

abbreviation (input) is_space :: "byte \<Rightarrow> bool" where
  "is_space b \<equiv> b = 32 \<or> b = 9 \<or> b = 13 \<or> b = 10"

text \<open>\<open>while (end > s && ...) *end-- = '\\0'\<close>: the first character is never cut off.\<close>

fun trim_end :: "byte list \<Rightarrow> byte list" where
  "trim_end s = (if 1 < length s \<and> is_space (last s) then trim_end (butlast s) else s)"

declare trim_end.simps [simp del]

definition trim :: "byte list \<Rightarrow> byte list" where
  "trim s = (let s = dropWhile (\<lambda>b. is_blank b) s in if s = [] then s else trim_end s)"

record rule_line =
  rule_type :: traffic_type
  rule_pattern :: "byte list"
  rule_action :: packet_action

text \<open>\<open>strtok_r\<close> with the delimiter \<open>','\<close>: the token, if any, and the rest for the next call.\<close>

definition c_strtok :: "byte list \<Rightarrow> byte list option \<times> byte list" where
  "c_strtok s =
     (let s = dropWhile (\<lambda>b. b = 44) s in
      if s = [] then (None, [])
      else (Some (takeWhile (\<lambda>b. b \<noteq> 44) s), drop 1 (dropWhile (\<lambda>b. b \<noteq> 44) s)))"

definition c_strcasecmp_eq :: "byte list \<Rightarrow> byte list \<Rightarrow> bool" where
  "c_strcasecmp_eq a b \<longleftrightarrow> map c_tolower a = map c_tolower b"

definition parse_line :: "byte list \<Rightarrow> rule_line option" where
  "parse_line line =
     (let (type_s, save) = c_strtok line;
          (pattern_s, save) = c_strtok save;
          (action_s, save) = c_strtok save
      in do {
        type_s \<leftarrow> type_s;
        pattern_s \<leftarrow> pattern_s;
        action_s \<leftarrow> action_s;
        let type_s = trim type_s;
        let pattern_s = trim pattern_s;
        let action_s = trim action_s;
        type \<leftarrow> (if c_strcasecmp_eq type_s (ascii ''HTTP'') then Some TRAFFIC_HTTP
                else if c_strcasecmp_eq type_s (ascii ''HTTPS'') then Some TRAFFIC_HTTPS
                else None);
        action \<leftarrow> (if c_strcasecmp_eq action_s (ascii ''DROP'') then Some ACTION_DROP
                  else if c_strcasecmp_eq action_s (ascii ''FORWARD'') then Some ACTION_FORWARD
                  else None);
        Some \<lparr>rule_type = type, rule_pattern = take 255 pattern_s, rule_action = action\<rparr> })"

text \<open>One \<open>fgets(linebuf, 512, f)\<close>: the string in the buffer and the rest of the file.\<close>

definition line_len :: "byte list \<Rightarrow> nat" where
  "line_len content =
     (let n = length (takeWhile (\<lambda>b. b \<noteq> 10) content) in min 511 (min (length content) (n + 1)))"

definition c_fgets :: "byte list \<Rightarrow> (byte list \<times> byte list) option" where
  "c_fgets content =
     (if content = [] then None
      else Some (takeWhile (\<lambda>b. b \<noteq> 0) (take (line_len content) content),
                 drop (line_len content) content))"

lemma line_len_pos: "content \<noteq> [] \<Longrightarrow> 0 < line_len content"
  by (simp add: line_len_def Let_def)

lemma c_fgets_shorter: "c_fgets content = Some (l, rest) \<Longrightarrow> length rest < length content"
  using line_len_pos by (auto simp: c_fgets_def split: if_splits)

text \<open>
  The reading loop. \<open>realloc_ok cap\<close> says whether growing the array to \<open>cap\<close> lines succeeds;
  a failure aborts the loading (\<^term>\<open>None\<close>). Malformed lines are skipped.
\<close>

function read_rules :: "(nat \<Rightarrow> bool) \<Rightarrow> nat \<Rightarrow> rule_line list \<Rightarrow> byte list \<Rightarrow> rule_line list option" where
  "read_rules realloc_ok cap lines content =
     (case c_fgets content of
        None \<Rightarrow> Some lines
      | Some (linebuf, rest) \<Rightarrow>
          let l = trim linebuf in
          if l = [] \<or> hd l = 35 then read_rules realloc_ok cap lines rest
          else
            let cap' = (if length lines = cap then (if cap \<noteq> 0 then cap * 2 else 16) else cap) in
            if length lines = cap \<and> \<not> realloc_ok cap' then None
            else case parse_line l of
                   Some r \<Rightarrow> read_rules realloc_ok cap' (lines @ [r]) rest
                 | None \<Rightarrow> read_rules realloc_ok cap' lines rest)"
  by pat_completeness auto
termination
  by (relation "measure (\<lambda>(ok, cap, lines, content). length content)")
    (auto dest: c_fgets_shorter)

declare read_rules.simps [simp del]

section \<open>Facts\<close>

text \<open>A rule as a line of the file.\<close>

definition type_name :: "traffic_type \<Rightarrow> byte list" where
  "type_name ty = (if ty = TRAFFIC_HTTP then ascii ''HTTP'' else ascii ''HTTPS'')"

definition action_name :: "packet_action \<Rightarrow> byte list" where
  "action_name a = (if a = ACTION_DROP then ascii ''DROP'' else ascii ''FORWARD'')"

definition rule_text :: "rule_line \<Rightarrow> byte list" where
  "rule_text r = type_name (rule_type r) @ [44] @ rule_pattern r @ [44] @ action_name (rule_action r)"

text \<open>
  The rules a file can express: HTTP or HTTPS, and a pattern of at most 255 bytes without commas,
  line breaks or NULs that neither starts nor ends with a blank.
\<close>

definition rule_ok :: "rule_line \<Rightarrow> bool" where
  "rule_ok r \<longleftrightarrow>
     rule_type r \<in> {TRAFFIC_HTTP, TRAFFIC_HTTPS} \<and> rule_pattern r \<noteq> [] \<and>
     length (rule_pattern r) \<le> 255 \<and> set (rule_pattern r) \<inter> {0, 10, 13, 44} = {} \<and>
     \<not> is_blank (hd (rule_pattern r)) \<and> \<not> is_space (last (rule_pattern r))"

lemma trim_id: "s \<noteq> [] \<Longrightarrow> \<not> is_blank (hd s) \<Longrightarrow> \<not> is_space (last s) \<Longrightarrow> trim s = s"
  by (cases s) (simp_all add: trim_def trim_end.simps)

lemma trim_newline:
  assumes "s \<noteq> []" "\<not> is_blank (hd s)" "\<not> is_space (last s)"
  shows "trim (s @ [10]) = s"
proof -
  have "trim (s @ [10]) = trim_end (s @ [10])"
    using assms by (cases s) (simp_all add: trim_def)
  also have "\<dots> = trim_end s" using assms by (simp add: trim_end.simps [of "s @ [10]"])
  also have "\<dots> = s" using assms by (simp add: trim_end.simps)
  finally show ?thesis .
qed

lemma c_strtok_field:
  assumes "f \<noteq> []" "44 \<notin> set f"
  shows "c_strtok (f @ 44 # rest) = (Some f, rest)" and "c_strtok f = (Some f, [])"
proof -
  have d: "dropWhile (\<lambda>b. b = 44) (f @ 44 # rest) = f @ 44 # rest" "dropWhile (\<lambda>b. b = 44) f = f"
    using assms by (cases f; auto)+
  have t: "takeWhile (\<lambda>b. b \<noteq> 44) (f @ 44 # rest) = f"
    "dropWhile (\<lambda>b. b \<noteq> 44) (f @ 44 # rest) = 44 # rest"
    "takeWhile (\<lambda>b. b \<noteq> 44) f = f" "dropWhile (\<lambda>b. b \<noteq> 44) f = []"
    using assms(2) by (induction f) auto
  show "c_strtok (f @ 44 # rest) = (Some f, rest)"
    unfolding c_strtok_def Let_def d(1) t(1,2) by simp
  show "c_strtok f = (Some f, [])"
    unfolding c_strtok_def Let_def d(2) t(3,4) using assms(1) by simp
qed

lemma name_facts:
  "type_name ty \<noteq> []" "44 \<notin> set (type_name ty)" "trim (type_name ty) = type_name ty"
  "action_name a \<noteq> []" "44 \<notin> set (action_name a)" "trim (action_name a) = action_name a"
  by (auto simp: type_name_def action_name_def ascii_def trim_def trim_end.simps)

lemma parse_rule_text:
  assumes "rule_ok r"
  shows "parse_line (rule_text r) = Some r"
proof -
  have p: "rule_pattern r \<noteq> []" "44 \<notin> set (rule_pattern r)" "trim (rule_pattern r) = rule_pattern r"
    "take 255 (rule_pattern r) = rule_pattern r"
    using assms by (auto simp: rule_ok_def intro!: trim_id)
  have ty: "(if c_strcasecmp_eq (type_name (rule_type r)) (ascii ''HTTP'') then Some TRAFFIC_HTTP
      else if c_strcasecmp_eq (type_name (rule_type r)) (ascii ''HTTPS'') then Some TRAFFIC_HTTPS
      else None) = Some (rule_type r)"
    using assms by (auto simp: rule_ok_def type_name_def c_strcasecmp_eq_def ascii_def c_tolower_def)
  have ac: "(if c_strcasecmp_eq (action_name (rule_action r)) (ascii ''DROP'') then Some ACTION_DROP
      else if c_strcasecmp_eq (action_name (rule_action r)) (ascii ''FORWARD'') then Some ACTION_FORWARD
      else None) = Some (rule_action r)"
    by (cases "rule_action r") (auto simp: action_name_def c_strcasecmp_eq_def ascii_def c_tolower_def)
  have "c_strtok (rule_text r) =
      (Some (type_name (rule_type r)), rule_pattern r @ 44 # action_name (rule_action r))"
    unfolding rule_text_def using c_strtok_field(1) [OF name_facts(1,2)] by simp
  then show ?thesis
    using c_strtok_field(1) [OF p(1,2)] c_strtok_field(2) [OF name_facts(4,5)] p(3,4) ty ac
    by (simp add: parse_line_def name_facts)
qed

text \<open>A line of the file that fits the buffer, with its line feed.\<close>

lemma c_fgets_line:
  assumes "10 \<notin> set l" "0 \<notin> set l" "length l < 511"
  shows "c_fgets (l @ 10 # rest) = Some (l @ [10], rest)"
proof -
  have "takeWhile (\<lambda>b. b \<noteq> 10) (l @ 10 # rest) = l" using assms(1) by (induction l) auto
  then have n: "line_len (l @ 10 # rest) = length l + 1" using assms(3) by (simp add: line_len_def)
  have "takeWhile (\<lambda>b. b \<noteq> 0) (l @ [10]) = l @ [10]" using assms(2) by (induction l) auto
  then show ?thesis by (simp add: c_fgets_def n)
qed

lemma rule_text_facts:
  assumes "rule_ok r"
  shows "rule_text r \<noteq> []" "10 \<notin> set (rule_text r)" "0 \<notin> set (rule_text r)"
    "length (rule_text r) < 511" "trim (rule_text r @ [10]) = rule_text r" "hd (rule_text r) \<noteq> 35"
proof -
  have h: "hd (rule_text r) = 72" by (simp add: rule_text_def type_name_def ascii_def)
  have l: "last (rule_text r) \<in> {80, 68}" by (simp add: rule_text_def action_name_def ascii_def)
  show ne: "rule_text r \<noteq> []" by (simp add: rule_text_def)
  show "10 \<notin> set (rule_text r)" "0 \<notin> set (rule_text r)"
    using assms by (auto simp: rule_text_def rule_ok_def type_name_def action_name_def ascii_def)
  show "length (rule_text r) < 511"
    using assms by (simp add: rule_text_def rule_ok_def type_name_def action_name_def ascii_def)
  show "trim (rule_text r @ [10]) = rule_text r" using h l by (intro trim_newline [OF ne]) auto
  show "hd (rule_text r) \<noteq> 35" using h by simp
qed

lemma read_rule:
  assumes "rule_ok r" "\<And>c. realloc_ok c"
  shows "\<exists>cap'. read_rules realloc_ok cap lines (rule_text r @ 10 # rest) =
    read_rules realloc_ok cap' (lines @ [r]) rest"
proof -
  note f = rule_text_facts [OF assms(1)]
  have g: "c_fgets (rule_text r @ 10 # rest) = Some (rule_text r @ [10], rest)"
    using f(2-4) by (rule c_fgets_line)
  show ?thesis
    unfolding read_rules.simps [of realloc_ok cap lines "rule_text r @ 10 # rest"] g Let_def
      option.case prod.case f(5) parse_rule_text [OF assms(1)]
    using f(1,6) assms(2) by auto
qed

lemma read_rule_texts:
  assumes "\<And>c. realloc_ok c" "\<forall>r \<in> set rs. rule_ok r"
  shows "\<exists>cap'. read_rules realloc_ok cap lines (concat (map (\<lambda>r. rule_text r @ [10]) rs) @ rest) =
    read_rules realloc_ok cap' (lines @ rs) rest"
  using assms(2)
proof (induction rs arbitrary: cap lines)
  case Nil
  then show ?case by (intro exI [of _ cap]) simp
next
  case (Cons r rs)
  let ?rest = "concat (map (\<lambda>r. rule_text r @ [10]) rs) @ rest"
  have r: "rule_ok r" "\<forall>r \<in> set rs. rule_ok r" using Cons.prems by simp_all
  obtain c1 where 1: "read_rules realloc_ok cap lines (rule_text r @ 10 # ?rest) =
      read_rules realloc_ok c1 (lines @ [r]) ?rest"
    using read_rule [of r realloc_ok cap lines ?rest, OF r(1) assms(1)] by blast
  obtain c2 where 2: "read_rules realloc_ok c1 (lines @ [r]) ?rest =
      read_rules realloc_ok c2 ((lines @ [r]) @ rs) rest"
    using Cons.IH [of c1 "lines @ [r]", OF r(2)] by blast
  show ?case using 1 unfolding 2 by (intro exI [of _ c2]) simp
qed

lemma read_rules_end [simp]: "read_rules realloc_ok cap lines [] = Some lines"
  by (simp add: read_rules.simps c_fgets_def)

lemma read_rule_file:
  assumes "\<forall>c. realloc_ok c" "\<forall>r \<in> set rs. rule_ok r"
    and "content = concat (map (\<lambda>r. rule_text r @ [10]) rs)"
  shows "read_rules realloc_ok 0 [] content = Some rs"
  using read_rule_texts [of realloc_ok rs 0 "[]" "[]"] assms by auto

text \<open>Every rule that is read has a type the engine compiles.\<close>

lemma parse_line_type: "parse_line l = Some r \<Longrightarrow> rule_type r \<in> {TRAFFIC_HTTP, TRAFFIC_HTTPS}"
  by (auto simp: parse_line_def Let_def split: prod.splits Option.bind_splits if_splits)

section \<open>Properties\<close>

text \<open>
  C35: loading is the inverse of writing. A file of rules, one per line, is read back as exactly
  those rules in that order, whatever their number and however often the line array grows.
\<close>

theorem rule_file_roundtrip:
  assumes "\<forall>r \<in> set rs. rule_ok r" and "\<forall>cap. realloc_ok cap"
  shows "read_rules realloc_ok 0 [] (concat (map (\<lambda>r. rule_text r @ [10]) rs)) = Some rs"
  using assms by (intro read_rule_file) simp_all

definition demo_rules :: "rule_line list" where
  "demo_rules =
    [\<lparr>rule_type = TRAFFIC_HTTP, rule_pattern = ascii ''http://malware.com.*'', rule_action = ACTION_DROP\<rparr>,
     \<lparr>rule_type = TRAFFIC_HTTPS, rule_pattern = ascii ''HOST://.*facebook.com.*'',
      rule_action = ACTION_FORWARD\<rparr>]"

lemma demo_rules_ok: "\<forall>r \<in> set demo_rules. rule_ok r"
  by (simp add: demo_rules_def rule_ok_def ascii_def)

theorem rule_file_roundtrip_witness:
  "read_rules (\<lambda>cap. True) 0 []
     (ascii ''HTTP,http://malware.com.*,DROP'' @ [10] @
      ascii ''HTTPS,HOST://.*facebook.com.*,FORWARD'' @ [10]) = Some demo_rules"
proof -
  have "concat (map (\<lambda>r. rule_text r @ [10]) demo_rules) =
      ascii ''HTTP,http://malware.com.*,DROP'' @ [10] @
      ascii ''HTTPS,HOST://.*facebook.com.*,FORWARD'' @ [10]"
    by (simp add: demo_rules_def rule_text_def type_name_def action_name_def ascii_def)
  then show ?thesis
    using rule_file_roundtrip [OF demo_rules_ok, of "\<lambda>cap. True"] by simp
qed

text \<open>
  A comma inside a pattern ends it. A line whose pattern field contains a comma followed by
  something that is not an action name is not a rule, so a rule with a bounded repetition such as
  \<open>a{1,3}\<close> is skipped, also when its action is DROP.
\<close>

lemma pattern_with_comma_is_skipped:
  assumes "p \<noteq> []" "44 \<notin> set p" "q \<noteq> []" "44 \<notin> set q"
    and "\<not> c_strcasecmp_eq (trim q) (ascii ''DROP'')" "\<not> c_strcasecmp_eq (trim q) (ascii ''FORWARD'')"
  shows "parse_line (type_name ty @ [44] @ p @ [44] @ q @ [44] @ action_name a) = None"
  using c_strtok_field(1) [OF name_facts(1,2) [of ty]] c_strtok_field(1) [OF assms(1,2)]
    c_strtok_field(1) [OF assms(3,4)] assms(5,6)
  by (simp add: parse_line_def)

end
