(* ===== verification/Dpi_Engine.thy ===== *)
theory Dpi_Engine
  imports Dpi_Rules
begin

text \<open>
  The DPI engine (\<open>src/dpi_engine.c\<close>): the per-type rule databases, their compilation and release, the
  match callback and \<open>dpi_engine_scan\<close>.

  Hyperscan is not part of the sources. It enters as a record of the functions the engine calls; the
  interface \<open>hyperscan\<close> states the documented behaviour the engine relies on: a database compiled
  from expressions with identifiers reports, to the callback, exactly the identifiers of the
  expressions that match, in some order and any number of times, until the callback asks to stop, and
  a scan may instead fail with another error after any of the reports. Memory allocation may fail at
  each point where the sources check for it.

  Shown: after any attempt to load rules, scanning reads the rule array in bounds; a loaded engine
  drops exactly the strings that a DROP rule of the packet's type matches, whatever the order in which
  matches are reported; a scan error fails open.
\<close>

section \<open>Model\<close>

abbreviation (input) HS_FLAG_CASELESS :: nat where "HS_FLAG_CASELESS \<equiv> 1"
abbreviation (input) HS_FLAG_DOTALL :: nat where "HS_FLAG_DOTALL \<equiv> 2"

text \<open>The constants are single bits, so their bitwise disjunction is their sum.\<close>

abbreviation (input) rule_flags :: nat where "rule_flags \<equiv> HS_FLAG_CASELESS + HS_FLAG_DOTALL"

datatype hs_error = HS_SUCCESS | HS_SCAN_TERMINATED | HS_OTHER_ERROR int

text \<open>\<open>rules\<close> is the array of actions; the null pointer is the empty array.\<close>

record 'd dpi_db =
  db :: "'d option"
  rules :: "packet_action list"
  nrules :: nat

record 'd dpi_engine =
  g_http_db :: "'d dpi_db"
  g_https_db :: "'d dpi_db"

definition zero_db :: "'d dpi_db" where
  "zero_db = \<lparr>db = None, rules = [], nrules = 0\<rparr>"

record 'd match_ctx =
  mctx_db :: "'d dpi_db"
  mctx_result :: packet_action

text \<open>
  The callback. The context is \<^term>\<open>None\<close> once a rule has been read out of bounds; the boolean is
  the return value: stop scanning.
\<close>

definition on_match :: "'d match_ctx option \<Rightarrow> nat \<Rightarrow> 'd match_ctx option \<times> bool" where
  "on_match ctx ident =
     (case ctx of
        None \<Rightarrow> (None, True)
      | Some mctx \<Rightarrow>
          if ident \<ge> nrules (mctx_db mctx) then (Some mctx, False)
          else case rd (rules (mctx_db mctx)) ident of
                 None \<Rightarrow> (None, True)
               | Some a \<Rightarrow>
                   if a = ACTION_DROP then (Some (mctx\<lparr>mctx_result := ACTION_DROP\<rparr>), True)
                   else (Some (mctx\<lparr>mctx_result := ACTION_FORWARD\<rparr>), False))"

text \<open>
  Hyperscan: \<open>hs_compile_multi\<close> on expressions with flags and identifiers, \<open>hs_scan\<close> with the
  callback and its context, \<open>hs_alloc_scratch\<close> growing a scratch region for a database: its error code
  and the pointer it leaves.
\<close>

record ('d, 's) hs_ops =
  hs_compile_multi :: "(byte list \<times> nat \<times> nat) list \<Rightarrow> 'd option"
  hs_scan :: "'d \<Rightarrow> byte list \<Rightarrow> 's option \<Rightarrow> ('d match_ctx option \<Rightarrow> nat \<Rightarrow> 'd match_ctx option \<times> bool) \<Rightarrow>
    'd match_ctx option \<Rightarrow> hs_error \<times> 'd match_ctx option"
  hs_alloc_scratch :: "'d \<Rightarrow> 's option \<Rightarrow> hs_error \<times> 's option"

text \<open>
  \<open>compile_db\<close>: the return value (success) and the database left in \<open>out\<close>. When an allocation fails,
  \<open>db\<close> and \<open>nrules\<close> keep their old values; when the compilation fails, \<open>nrules\<close> is already set and
  Hyperscan has stored a null database.
\<close>

definition typed_lines :: "rule_line list \<Rightarrow> traffic_type \<Rightarrow> rule_line list" where
  "typed_lines lines type = filter (\<lambda>l. rule_type l = type) lines"

definition compile_exprs :: "rule_line list \<Rightarrow> (byte list \<times> nat \<times> nat) list" where
  "compile_exprs ls = map (\<lambda>idx. (rule_pattern (ls ! idx), rule_flags, idx)) [0..<length ls]"

definition compile_db ::
  "('d, 's) hs_ops \<Rightarrow> bool \<Rightarrow> rule_line list \<Rightarrow> traffic_type \<Rightarrow> 'd dpi_db \<Rightarrow> bool \<times> 'd dpi_db" where
  "compile_db hs calloc_ok lines type out =
     (let ls = typed_lines lines type; n = length ls in
      if n = 0 then (True, \<lparr>db = None, rules = [], nrules = 0\<rparr>)
      else if \<not> calloc_ok then (False, out\<lparr>rules := []\<rparr>)
      else case hs_compile_multi hs (compile_exprs ls) of
             None \<Rightarrow> (False, \<lparr>db = None, rules = [], nrules = n\<rparr>)
           | Some d \<Rightarrow> (True, \<lparr>db = Some d, rules = map rule_action ls, nrules = n\<rparr>))"

text \<open>\<open>file\<close> is the content of the rule file, or \<^term>\<open>None\<close> when it cannot be opened.\<close>

definition dpi_engine_load_rules ::
  "('d, 's) hs_ops \<Rightarrow> (nat \<Rightarrow> bool) \<Rightarrow> bool \<Rightarrow> bool \<Rightarrow> byte list option \<Rightarrow> 'd dpi_engine \<Rightarrow>
   bool \<times> 'd dpi_engine" where
  "dpi_engine_load_rules hs realloc_ok calloc_http calloc_https file e =
     (case file of
        None \<Rightarrow> (False, e)
      | Some content \<Rightarrow>
          (case read_rules realloc_ok 0 [] content of
             None \<Rightarrow> (False, e)
           | Some lines \<Rightarrow>
               let (ok, d) = compile_db hs calloc_http lines TRAFFIC_HTTP (g_http_db e);
                   e = e\<lparr>g_http_db := d\<rparr>
               in if \<not> ok then (False, e)
                  else
                    let (ok, d) = compile_db hs calloc_https lines TRAFFIC_HTTPS (g_https_db e);
                        e = e\<lparr>g_https_db := d\<rparr>
                    in if \<not> ok then (False, e\<lparr>g_http_db := zero_db\<rparr>) else (True, e)))"

text \<open>
  The scratch region for one database, if there is one. A failure tells the database, the error and
  the pointer Hyperscan has left.
\<close>

definition alloc_scratch_for ::
  "('d, 's) hs_ops \<Rightarrow> 'd dpi_db \<Rightarrow> traffic_type \<Rightarrow> 's option \<Rightarrow>
   (traffic_type \<times> hs_error \<times> 's option) + 's option" where
  "alloc_scratch_for hs d type scratch =
     (case db d of
        None \<Rightarrow> Inr scratch
      | Some hdb \<Rightarrow>
          let (err, scratch) = hs_alloc_scratch hs hdb scratch
          in if err \<noteq> HS_SUCCESS then Inl (type, err, scratch) else Inr scratch)"

definition dpi_engine_alloc_scratch ::
  "('d, 's) hs_ops \<Rightarrow> 'd dpi_engine \<Rightarrow> (traffic_type \<times> hs_error \<times> 's option) + 's option" where
  "dpi_engine_alloc_scratch hs e =
     (case alloc_scratch_for hs (g_http_db e) TRAFFIC_HTTP None of
        Inl failure \<Rightarrow> Inl failure
      | Inr scratch \<Rightarrow> alloc_scratch_for hs (g_https_db e) TRAFFIC_HTTPS scratch)"

definition dpi_engine_free_rules :: "'d dpi_engine \<Rightarrow> 'd dpi_engine" where
  "dpi_engine_free_rules e = e\<lparr>g_http_db := zero_db, g_https_db := zero_db\<rparr>"

definition db_for :: "'d dpi_engine \<Rightarrow> traffic_type \<Rightarrow> 'd dpi_db" where
  "db_for e type = (if type = TRAFFIC_HTTP then g_http_db e else g_https_db e)"

text \<open>\<open>dpi_engine_scan\<close>; \<^term>\<open>None\<close> when the callback reads a rule out of bounds.\<close>

definition dpi_engine_scan ::
  "('d, 's) hs_ops \<Rightarrow> 'd dpi_engine \<Rightarrow> 's option \<Rightarrow> traffic_type \<Rightarrow> byte list \<Rightarrow> packet_action option" where
  "dpi_engine_scan hs e scratch type data =
     (let d = db_for e type in
      case db d of
        None \<Rightarrow> Some ACTION_FORWARD
      | Some hdb \<Rightarrow>
          if nrules d = 0 then Some ACTION_FORWARD
          else
            let (err, ctx) = hs_scan hs hdb data scratch on_match
                               (Some \<lparr>mctx_db = d, mctx_result = ACTION_FORWARD\<rparr>)
            in do {
              ctx \<leftarrow> ctx;
              if err \<noteq> HS_SUCCESS \<and> err \<noteq> HS_SCAN_TERMINATED then Some ACTION_FORWARD
              else Some (mctx_result ctx) })"

section \<open>Hyperscan's contract\<close>

text \<open>Reports delivered to a callback until it asks to stop.\<close>

fun deliver :: "('c \<Rightarrow> nat \<Rightarrow> 'c \<times> bool) \<Rightarrow> 'c \<Rightarrow> nat list \<Rightarrow> hs_error \<times> 'c" where
  "deliver cb ctx [] = (HS_SUCCESS, ctx)"
| "deliver cb ctx (i # ms) =
     (case cb ctx i of (ctx', stop) \<Rightarrow>
        if stop then (HS_SCAN_TERMINATED, ctx') else deliver cb ctx' ms)"

definition reported ::
  "(byte list \<Rightarrow> nat \<Rightarrow> byte list \<Rightarrow> bool) \<Rightarrow> (byte list \<times> nat \<times> nat) list \<Rightarrow> byte list \<Rightarrow> nat set" where
  "reported matches es data = {i. \<exists>e f. (e, f, i) \<in> set es \<and> matches e f data}"

locale hyperscan =
  fixes hs :: "('d, 's) hs_ops"
    and matches :: "byte list \<Rightarrow> nat \<Rightarrow> byte list \<Rightarrow> bool"
    and fits :: "'s \<Rightarrow> 'd \<Rightarrow> bool"
  assumes scan: "hs_compile_multi hs es = Some d \<Longrightarrow> fits s d \<Longrightarrow>
      \<exists>ms. set ms = reported matches es data \<and>
        (hs_scan hs d data (Some s) cb ctx = deliver cb ctx ms \<or>
         (\<exists>c n. hs_scan hs d data (Some s) cb ctx =
            (HS_OTHER_ERROR c, snd (deliver cb ctx (take n ms)))))"
    and alloc: "hs_alloc_scratch hs d prev = (HS_SUCCESS, r) \<Longrightarrow> \<exists>s. r = Some s \<and> fits s d"
    and alloc_grows: "hs_alloc_scratch hs d (Some old) = (HS_SUCCESS, Some s) \<Longrightarrow> fits old d' \<Longrightarrow> fits s d'"
begin

text \<open>The scratch region a worker allocates fits every database of the engine.\<close>

lemma alloc_scratch_for_fits:
  assumes "alloc_scratch_for hs d type prev = Inr s"
  shows "db d = Some hdb \<Longrightarrow> \<exists>s'. s = Some s' \<and> fits s' hdb"
    and "prev = Some old \<Longrightarrow> fits old d' \<Longrightarrow> \<exists>s'. s = Some s' \<and> fits s' d'"
proof -
  have a: "hs_alloc_scratch hs hdb prev = (HS_SUCCESS, s)" if "db d = Some hdb" for hdb
    using assms that by (auto simp: alloc_scratch_for_def split: prod.splits if_splits)
  show "db d = Some hdb \<Longrightarrow> \<exists>s'. s = Some s' \<and> fits s' hdb" using a alloc by blast
  show "prev = Some old \<Longrightarrow> fits old d' \<Longrightarrow> \<exists>s'. s = Some s' \<and> fits s' d'"
  proof (cases "db d")
    case None
    then show "prev = Some old \<Longrightarrow> fits old d' \<Longrightarrow> ?thesis" using assms by (auto simp: alloc_scratch_for_def)
  next
    case (Some h)
    then show "prev = Some old \<Longrightarrow> fits old d' \<Longrightarrow> ?thesis" using a [OF Some] alloc alloc_grows by metis
  qed
qed

lemma alloc_scratch_fits:
  assumes "dpi_engine_alloc_scratch hs e = Inr s" "db (db_for e type) = Some d"
  shows "\<exists>s'. s = Some s' \<and> fits s' d"
proof -
  obtain s0 where s0: "alloc_scratch_for hs (g_http_db e) TRAFFIC_HTTP None = Inr s0"
    "alloc_scratch_for hs (g_https_db e) TRAFFIC_HTTPS s0 = Inr s"
    using assms(1) by (auto simp: dpi_engine_alloc_scratch_def split: sum.splits)
  show ?thesis
  proof (cases "type = TRAFFIC_HTTP")
    case True
    then have "db (g_http_db e) = Some d" using assms(2) by (simp add: db_for_def)
    then show ?thesis using alloc_scratch_for_fits [OF s0(1)] alloc_scratch_for_fits(2) [OF s0(2)] by blast
  next
    case False
    then show ?thesis using alloc_scratch_for_fits(1) [OF s0(2)] assms(2) by (simp add: db_for_def)
  qed
qed

end

section \<open>The callback and the databases\<close>

definition db_of :: "('d, 's) hs_ops \<Rightarrow> rule_line list \<Rightarrow> 'd dpi_db \<Rightarrow> bool" where
  "db_of hs ls d \<longleftrightarrow>
     (if ls = [] then db d = None
      else (\<exists>hdb. hs_compile_multi hs (compile_exprs ls) = Some hdb \<and> db d = Some hdb) \<and>
        rules d = map rule_action ls \<and> nrules d = length ls)"

lemma compile_db_ok:
  assumes "compile_db hs c lines type out = (True, d)"
  shows "db_of hs (typed_lines lines type) d"
  using assms
  by (auto simp: compile_db_def db_of_def Let_def split: if_splits option.splits)

lemma compile_db_failed:
  assumes "compile_db hs c lines type out = (False, d)" "db out = None"
  shows "db d = None"
  using assms by (auto simp: compile_db_def Let_def split: if_splits option.splits)

lemma deliver_on_match:
  assumes "nrules (mctx_db m) = length (rules (mctx_db m))" "\<forall>i \<in> set ms. i < nrules (mctx_db m)"
    and "mctx_result m = ACTION_FORWARD"
  shows "\<exists>err m'. deliver on_match (Some m) ms = (err, Some m') \<and>
    err \<in> {HS_SUCCESS, HS_SCAN_TERMINATED} \<and>
    (mctx_result m' = ACTION_DROP \<longleftrightarrow> (\<exists>i \<in> set ms. rules (mctx_db m) ! i = ACTION_DROP))"
  using assms
proof (induction ms)
  case Nil
  then show ?case by simp
next
  case (Cons i ms)
  let ?a = "rules (mctx_db m) ! i"
  have i: "i < nrules (mctx_db m)" "rd (rules (mctx_db m)) i = Some ?a"
    using Cons.prems by (auto simp: mem_simps)
  have m: "m\<lparr>mctx_result := ACTION_FORWARD\<rparr> = m" using Cons.prems(3) by simp
  show ?case
  proof (cases ?a)
    case ACTION_DROP
    then show ?thesis using i by (auto simp: on_match_def)
  next
    case ACTION_FORWARD
    then have "on_match (Some m) i = (Some m, False)" using i m by (simp add: on_match_def)
    then show ?thesis using Cons ACTION_FORWARD by auto
  qed
qed

text \<open>A rule of the list that says DROP and matches.\<close>

definition drop_rule ::
  "(byte list \<Rightarrow> nat \<Rightarrow> byte list \<Rightarrow> bool) \<Rightarrow> rule_line list \<Rightarrow> byte list \<Rightarrow> bool" where
  "drop_rule matches ls data \<longleftrightarrow>
     (\<exists>l \<in> set ls. rule_action l = ACTION_DROP \<and> matches (rule_pattern l) rule_flags data)"

lemma reported_rules:
  "reported matches (compile_exprs ls) data =
     {i. i < length ls \<and> matches (rule_pattern (ls ! i)) rule_flags data}"
  by (auto simp: reported_def compile_exprs_def image_iff)

lemma reported_drop:
  "(\<exists>i \<in> reported matches (compile_exprs ls) data. map rule_action ls ! i = ACTION_DROP) \<longleftrightarrow>
   drop_rule matches ls data"
  unfolding reported_rules drop_rule_def by (auto simp: in_set_conv_nth) force

text \<open>Whether the scan reported an error of its own.\<close>

definition scan_failed ::
  "('d, 's) hs_ops \<Rightarrow> 'd dpi_engine \<Rightarrow> 's option \<Rightarrow> traffic_type \<Rightarrow> byte list \<Rightarrow> bool" where
  "scan_failed hs e scratch type data \<longleftrightarrow>
     (case db (db_for e type) of
        None \<Rightarrow> False
      | Some hdb \<Rightarrow>
          fst (hs_scan hs hdb data scratch on_match
                 (Some \<lparr>mctx_db = db_for e type, mctx_result = ACTION_FORWARD\<rparr>))
          \<notin> {HS_SUCCESS, HS_SCAN_TERMINATED})"

context hyperscan
begin

lemma scan_spec:
  assumes "db_of hs ls (db_for e type)" and "dpi_engine_alloc_scratch hs e = Inr s"
  shows "\<exists>a. dpi_engine_scan hs e s type data = Some a \<and>
    (if scan_failed hs e s type data then a = ACTION_FORWARD
     else a = ACTION_DROP \<longleftrightarrow> drop_rule matches ls data)"
proof (cases "ls = []")
  case True
  then show ?thesis using assms(1)
    by (auto simp: db_of_def dpi_engine_scan_def scan_failed_def drop_rule_def Let_def)
next
  case False
  let ?d = "db_for e type"
  let ?m = "\<lparr>mctx_db = ?d, mctx_result = ACTION_FORWARD\<rparr>"
  obtain hdb where d: "hs_compile_multi hs (compile_exprs ls) = Some hdb" "db ?d = Some hdb"
    "rules ?d = map rule_action ls" "nrules ?d = length ls"
    using assms(1) False by (auto simp: db_of_def)
  obtain s' where s: "s = Some s'" "fits s' hdb" using alloc_scratch_fits [OF assms(2) d(2)] by blast
  let ?r = "hs_scan hs hdb data s on_match (Some ?m)"
  obtain ms where ms: "set ms = reported matches (compile_exprs ls) data"
    "?r = deliver on_match (Some ?m) ms \<or>
     (\<exists>c n. ?r = (HS_OTHER_ERROR c, snd (deliver on_match (Some ?m) (take n ms))))"
    using scan [OF d(1) s(2), of data on_match "Some ?m"] s(1) by blast
  have lt: "\<forall>i \<in> set ms. i < nrules ?d" unfolding ms(1) reported_rules using d(4) by auto
  have del: "\<exists>err m'. deliver on_match (Some ?m) ms' = (err, Some m') \<and>
      err \<in> {HS_SUCCESS, HS_SCAN_TERMINATED} \<and>
      (mctx_result m' = ACTION_DROP \<longleftrightarrow> (\<exists>i \<in> set ms'. rules ?d ! i = ACTION_DROP))"
    if "set ms' \<subseteq> set ms" for ms'
  proof -
    have "\<forall>i \<in> set ms'. i < nrules ?d" using lt that by blast
    then show ?thesis using deliver_on_match [of ?m ms'] d(3,4) by simp
  qed
  have nz: "nrules ?d \<noteq> 0" using d(4) False by simp
  from ms(2) show ?thesis
  proof (elim disjE exE)
    assume r: "?r = deliver on_match (Some ?m) ms"
    obtain err m' where "?r = (err, Some m')" "err \<in> {HS_SUCCESS, HS_SCAN_TERMINATED}"
      "mctx_result m' = ACTION_DROP \<longleftrightarrow> drop_rule matches ls data"
      using del [of ms] unfolding r d(3) ms(1) reported_drop by auto
    then show ?thesis
      using nz d(2) by (auto simp: dpi_engine_scan_def scan_failed_def Let_def)
  next
    fix c n
    assume r: "?r = (HS_OTHER_ERROR c, snd (deliver on_match (Some ?m) (take n ms)))"
    obtain err m' where "deliver on_match (Some ?m) (take n ms) = (err, Some m')"
      using del [OF set_take_subset] by blast
    then have "?r = (HS_OTHER_ERROR c, Some m')" using r by simp
    then show ?thesis
      using nz d(2) by (auto simp: dpi_engine_scan_def scan_failed_def Let_def)
  qed
qed

end

section \<open>Loading\<close>

definition zero_engine :: "'d dpi_engine" where
  "zero_engine = \<lparr>g_http_db = zero_db, g_https_db = zero_db\<rparr>"

lemma load_rules_ok:
  assumes "dpi_engine_load_rules hs ro c1 c2 (Some content) e0 = (True, e)"
    and "read_rules ro 0 [] content = Some lines" and "type \<in> {TRAFFIC_HTTP, TRAFFIC_HTTPS}"
  shows "db_of hs (typed_lines lines type) (db_for e type)"
proof -
  obtain d1 d2 where "compile_db hs c1 lines TRAFFIC_HTTP (g_http_db e0) = (True, d1)"
    "compile_db hs c2 lines TRAFFIC_HTTPS (g_https_db e0) = (True, d2)"
    "e = e0\<lparr>g_http_db := d1, g_https_db := d2\<rparr>"
    using assms(1,2)
    by (auto simp: dpi_engine_load_rules_def Let_def split: prod.splits if_splits)
  then show ?thesis using assms(3) compile_db_ok by (fastforce simp: db_for_def)
qed

lemma load_rules_failed:
  assumes "dpi_engine_load_rules hs ro c1 c2 file zero_engine = (False, e)"
  shows "db (g_http_db e) = None \<and> db (g_https_db e) = None"
  using assms
  by (auto simp: dpi_engine_load_rules_def zero_engine_def zero_db_def Let_def compile_db_failed
      split: option.splits prod.splits if_splits)

section \<open>An instance\<close>

text \<open>
  A matcher for literal expressions, which compiles every rule set and reports matches in the order
  of the rules.
\<close>

definition literal_matches :: "byte list \<Rightarrow> nat \<Rightarrow> byte list \<Rightarrow> bool" where
  "literal_matches e f data \<longleftrightarrow> (\<exists>i \<le> length data. take (length e) (drop i data) = e)"

type_synonym literal_db = "(byte list \<times> nat \<times> nat) list"

definition literal_hs :: "(literal_db, unit) hs_ops" where
  "literal_hs = \<lparr>hs_compile_multi = Some,
     hs_scan = (\<lambda>d data s cb ctx.
       deliver cb ctx (map (\<lambda>(e, f, i). i) (filter (\<lambda>(e, f, i). literal_matches e f data) d))),
     hs_alloc_scratch = (\<lambda>d s. (HS_SUCCESS, Some ()))\<rparr>"

interpretation literal: hyperscan literal_hs literal_matches "\<lambda>s d. True"
proof unfold_locales
  fix es d s data cb ctx
  assume "hs_compile_multi literal_hs es = Some d"
  then have "d = es" by (simp add: literal_hs_def)
  then show "\<exists>ms. set ms = reported literal_matches es data \<and>
      (hs_scan literal_hs d data (Some s) cb ctx = deliver cb ctx ms \<or>
       (\<exists>c n. hs_scan literal_hs d data (Some s) cb ctx =
          (HS_OTHER_ERROR c, snd (deliver cb ctx (take n ms)))))"
    by (intro exI [of _ "map (\<lambda>(e, f, i). i) (filter (\<lambda>(e, f, i). literal_matches e f data) es)"])
      (force simp: literal_hs_def reported_def)
qed (simp_all add: literal_hs_def)

lemma literal_scratch: "\<exists>s. dpi_engine_alloc_scratch literal_hs e = Inr s"
  by (cases "db (g_http_db e)"; cases "db (g_https_db e)")
    (simp_all add: dpi_engine_alloc_scratch_def alloc_scratch_for_def literal_hs_def)

lemma deliver_not_failed: "fst (deliver cb ctx ms) \<in> {HS_SUCCESS, HS_SCAN_TERMINATED}"
  by (induction ms arbitrary: ctx) (auto split: prod.split)

lemma literal_never_fails: "\<not> scan_failed literal_hs e s type data"
proof (cases "db (db_for e type)")
  case (Some d)
  let ?ms = "map (\<lambda>(e, f, i). i) (filter (\<lambda>(e, f, i). literal_matches e f data) d)"
  show ?thesis
    using deliver_not_failed [of on_match "Some \<lparr>mctx_db = db_for e type, mctx_result = ACTION_FORWARD\<rparr>" ?ms]
    by (simp add: scan_failed_def literal_hs_def Some)
qed (simp add: scan_failed_def)

section \<open>Properties\<close>

text \<open>
  C13: DROP wins, and nothing else drops. After a successful load of a rule file, with a scratch
  region allocated by the engine, a scan never reads the rule array out of bounds; it answers DROP
  exactly when some DROP rule of the packet's traffic type matches the string, whatever FORWARD rules
  match too and in whatever order the matches are reported, and FORWARD when Hyperscan fails.
\<close>

theorem scan_drops_iff_drop_rule_matches:
  assumes "hyperscan hs matches fits"
    and "dpi_engine_load_rules hs ro c1 c2 (Some content) zero_engine = (True, e)"
    and "read_rules ro 0 [] content = Some lines"
    and "dpi_engine_alloc_scratch hs e = Inr s"
    and "type \<in> {TRAFFIC_HTTP, TRAFFIC_HTTPS}"
  shows "\<exists>a. dpi_engine_scan hs e s type data = Some a \<and>
    (if scan_failed hs e s type data then a = ACTION_FORWARD
     else a = ACTION_DROP \<longleftrightarrow> drop_rule matches (typed_lines lines type) data)"
  using hyperscan.scan_spec [OF assms(1) load_rules_ok [OF assms(2,3,5)] assms(4)] .

text \<open>A FORWARD rule and a DROP rule that both match.\<close>

theorem scan_drops_iff_drop_rule_matches_witness:
  "\<exists>e s. dpi_engine_load_rules literal_hs (\<lambda>c. True) True True
       (Some (ascii ''HTTP,http://,FORWARD'' @ [10] @ ascii ''HTTP,malware,DROP'' @ [10])) zero_engine = (True, e) \<and>
     dpi_engine_alloc_scratch literal_hs e = Inr s \<and>
     dpi_engine_scan literal_hs e s TRAFFIC_HTTP (ascii ''http://malware.com/'') = Some ACTION_DROP"
proof -
  let ?rs = "[\<lparr>rule_type = TRAFFIC_HTTP, rule_pattern = ascii ''http://'', rule_action = ACTION_FORWARD\<rparr>,
     \<lparr>rule_type = TRAFFIC_HTTP, rule_pattern = ascii ''malware'', rule_action = ACTION_DROP\<rparr>]"
  let ?f = "ascii ''HTTP,http://,FORWARD'' @ [10] @ ascii ''HTTP,malware,DROP'' @ [10]"
  let ?data = "ascii ''http://malware.com/''"
  have f: "?f = concat (map (\<lambda>r. rule_text r @ [10]) ?rs)"
    by (simp add: rule_text_def type_name_def action_name_def ascii_def)
  have "\<forall>r \<in> set ?rs. rule_ok r" by (simp add: rule_ok_def ascii_def)
  then have r: "read_rules (\<lambda>c. True) 0 [] ?f = Some ?rs" by (intro read_rule_file [OF _ _ f]) simp_all
  obtain e where e: "dpi_engine_load_rules literal_hs (\<lambda>c. True) True True (Some ?f) zero_engine = (True, e)"
    using r by (auto simp: dpi_engine_load_rules_def compile_db_def typed_lines_def literal_hs_def Let_def)
  obtain s where s: "dpi_engine_alloc_scratch literal_hs e = Inr s"
    using literal_scratch by blast
  have m: "literal_matches (ascii ''malware'') n ?data" for n
    unfolding literal_matches_def by (rule exI [of _ 7]) (simp add: ascii_def)
  then have drop: "drop_rule literal_matches (typed_lines ?rs TRAFFIC_HTTP) ?data"
    by (simp add: drop_rule_def typed_lines_def)
  show ?thesis
    using scan_drops_iff_drop_rule_matches [OF literal.hyperscan_axioms e r s, of TRAFFIC_HTTP ?data]
      drop e s literal_never_fails [of e s TRAFFIC_HTTP ?data] by auto
qed

text \<open>
  C37: a load that fails leaves no rules in force: whichever step failed (the file, an allocation, the
  compilation of either database), no database remains, and every scan answers FORWARD without
  touching a rule.
\<close>

theorem failed_load_forwards_everything:
  assumes "dpi_engine_load_rules hs ro c1 c2 file zero_engine = (False, e)"
  shows "dpi_engine_scan hs e s type data = Some ACTION_FORWARD"
  using load_rules_failed [OF assms] by (simp add: dpi_engine_scan_def db_for_def Let_def)

theorem failed_load_forwards_everything_witness:
  "\<exists>e. dpi_engine_load_rules literal_hs (\<lambda>c. True) True False
       (Some (ascii ''HTTPS,x,DROP'' @ [10])) zero_engine = (False, e) \<and>
     dpi_engine_scan literal_hs e (Some ()) TRAFFIC_HTTPS (ascii ''x'') = Some ACTION_FORWARD"
proof -
  let ?r = "\<lparr>rule_type = TRAFFIC_HTTPS, rule_pattern = ascii ''x'', rule_action = ACTION_DROP\<rparr>"
  have f: "ascii ''HTTPS,x,DROP'' @ [10] = concat (map (\<lambda>r. rule_text r @ [10]) [?r])"
    by (simp add: rule_text_def type_name_def action_name_def ascii_def)
  have "\<forall>r \<in> set [?r]. rule_ok r" by (simp add: rule_ok_def ascii_def)
  then have r: "read_rules (\<lambda>c. True) 0 [] (ascii ''HTTPS,x,DROP'' @ [10]) = Some [?r]"
    by (intro read_rule_file [OF _ _ f]) simp_all
  obtain e where e: "dpi_engine_load_rules literal_hs (\<lambda>c. True) True False
      (Some (ascii ''HTTPS,x,DROP'' @ [10])) zero_engine = (False, e)"
    using r by (auto simp: dpi_engine_load_rules_def compile_db_def typed_lines_def Let_def)
  then show ?thesis using failed_load_forwards_everything [OF e] by blast
qed

end
