(* ===== verification/Stats.thy ===== *)
theory Stats
  imports Complex_Main Hyperdpi_Types Buckets
begin

text \<open>
  The counters and the statistics thread (\<open>include/stats.h\<close>, \<open>src/stats.c\<close>).

  Every counter is a 64-bit word and wraps. The table has one slot per lcore; an lcore number outside
  the table is undefined behaviour. The double-precision arithmetic of the load figures is exact real
  arithmetic followed by a rounding function \<open>rnd\<close>, a parameter, of which the properties use only
  that it is monotone and maps 0 to 0.

  One round of the statistics thread is \<open>stats_tick\<close>: the figures it prints are its report, and the
  rebalancing pass it may start is the one of \<open>Buckets\<close>. Shown: the round stays inside its arrays, a
  pass always goes from a worker with the highest rate to a worker with the lowest, never with
  rebalancing disabled, and the bucket table stays well-formed.
\<close>

section \<open>Counters\<close>

record core_stats =
  rx_packets :: u64
  rx_bytes :: u64
  http_packets :: u64
  https_packets :: u64
  non_dpi_packets :: u64
  forwarded_packets :: u64
  dropped_packets :: u64
  tx_packets :: u64
  tls_ech_or_no_sni_packets :: u64

definition zero_stats :: core_stats where
  "zero_stats = \<lparr>rx_packets = 0, rx_bytes = 0, http_packets = 0, https_packets = 0,
     non_dpi_packets = 0, forwarded_packets = 0, dropped_packets = 0, tx_packets = 0,
     tls_ech_or_no_sni_packets = 0\<rparr>"

type_synonym stats_table = "core_stats list"

text \<open>\<open>stats_table[lcore_id]\<close> updated in place.\<close>

definition on_core :: "stats_table \<Rightarrow> nat \<Rightarrow> (core_stats \<Rightarrow> core_stats) \<Rightarrow> stats_table option" where
  "on_core t lcore_id f = do { s \<leftarrow> rd t lcore_id; wr t lcore_id (f s) }"

text \<open>\<open>max_lcore\<close> is DPDK's build-time constant \<open>RTE_MAX_LCORE\<close>.\<close>

definition stats_init :: "nat \<Rightarrow> stats_table" where
  "stats_init max_lcore = replicate max_lcore zero_stats"

definition stats_add_rx :: "stats_table \<Rightarrow> nat \<Rightarrow> u64 \<Rightarrow> u64 \<Rightarrow> stats_table option" where
  "stats_add_rx t lcore_id packets bytes =
     on_core t lcore_id (\<lambda>s. s\<lparr>rx_packets := rx_packets s + packets, rx_bytes := rx_bytes s + bytes\<rparr>)"

definition stats_count_classified :: "stats_table \<Rightarrow> nat \<Rightarrow> traffic_type \<Rightarrow> stats_table option" where
  "stats_count_classified t lcore_id type =
     on_core t lcore_id (\<lambda>s.
       case type of
         TRAFFIC_HTTP \<Rightarrow> s\<lparr>http_packets := http_packets s + 1\<rparr>
       | TRAFFIC_HTTPS \<Rightarrow> s\<lparr>https_packets := https_packets s + 1\<rparr>
       | TRAFFIC_NON_DPI \<Rightarrow> s\<lparr>non_dpi_packets := non_dpi_packets s + 1\<rparr>)"

definition stats_count_forwarded :: "stats_table \<Rightarrow> nat \<Rightarrow> stats_table option" where
  "stats_count_forwarded t lcore_id =
     on_core t lcore_id (\<lambda>s. s\<lparr>forwarded_packets := forwarded_packets s + 1\<rparr>)"

definition stats_count_dropped :: "stats_table \<Rightarrow> nat \<Rightarrow> stats_table option" where
  "stats_count_dropped t lcore_id =
     on_core t lcore_id (\<lambda>s. s\<lparr>dropped_packets := dropped_packets s + 1\<rparr>)"

definition stats_count_tls_no_sni :: "stats_table \<Rightarrow> nat \<Rightarrow> stats_table option" where
  "stats_count_tls_no_sni t lcore_id =
     on_core t lcore_id (\<lambda>s. s\<lparr>tls_ech_or_no_sni_packets := tls_ech_or_no_sni_packets s + 1\<rparr>)"

definition stats_add_tx :: "stats_table \<Rightarrow> nat \<Rightarrow> u64 \<Rightarrow> stats_table option" where
  "stats_add_tx t lcore_id packets =
     on_core t lcore_id (\<lambda>s. s\<lparr>tx_packets := tx_packets s + packets\<rparr>)"

lemmas stats_defs = stats_add_rx_def stats_count_classified_def stats_count_forwarded_def
  stats_count_dropped_def stats_count_tls_no_sni_def stats_add_tx_def

section \<open>The statistics thread\<close>

definition add_stats :: "core_stats \<Rightarrow> core_stats \<Rightarrow> core_stats" where
  "add_stats out s = \<lparr>
     rx_packets = rx_packets out + rx_packets s,
     rx_bytes = rx_bytes out + rx_bytes s,
     http_packets = http_packets out + http_packets s,
     https_packets = https_packets out + https_packets s,
     non_dpi_packets = non_dpi_packets out + non_dpi_packets s,
     forwarded_packets = forwarded_packets out + forwarded_packets s,
     dropped_packets = dropped_packets out + dropped_packets s,
     tx_packets = tx_packets out + tx_packets s,
     tls_ech_or_no_sni_packets = tls_ech_or_no_sni_packets out + tls_ech_or_no_sni_packets s\<rparr>"

text \<open>\<open>lcores\<close> are the enabled lcores, in the order of \<open>RTE_LCORE_FOREACH\<close>.\<close>

definition aggregate :: "stats_table \<Rightarrow> nat list \<Rightarrow> core_stats option" where
  "aggregate t lcores = fold_opt (\<lambda>out lcore_id. do { s \<leftarrow> rd t lcore_id; Some (add_stats out s) }) zero_stats lcores"

definition worker_processed :: "stats_table \<Rightarrow> nat \<Rightarrow> u64 option" where
  "worker_processed t lcore_id = do {
     s \<leftarrow> rd t lcore_id;
     Some (http_packets s + https_packets s + non_dpi_packets s) }"

record stats_thread_args =
  sa_num_workers :: nat
  sa_worker_lcores :: "nat list"
  sa_rebalance_enabled :: bool

text \<open>What the loop carries from round to round.\<close>

record stats_loop =
  sl_prev :: core_stats
  sl_worker_prev :: "u64 list"
  sl_last_tsc :: u64

text \<open>Before the loop; \<open>worker_prev\<close> has \<open>MAX_WORKERS\<close> cells, uninitialised beyond the workers.\<close>

fun init_worker_prev :: "stats_table \<Rightarrow> nat list \<Rightarrow> nat \<Rightarrow> nat \<Rightarrow> u64 list \<Rightarrow> u64 list option" where
  "init_worker_prev t lcores i 0 prev = Some prev"
| "init_worker_prev t lcores i (Suc k) prev = do {
     l \<leftarrow> rd lcores i;
     p \<leftarrow> worker_processed t l;
     prev \<leftarrow> wr prev i p;
     init_worker_prev t lcores (Suc i) k prev }"

definition stats_thread_start ::
  "stats_thread_args \<Rightarrow> nat list \<Rightarrow> stats_table \<Rightarrow> u64 list \<Rightarrow> u64 \<Rightarrow> stats_loop option" where
  "stats_thread_start a lcores t uninit now = do {
     prev \<leftarrow> aggregate t lcores;
     wp \<leftarrow> init_worker_prev t (sa_worker_lcores a) 0 (sa_num_workers a) uninit;
     Some \<lparr>sl_prev = prev, sl_worker_prev = wp, sl_last_tsc = now\<rparr> }"

abbreviation (input) BUCKET_IDLE_THRESHOLD_MS :: u64 where "BUCKET_IDLE_THRESHOLD_MS \<equiv> 200"

definition idle_threshold_cycles :: "u64 \<Rightarrow> u64" where
  "idle_threshold_cycles hz = hz * BUCKET_IDLE_THRESHOLD_MS div 1000"

text \<open>Doubles: the conversion of a counter, and the two divisions of the figures.\<close>

definition to_double :: "(real \<Rightarrow> real) \<Rightarrow> u64 \<Rightarrow> real" where
  "to_double rnd w = rnd (real (unat w))"

definition rate :: "(real \<Rightarrow> real) \<Rightarrow> u64 \<Rightarrow> real \<Rightarrow> real" where
  "rate rnd d elapsed = (if elapsed > 0 then rnd (to_double rnd d / elapsed) else 0)"

record load_scan =
  ls_worker_prev :: "u64 list"
  ls_pps :: "real list"
  ls_sum :: real
  ls_max :: real
  ls_max_idx :: nat
  ls_min_idx :: nat

text \<open>One iteration of the per-worker loop.\<close>

definition load_step ::
  "(real \<Rightarrow> real) \<Rightarrow> stats_table \<Rightarrow> nat list \<Rightarrow> real \<Rightarrow> load_scan \<Rightarrow> nat \<Rightarrow> load_scan option" where
  "load_step rnd t lcores elapsed s i = do {
     l \<leftarrow> rd lcores i;
     cur \<leftarrow> worker_processed t l;
     prev \<leftarrow> rd (ls_worker_prev s) i;
     pps \<leftarrow> wr (ls_pps s) i (rate rnd (cur - prev) elapsed);
     wp \<leftarrow> wr (ls_worker_prev s) i cur;
     p \<leftarrow> rd pps i;
     m \<leftarrow> rd pps (ls_min_idx s);
     Some \<lparr>ls_worker_prev = wp, ls_pps = pps, ls_sum = rnd (ls_sum s + p),
           ls_max = (if p > ls_max s then p else ls_max s),
           ls_max_idx = (if p > ls_max s then i else ls_max_idx s),
           ls_min_idx = (if p < m then i else ls_min_idx s)\<rparr> }"

definition load_scan_all ::
  "(real \<Rightarrow> real) \<Rightarrow> stats_table \<Rightarrow> nat list \<Rightarrow> real \<Rightarrow> nat \<Rightarrow> u64 list \<Rightarrow> real list \<Rightarrow> load_scan option" where
  "load_scan_all rnd t lcores elapsed n worker_prev uninit =
     fold_opt (load_step rnd t lcores elapsed)
       \<lparr>ls_worker_prev = worker_prev, ls_pps = uninit, ls_sum = 0, ls_max = 0, ls_max_idx = 0,
        ls_min_idx = 0\<rparr> [0..<n]"

text \<open>The decision: \<open>1.25\<close> and \<open>100.0\<close> are the thresholds of the sources, exact as doubles.\<close>

definition should_rebalance :: "(real \<Rightarrow> real) \<Rightarrow> stats_thread_args \<Rightarrow> load_scan \<Rightarrow> bool" where
  "should_rebalance rnd a s \<longleftrightarrow>
     sa_rebalance_enabled a \<and> sa_num_workers a > 1 \<and>
     (let avg = rnd (ls_sum s / real (sa_num_workers a)) in
      avg \<ge> 100 \<and> ls_max s > rnd (avg * (5 / 4)) \<and> ls_max_idx s \<noteq> ls_min_idx s)"

record tick_report =
  tr_mbps :: real
  tr_pps :: real
  tr_cur :: core_stats
  tr_worker_pps :: "real list"
  tr_bucket_counts :: "nat list"
  tr_moved :: "(nat \<times> nat \<times> nat) option"
  tr_avg_pps :: real
  tr_max_pps :: real

text \<open>
  One round after its sleep: \<open>now\<close> is the clock reading, \<open>uninit_pps\<close> and \<open>uninit_counts\<close> the
  contents of the two local arrays of \<open>MAX_WORKERS\<close> cells.
\<close>

definition stats_tick ::
  "(real \<Rightarrow> real) \<Rightarrow> stats_thread_args \<Rightarrow> nat list \<Rightarrow> u64 \<Rightarrow> real list \<Rightarrow> nat list \<Rightarrow> stats_table \<Rightarrow>
   stats_loop \<Rightarrow> bucket_table \<Rightarrow> u64 \<Rightarrow> (stats_loop \<times> bucket_table \<times> tick_report) option" where
  "stats_tick rnd a lcores hz uninit_pps uninit_counts t sl bt now = do {
     let elapsed = rnd (to_double rnd (now - sl_last_tsc sl) / to_double rnd hz);
     cur \<leftarrow> aggregate t lcores;
     let d_packets = rx_packets cur - rx_packets (sl_prev sl);
     let d_bytes = rx_bytes cur - rx_bytes (sl_prev sl);
     let mbps = (if elapsed > 0
                 then rnd (rnd (rnd (to_double rnd d_bytes * 8) / elapsed) / 1000000) else 0);
     ls \<leftarrow> load_scan_all rnd t (sa_worker_lcores a) elapsed (sa_num_workers a)
             (sl_worker_prev sl) uninit_pps;
     counts \<leftarrow> parser_bucket_get_distribution bt (sa_num_workers a) uninit_counts;
     (bt, moved) \<leftarrow>
       (if should_rebalance rnd a ls then do {
          (bt, moved) \<leftarrow> parser_bucket_rebalance bt (ls_max_idx ls) (ls_min_idx ls) now
                           (idle_threshold_cycles hz);
          Some (bt, Some (moved, ls_max_idx ls, ls_min_idx ls)) }
        else Some (bt, None));
     Some (\<lparr>sl_prev = cur, sl_worker_prev = ls_worker_prev ls, sl_last_tsc = now\<rparr>, bt,
           \<lparr>tr_mbps = mbps, tr_pps = rate rnd d_packets elapsed, tr_cur = cur,
            tr_worker_pps = ls_pps ls, tr_bucket_counts = counts, tr_moved = moved,
            tr_avg_pps = rnd (ls_sum ls / real (sa_num_workers a)), tr_max_pps = ls_max ls\<rparr>) }"

text \<open>
  The wait before a round, in slices of 100 ms: \<open>quit i\<close> is the value of \<open>force_quit\<close> when it is read for
  the \<open>i\<close>-th time. The result has the number of slices slept and whether the round is to be left.
\<close>

fun stats_slices :: "(nat \<Rightarrow> bool) \<Rightarrow> nat \<Rightarrow> nat \<Rightarrow> nat" where
  "stats_slices quit i 0 = i"
| "stats_slices quit i (Suc k) = (if quit i then i else stats_slices quit (Suc i) k)"

definition stats_wait :: "(nat \<Rightarrow> bool) \<Rightarrow> nat \<times> bool" where
  "stats_wait quit = (let slept = stats_slices quit 0 10 in (slept, quit (if slept < 10 then Suc slept else 10)))"

section \<open>Facts about the counters\<close>

lemma on_core_in: "l < length t \<Longrightarrow> on_core t l f = Some (t[l := f (t ! l)])"
  by (simp add: on_core_def mem_simps)

lemma aggregate_loop:
  assumes "\<forall>l \<in> set lcores. l < length t"
  shows "fold_opt (\<lambda>out lcore_id. do { s \<leftarrow> rd t lcore_id; Some (add_stats out s) }) out lcores =
    Some (foldl add_stats out (map (\<lambda>l. t ! l) lcores))"
  using assms by (induction lcores arbitrary: out) (simp_all add: mem_simps)

lemma aggregate_eq:
  "\<forall>l \<in> set lcores. l < length t \<Longrightarrow>
   aggregate t lcores = Some (foldl add_stats zero_stats (map (\<lambda>l. t ! l) lcores))"
  by (simp add: aggregate_def aggregate_loop)

lemma worker_processed_defined: "l < length t \<Longrightarrow> \<exists>p. worker_processed t l = Some p"
  by (simp add: worker_processed_def mem_simps)

section \<open>The load scan\<close>

text \<open>The arrays a configuration of \<open>n\<close> workers has, and the state of the scan after \<open>k\<close> workers.\<close>

definition args_ok :: "stats_thread_args \<Rightarrow> stats_table \<Rightarrow> bool" where
  "args_ok a t \<longleftrightarrow>
     0 < sa_num_workers a \<and> sa_num_workers a \<le> MAX_WORKERS \<and>
     length (sa_worker_lcores a) = MAX_WORKERS \<and>
     (\<forall>i < sa_num_workers a. sa_worker_lcores a ! i < length t)"

definition scan_inv :: "nat \<Rightarrow> load_scan \<Rightarrow> bool" where
  "scan_inv k s \<longleftrightarrow>
     length (ls_worker_prev s) = MAX_WORKERS \<and> length (ls_pps s) = MAX_WORKERS \<and>
     0 \<le> ls_max s \<and> (\<forall>i < k. ls_pps s ! i \<le> ls_max s) \<and>
     (0 < ls_max s \<longrightarrow> ls_max_idx s < k \<and> ls_pps s ! ls_max_idx s = ls_max s) \<and>
     (if k = 0 then ls_min_idx s = 0
      else ls_min_idx s < k \<and> (\<forall>i < k. ls_pps s ! ls_min_idx s \<le> ls_pps s ! i))"

lemma load_step_inv:
  assumes inv: "scan_inv k s" and a: "args_ok a t" and k: "k < sa_num_workers a"
  shows "\<exists>s'. load_step rnd t (sa_worker_lcores a) elapsed s k = Some s' \<and> scan_inv (Suc k) s'"
proof -
  let ?l = "sa_worker_lcores a ! k"
  have b: "k < 4" "k < length (sa_worker_lcores a)" "?l < length t"
    "length (ls_worker_prev s) = 4" "length (ls_pps s) = 4"
    using a k inv by (auto simp: args_ok_def scan_inv_def)
  have m4: "ls_min_idx s < 4" using inv b(1) by (auto simp: scan_inv_def split: if_splits)
  obtain cur where cur: "worker_processed t ?l = Some cur"
    using worker_processed_defined [OF b(3)] by blast
  let ?p = "rate rnd (cur - ls_worker_prev s ! k) elapsed"
  let ?pps = "(ls_pps s)[k := ?p]"
  let ?m = "?pps ! ls_min_idx s"
  let ?s' = "\<lparr>ls_worker_prev = (ls_worker_prev s)[k := cur], ls_pps = ?pps,
     ls_sum = rnd (ls_sum s + ?p), ls_max = (if ?p > ls_max s then ?p else ls_max s),
     ls_max_idx = (if ?p > ls_max s then k else ls_max_idx s),
     ls_min_idx = (if ?p < ?m then k else ls_min_idx s)\<rparr>"
  have step: "load_step rnd t (sa_worker_lcores a) elapsed s k = Some ?s'"
    using b cur m4 by (simp add: load_step_def mem_simps)
  have old: "?pps ! i = ls_pps s ! i" if "i < k" for i using that by simp
  have new: "?pps ! k = ?p" using b by simp
  have mx: "0 \<le> ls_max ?s'" "\<forall>i < Suc k. ls_pps ?s' ! i \<le> ls_max ?s'"
    using inv old new by (auto simp: scan_inv_def less_Suc_eq)
  have mi: "0 < ls_max ?s' \<longrightarrow> ls_max_idx ?s' < Suc k \<and> ls_pps ?s' ! ls_max_idx ?s' = ls_max ?s'"
    using inv old new by (auto simp: scan_inv_def)
  have mn: "ls_min_idx ?s' < Suc k \<and> (\<forall>i < Suc k. ls_pps ?s' ! ls_min_idx ?s' \<le> ls_pps ?s' ! i)"
  proof (cases "k = 0")
    case True
    then show ?thesis using inv new by (auto simp: scan_inv_def)
  next
    case False
    then have mi: "ls_min_idx s < k" "\<forall>i < k. ls_pps s ! ls_min_idx s \<le> ls_pps s ! i"
      using inv by (auto simp: scan_inv_def)
    then have "?m = ls_pps s ! ls_min_idx s" using old by simp
    then show ?thesis using mi old new by (auto simp: less_Suc_eq)
  qed
  have "scan_inv (Suc k) ?s'" using b mx mi mn by (simp add: scan_inv_def)
  with step show ?thesis by blast
qed

lemma load_scan_upto:
  assumes "args_ok a t" "k \<le> sa_num_workers a" "scan_inv 0 s"
  shows "\<exists>s'. fold_opt (load_step rnd t (sa_worker_lcores a) elapsed) s [0..<k] = Some s' \<and>
    scan_inv k s'"
  using assms(2)
proof (induction k)
  case 0
  then show ?case using assms(3) by simp
next
  case (Suc k)
  then obtain s1 where "fold_opt (load_step rnd t (sa_worker_lcores a) elapsed) s [0..<k] = Some s1"
    "scan_inv k s1" by auto
  moreover obtain s' where "load_step rnd t (sa_worker_lcores a) elapsed s1 k = Some s'"
    "scan_inv (Suc k) s'"
    using load_step_inv [OF \<open>scan_inv k s1\<close> assms(1)] Suc.prems by auto
  ultimately show ?case by (simp add: fold_opt_append)
qed

lemma load_scan_all_spec:
  assumes "args_ok a t" "length wp = 4" "length un = 4"
  shows "\<exists>s. load_scan_all rnd t (sa_worker_lcores a) elapsed (sa_num_workers a) wp un = Some s \<and>
    scan_inv (sa_num_workers a) s"
  using load_scan_upto [OF assms(1) order_refl] assms(2,3)
  by (auto simp: load_scan_all_def scan_inv_def)

lemma rebalance_picks_extremes:
  assumes "scan_inv n s" "n = sa_num_workers a" "should_rebalance rnd a s" "mono rnd" "rnd 0 = 0"
  shows "ls_max_idx s < n" "ls_min_idx s < n" "ls_max_idx s \<noteq> ls_min_idx s"
    "\<forall>i < n. ls_pps s ! i \<le> ls_pps s ! ls_max_idx s" "\<forall>i < n. ls_pps s ! ls_min_idx s \<le> ls_pps s ! i"
proof -
  let ?avg = "rnd (ls_sum s / real (sa_num_workers a))"
  have r: "100 \<le> ?avg" "rnd (?avg * (5 / 4)) < ls_max s" "ls_max_idx s \<noteq> ls_min_idx s" "1 < n"
    using assms(2,3) by (simp_all add: should_rebalance_def Let_def)
  have "rnd 0 \<le> rnd (?avg * (5 / 4))" using r(1) by (intro monoD [OF assms(4)]) simp
  then have "0 < ls_max s" using r(2) assms(5) by simp
  then show "ls_max_idx s < n" "\<forall>i < n. ls_pps s ! i \<le> ls_pps s ! ls_max_idx s"
    using assms(1) by (simp_all add: scan_inv_def)
  show "ls_min_idx s < n" "\<forall>i < n. ls_pps s ! ls_min_idx s \<le> ls_pps s ! i"
    using assms(1) r(4) by (simp_all add: scan_inv_def)
  show "ls_max_idx s \<noteq> ls_min_idx s" by (rule r(3))
qed

lemma stats_tick_spec:
  assumes "mono rnd" and "rnd 0 = 0" and "args_ok a t" and "\<forall>l \<in> set lcores. l < length t"
    and "length (sl_worker_prev sl) = MAX_WORKERS" and "length uninit_pps = MAX_WORKERS"
    and "length uninit_counts = MAX_WORKERS" and "buckets_inv (sa_num_workers a) bt"
  shows "\<exists>sl' bt' r. stats_tick rnd a lcores hz uninit_pps uninit_counts t sl bt now =
      Some (sl', bt', r) \<and>
    buckets_inv (sa_num_workers a) bt' \<and> length (sl_worker_prev sl') = MAX_WORKERS \<and>
    sl_last_tsc sl' = now \<and> Some (sl_prev sl') = aggregate t lcores \<and>
    (case tr_moved r of
       None \<Rightarrow> bt' = bt
     | Some (m, from, to) \<Rightarrow>
         sa_rebalance_enabled a \<and> m \<le> 8 \<and> from < sa_num_workers a \<and> to < sa_num_workers a \<and>
         from \<noteq> to \<and> (\<forall>i < sa_num_workers a. tr_worker_pps r ! i \<le> tr_worker_pps r ! from) \<and>
         (\<forall>i < sa_num_workers a. tr_worker_pps r ! to \<le> tr_worker_pps r ! i) \<and>
         parser_bucket_rebalance bt from to now (idle_threshold_cycles hz) = Some (bt', m))"
proof -
  let ?n = "sa_num_workers a"
  let ?el = "rnd (to_double rnd (now - sl_last_tsc sl) / to_double rnd hz)"
  have n: "?n \<le> 4" "?n \<le> length uninit_counts" using assms(3,7) by (auto simp: args_ok_def)
  obtain cur where cur: "aggregate t lcores = Some cur" using aggregate_eq [OF assms(4)] by blast
  obtain s where s: "load_scan_all rnd t (sa_worker_lcores a) ?el ?n (sl_worker_prev sl) uninit_pps = Some s"
    "scan_inv ?n s"
    using load_scan_all_spec [OF assms(3,5,6)] by blast
  obtain c where c: "parser_bucket_get_distribution bt ?n uninit_counts = Some c"
    using distribution_defined [OF assms(8) n(2)] by blast
  have len: "length (ls_worker_prev s) = 4" using s(2) by (simp add: scan_inv_def)
  show ?thesis
  proof (cases "should_rebalance rnd a s")
    case False
    then show ?thesis using cur s(1) c len assms(8) by (simp add: stats_tick_def Let_def)
  next
    case True
    note x = rebalance_picks_extremes [OF s(2) refl True assms(1,2)]
    obtain bt' m where b: "parser_bucket_rebalance bt (ls_max_idx s) (ls_min_idx s) now
        (idle_threshold_cycles hz) = Some (bt', m)" "m \<le> 8"
      using rebalance_spec [OF assms(8)] by (simp add: Let_def moved_buckets_def)
    have "buckets_inv ?n bt'" using rebalance_inv [OF assms(8) x(2) _ b(1)] n(1) by simp
    moreover have "sa_rebalance_enabled a" using True by (simp add: should_rebalance_def)
    ultimately show ?thesis
      using True cur s(1) c len b x by (simp add: stats_tick_def Let_def)
  qed
qed

lemma init_worker_prev_defined:
  assumes "args_ok a t" "i + k \<le> sa_num_workers a" "length prev = MAX_WORKERS"
  shows "\<exists>wp. init_worker_prev t (sa_worker_lcores a) i k prev = Some wp \<and> length wp = MAX_WORKERS"
  using assms(2,3)
proof (induction k arbitrary: i prev)
  case (Suc k)
  have b: "i < length (sa_worker_lcores a)" "sa_worker_lcores a ! i < length t" "i < length prev"
    using Suc.prems assms(1) by (auto simp: args_ok_def)
  obtain p where "worker_processed t (sa_worker_lcores a ! i) = Some p"
    using worker_processed_defined [OF b(2)] by blast
  then show ?case using Suc.IH [of "Suc i" "prev[i := p]"] Suc.prems b by (simp add: mem_simps)
qed simp

lemma stats_start_spec:
  assumes "args_ok a t" "\<forall>l \<in> set lcores. l < length t" "length uninit = MAX_WORKERS"
  shows "\<exists>sl. stats_thread_start a lcores t uninit now = Some sl \<and> length (sl_worker_prev sl) = MAX_WORKERS"
  using init_worker_prev_defined [OF assms(1) _ assms(3), of 0 "sa_num_workers a"] aggregate_eq [OF assms(2)]
  by (auto simp: stats_thread_start_def)

text \<open>The thread notices the flag within one slice, and sleeps a second while it is down.\<close>

lemma stats_slices_spec:
  "stats_slices quit i k \<le> i + k"
  "stats_slices quit i k < i + k \<Longrightarrow> quit (stats_slices quit i k)"
  "i \<le> j \<Longrightarrow> j < stats_slices quit i k \<Longrightarrow> \<not> quit j"
proof (induction k arbitrary: i)
  case (Suc k)
  { case 1 show ?case using Suc.IH(1) [of "Suc i"] by simp }
  { case 2 then show ?case using Suc.IH(2) [of "Suc i"] by (auto split: if_splits) }
  { case 3 then show ?case using Suc.IH(3) [of "Suc i"] by (cases "j = i") (auto split: if_splits) }
qed simp_all

lemma stats_wait_spec:
  assumes "mono quit"
  shows "quit j \<Longrightarrow> j \<le> 10 \<Longrightarrow> fst (stats_wait quit) \<le> j \<and> snd (stats_wait quit)"
    and "\<not> quit 10 \<Longrightarrow> stats_wait quit = (10, False)"
proof -
  let ?n = "stats_slices quit 0 10"
  have le: "?n \<le> 10" and stop: "?n < 10 \<Longrightarrow> quit ?n" and awake: "\<And>j. j < ?n \<Longrightarrow> \<not> quit j"
    using stats_slices_spec [where quit = quit and i = 0 and k = 10] by simp_all
  have up: "quit i \<Longrightarrow> i \<le> j \<Longrightarrow> quit j" for i j using assms by (auto dest: monoD)
  show "fst (stats_wait quit) \<le> j \<and> snd (stats_wait quit)" if "quit j" "j \<le> 10"
    using that awake [of j] up [OF stop, of "Suc ?n"] up [OF that] by (auto simp: stats_wait_def Let_def not_less [symmetric])
  show "stats_wait quit = (10, False)" if "\<not> quit 10"
    using that up [OF stop, of 10] le by (cases "?n < 10") (auto simp: stats_wait_def Let_def)
qed

section \<open>Properties\<close>

text \<open>
  C28: a round of the statistics thread. With at most \<open>MAX_WORKERS\<close> workers on lcores of the table,
  a round stays inside all its arrays and keeps the bucket table well-formed. If it moves buckets,
  then rebalancing is enabled, at most eight of them move, from a worker whose rate is highest to a
  different worker whose rate is lowest; otherwise the bucket table is untouched. The clock reading
  and the totals it saw are what the next round starts from.
\<close>

theorem stats_round_rebalances_extremes:
  assumes "mono rnd" and "rnd 0 = 0" and "args_ok a t" and "\<forall>l \<in> set lcores. l < length t"
    and "length (sl_worker_prev sl) = MAX_WORKERS" and "length uninit_pps = MAX_WORKERS"
    and "length uninit_counts = MAX_WORKERS" and "buckets_inv (sa_num_workers a) bt"
  shows "\<exists>sl' bt' r. stats_tick rnd a lcores hz uninit_pps uninit_counts t sl bt now =
      Some (sl', bt', r) \<and>
    buckets_inv (sa_num_workers a) bt' \<and> length (sl_worker_prev sl') = MAX_WORKERS \<and>
    sl_last_tsc sl' = now \<and> Some (sl_prev sl') = aggregate t lcores \<and>
    (case tr_moved r of
       None \<Rightarrow> bt' = bt
     | Some (m, from, to) \<Rightarrow>
         sa_rebalance_enabled a \<and> m \<le> 8 \<and> from < sa_num_workers a \<and> to < sa_num_workers a \<and>
         from \<noteq> to \<and> (\<forall>i < sa_num_workers a. tr_worker_pps r ! i \<le> tr_worker_pps r ! from) \<and>
         (\<forall>i < sa_num_workers a. tr_worker_pps r ! to \<le> tr_worker_pps r ! i) \<and>
         parser_bucket_rebalance bt from to now (idle_threshold_cycles hz) = Some (bt', m))"
  using assms by (rule stats_tick_spec)

text \<open>Worker 0, on lcore 1, has handled all the packets.\<close>

theorem stats_round_rebalances_extremes_witness:
  "\<exists>sl' bt' r. stats_tick (\<lambda>x. x) \<lparr>sa_num_workers = 2, sa_worker_lcores = [1, 2, 0, 0],
         sa_rebalance_enabled = True\<rparr> [0, 1, 2] 1000 [0, 0, 0, 0] [0, 0, 0, 0]
       [zero_stats, zero_stats\<lparr>http_packets := 900\<rparr>, zero_stats]
       \<lparr>sl_prev = zero_stats, sl_worker_prev = [0, 0, 0, 0], sl_last_tsc = 0\<rparr>
       demo_buckets 1000 = Some (sl', bt', r) \<and>
     buckets_inv 2 bt' \<and> tr_moved r = Some (8, 0, 1)"
proof -
  let ?a = "\<lparr>sa_num_workers = 2, sa_worker_lcores = [1, 2, 0, 0], sa_rebalance_enabled = True\<rparr>"
  let ?t = "[zero_stats, zero_stats\<lparr>http_packets := 900\<rparr>, zero_stats]"
  let ?sl = "\<lparr>sl_prev = zero_stats, sl_worker_prev = [0, 0, 0, 0], sl_last_tsc = 0\<rparr>"
  have a: "args_ok ?a ?t" by (simp add: args_ok_def less_2_cases_iff)
  have l: "\<forall>l \<in> set [0, 1, 2]. l < length ?t" by simp
  have inv: "buckets_inv (sa_num_workers ?a) demo_buckets" using demo_buckets_inv by simp
  obtain sl' bt' r where t: "stats_tick (\<lambda>x. x) ?a [0, 1, 2] 1000 [0, 0, 0, 0] [0, 0, 0, 0] ?t ?sl
      demo_buckets 1000 = Some (sl', bt', r)" "buckets_inv 2 bt'"
    using stats_round_rebalances_extremes [OF _ _ a l _ _ _ inv, of "\<lambda>x. x" ?sl "[0, 0, 0, 0]" "[0, 0, 0, 0]" 1000 1000]
    by (auto simp: mono_def)
  have "load_scan_all (\<lambda>x. x) ?t [1, 2, 0, 0] 1 2 [0, 0, 0, 0] [0, 0, 0, 0] =
      Some \<lparr>ls_worker_prev = [900, 0, 0, 0], ls_pps = [900, 0, 0, 0], ls_sum = 900, ls_max = 900,
            ls_max_idx = 0, ls_min_idx = 1\<rparr>"
    by (simp add: load_scan_all_def load_step_def upt_rec rd_def wr_def worker_processed_def
        zero_stats_def rate_def to_double_def)
  moreover have "idle_threshold_cycles 1000 = 200" by (simp add: idle_threshold_cycles_def)
  moreover have "snd (the (parser_bucket_rebalance demo_buckets 0 1 1000 200)) = 8"
    using rebalance_spec [OF demo_buckets_inv, of 0 1 1000 200] demo_moved [of 1000]
    by (simp add: Let_def)
  ultimately have "tr_moved r = Some (8, 0, 1)"
    using t(1) by (auto simp: stats_tick_def should_rebalance_def to_double_def Let_def
        split: Option.bind_splits if_splits)
  with t show ?thesis by blast
qed

end
