(* ===== verification/Packet_Rings.thy ===== *)
theory Packet_Rings
  imports Hyperdpi_Types
begin

text \<open>
  The lock-free rings between the threads. \<open>rte_ring\<close> is a DPDK component and enters as a record of the
  two operations the sources call; the interface \<open>rte_ring_contract\<close> states their documented
  behaviour: a burst enqueue appends a prefix of the burst and returns its length, a burst dequeue
  removes and returns at most \<open>n\<close> packets from the front.
\<close>

record 'r ring_ops =
  ring_enqueue_burst :: "'r \<Rightarrow> rte_mbuf list \<Rightarrow> 'r \<times> nat"
  ring_dequeue_burst :: "'r \<Rightarrow> nat \<Rightarrow> 'r \<times> rte_mbuf list"

locale rte_ring_contract =
  fixes R :: "'r ring_ops"
    and contents :: "'r \<Rightarrow> rte_mbuf list"
  assumes enqueue: "ring_enqueue_burst R r objs = (r', sent) \<Longrightarrow>
      sent \<le> length objs \<and> contents r' = contents r @ take sent objs"
    and dequeue: "ring_dequeue_burst R r n = (r', objs) \<Longrightarrow>
      length objs \<le> n \<and> contents r = objs @ contents r'"
begin

lemma enqueue_rest:
  assumes "ring_enqueue_burst R r objs = (r', sent)"
  shows "contents r' @ drop sent objs = contents r @ objs"
  using enqueue [OF assms] by simp

end

text \<open>A bounded first-in-first-out queue is a ring.\<close>

record fifo_ring =
  fr_capacity :: nat
  fr_items :: "rte_mbuf list"

definition fifo_ops :: "fifo_ring ring_ops" where
  "fifo_ops = \<lparr>
     ring_enqueue_burst = (\<lambda>r objs.
       let sent = min (length objs) (fr_capacity r - length (fr_items r))
       in (r\<lparr>fr_items := fr_items r @ take sent objs\<rparr>, sent)),
     ring_dequeue_burst = (\<lambda>r n. (r\<lparr>fr_items := drop n (fr_items r)\<rparr>, take n (fr_items r)))\<rparr>"

interpretation fifo: rte_ring_contract fifo_ops fr_items
  by unfold_locales (auto simp: fifo_ops_def Let_def)

end
