(* ===== verification/Worker.thy ===== *)
theory Worker
  imports Flow_Verdicts Dpi_Engine Stats Packet_Rings
begin

text \<open>
  The worker thread (\<open>worker_thread_main\<close> of \<open>src/main.c\<close>): the handling of one packet, composed of
  the L2-L4 parse, the flow table, the DPI engine and the counters, and of one burst.

  A worker owns its flow table and its slot of the statistics; the engine is read-only. Each packet
  is freed or put into the burst's forward array; both are lists of packets, so that losing a packet
  or freeing it twice shows. Each packet has the two clock readings of \<open>parser_flow_update\<close>.
\<close>

section \<open>Model\<close>

text \<open>What a worker thread uses: Hyperscan, the hash table, the engine, its scratch and its lcore.\<close>

record ('h, 'd, 's) worker_env =
  we_hash :: "'h rte_hash_ops"
  we_hs :: "('d, 's) hs_ops"
  we_engine :: "'d dpi_engine"
  we_scratch :: "'s option"
  we_lcore :: nat

record 'h worker_state =
  wk_ft :: "'h flow_table"
  wk_stats :: stats_table
  wk_fwd :: "rte_mbuf list"
  wk_freed :: "rte_mbuf list"

text \<open>
  The switch on the reassembly status. \<open>cached_action\<close> starts as FORWARD and is written by
  \<open>parser_flow_update\<close> for a cached flow only.
\<close>

definition worker_decide ::
  "('h, 'd, 's) worker_env \<Rightarrow> 'h flow_table \<Rightarrow> l2l4_result \<Rightarrow> update_result \<Rightarrow>
   ('h flow_table \<times> packet_action) option" where
  "worker_decide env ft l r =
     (case ur_status r of
        REASSEMBLY_CACHED \<Rightarrow>
          Some (ft, case ur_cached_action r of Some a \<Rightarrow> a | None \<Rightarrow> ACTION_FORWARD)
      | REASSEMBLY_READY \<Rightarrow> do {
          (scan_str, scan_len) \<leftarrow> ur_out r;
          action \<leftarrow> dpi_engine_scan (we_hs env) (we_engine env) (we_scratch env) (l2l4_type l)
                      (take scan_len scan_str);
          ft \<leftarrow> parser_flow_cache_verdict (we_hash env) ft (l2l4_key l) action;
          Some (ft, action) }
      | REASSEMBLY_NO_SNI \<Rightarrow> do {
          ft \<leftarrow> parser_flow_cache_verdict (we_hash env) ft (l2l4_key l) ACTION_FORWARD;
          Some (ft, ACTION_FORWARD) }
      | REASSEMBLY_PENDING \<Rightarrow> Some (ft, ACTION_FORWARD)
      | REASSEMBLY_GIVE_UP \<Rightarrow> Some (ft, ACTION_FORWARD))"

text \<open>\<open>fwd[fwd_n++] = pkt\<close> on an array of \<open>BURST_SIZE\<close> cells.\<close>

definition push_fwd :: "rte_mbuf list \<Rightarrow> rte_mbuf \<Rightarrow> rte_mbuf list option" where
  "push_fwd fwd pkt = (if length fwd < BURST_SIZE then Some (fwd @ [pkt]) else None)"

definition worker_packet ::
  "('h, 'd, 's) worker_env \<Rightarrow> 'h worker_state \<Rightarrow> rte_mbuf \<times> u64 \<times> u64 \<Rightarrow> 'h worker_state option" where
  "worker_packet env w inp = (case inp of (pkt, now_sweep, now) \<Rightarrow> do {
     p \<leftarrow> parser_parse_l2_l4 pkt;
     case p of
       None \<Rightarrow> do {
         t \<leftarrow> stats_count_classified (wk_stats w) (we_lcore env) TRAFFIC_NON_DPI;
         t \<leftarrow> stats_count_dropped t (we_lcore env);
         Some (w\<lparr>wk_stats := t, wk_freed := wk_freed w @ [pkt]\<rparr>) }
     | Some l \<Rightarrow> do {
         t \<leftarrow> stats_count_classified (wk_stats w) (we_lcore env) (l2l4_type l);
         (ft, r) \<leftarrow> parser_flow_update (we_hash env) (wk_ft w) l now_sweep now;
         (ft, action) \<leftarrow> worker_decide env ft l r;
         t \<leftarrow> (if ur_no_sni r then stats_count_tls_no_sni t (we_lcore env) else Some t);
         if action = ACTION_DROP then do {
           t \<leftarrow> stats_count_dropped t (we_lcore env);
           Some (w\<lparr>wk_ft := ft, wk_stats := t, wk_freed := wk_freed w @ [pkt]\<rparr>) }
         else do {
           fwd \<leftarrow> push_fwd (wk_fwd w) pkt;
           Some (w\<lparr>wk_ft := ft, wk_stats := t, wk_fwd := fwd\<rparr>) } } })"

text \<open>
  One iteration of the thread's loop: a burst from the input ring, its packets in turn, and the
  forward array to the TX ring; what the TX ring does not take is dropped. \<open>clock i\<close> are the two
  clock readings of the burst's packet \<open>i\<close>.
\<close>

definition count_n ::
  "(stats_table \<Rightarrow> nat \<Rightarrow> stats_table option) \<Rightarrow> nat \<Rightarrow> stats_table \<Rightarrow> nat \<Rightarrow> stats_table option" where
  "count_n cnt lcore t n = fold_opt (\<lambda>t _. cnt t lcore) t (replicate n ())"

definition worker_flush ::
  "('h, 'd, 's) worker_env \<Rightarrow> 'r ring_ops \<Rightarrow> 'h worker_state \<Rightarrow> 'r \<Rightarrow> ('h worker_state \<times> 'r) option" where
  "worker_flush env R w tx_ring =
     (if length (wk_fwd w) > 0 then
        case ring_enqueue_burst R tx_ring (wk_fwd w) of (tx_ring, sent) \<Rightarrow> do {
          t \<leftarrow> count_n stats_count_forwarded (we_lcore env) (wk_stats w) sent;
          t \<leftarrow> count_n stats_count_dropped (we_lcore env) t (length (wk_fwd w) - sent);
          Some (w\<lparr>wk_stats := t, wk_freed := wk_freed w @ drop sent (wk_fwd w)\<rparr>, tx_ring) }
      else Some (w, tx_ring))"

definition worker_iteration ::
  "('h, 'd, 's) worker_env \<Rightarrow> 'r ring_ops \<Rightarrow> 'h worker_state \<Rightarrow> 'r \<Rightarrow> 'r \<Rightarrow> (nat \<Rightarrow> u64 \<times> u64) \<Rightarrow>
   ('h worker_state \<times> 'r \<times> 'r) option" where
  "worker_iteration env R w in_ring tx_ring clock =
     (case ring_dequeue_burst R in_ring BURST_SIZE of (in_ring, bufs) \<Rightarrow>
        if length bufs = 0 then Some (w, in_ring, tx_ring)
        else do {
          w \<leftarrow> fold_opt (worker_packet env) (w\<lparr>wk_fwd := []\<rparr>)
                 (zip bufs (map clock [0..<length bufs]));
          (w, tx_ring) \<leftarrow> worker_flush env R w tx_ring;
          Some (w, in_ring, tx_ring) })"

section \<open>What one packet does\<close>

text \<open>
  The outcome of a packet, for a table seen as the map of flows: the verdict on the packet, the map
  afterwards and whether the packet counts as not inspected.
\<close>

definition scan_verdict ::
  "('h, 'd, 's) worker_env \<Rightarrow> traffic_type \<Rightarrow> byte list \<Rightarrow> packet_action" where
  "scan_verdict env ty str =
     (case dpi_engine_scan (we_hs env) (we_engine env) (we_scratch env) ty str of
        Some a \<Rightarrow> a | None \<Rightarrow> ACTION_FORWARD)"

definition scan_safe :: "('h, 'd, 's) worker_env \<Rightarrow> bool" where
  "scan_safe env \<longleftrightarrow> (\<forall>ty str. ty \<in> {TRAFFIC_HTTP, TRAFFIC_HTTPS} \<longrightarrow>
     dpi_engine_scan (we_hs env) (we_engine env) (we_scratch env) ty str \<noteq> None)"

definition verdict_of ::
  "('h, 'd, 's) worker_env \<Rightarrow> traffic_type \<Rightarrow> update_result \<Rightarrow> packet_action" where
  "verdict_of env ty r =
     (case answer r of
        (REASSEMBLY_READY, Some str) \<Rightarrow> scan_verdict env ty str
      | (REASSEMBLY_CACHED, _) \<Rightarrow> (case ur_cached_action r of Some a \<Rightarrow> a | None \<Rightarrow> ACTION_FORWARD)
      | _ \<Rightarrow> ACTION_FORWARD)"

definition decides :: "update_result \<Rightarrow> bool" where
  "decides r \<longleftrightarrow> ur_status r \<in> {REASSEMBLY_READY, REASSEMBLY_NO_SNI}"

text \<open>The map after the verdict is cached, if the packet decides the flow.\<close>

definition after_verdict ::
  "(flow_key \<rightharpoonup> flow_state) \<Rightarrow> flow_key \<Rightarrow> update_result \<Rightarrow> packet_action \<Rightarrow> flow_key \<rightharpoonup> flow_state" where
  "after_verdict F k r a =
     (if decides r then (case F k of None \<Rightarrow> F | Some st \<Rightarrow> F(k \<mapsto> set_verdict st a)) else F)"

text \<open>A result of \<open>parser_flow_update\<close> has a string exactly when it is ready.\<close>

definition result_ok :: "traffic_type \<Rightarrow> update_result \<Rightarrow> bool" where
  "result_ok ty r \<longleftrightarrow>
     (ur_status r = REASSEMBLY_READY \<longrightarrow> ur_out r \<noteq> None) \<and>
     (ur_status r = REASSEMBLY_CACHED \<longrightarrow> ur_cached_action r \<noteq> None) \<and>
     (ur_no_sni r \<longrightarrow> ty = TRAFFIC_HTTPS)"

lemma scan_request_ready:
  "fst (scan_request ty p) = REASSEMBLY_READY \<Longrightarrow> snd (scan_request ty p) \<noteq> None"
  "fst (scan_request ty p) \<noteq> REASSEMBLY_CACHED"
  "fst (scan_request ty p) = REASSEMBLY_NO_SNI \<Longrightarrow> ty \<noteq> TRAFFIC_HTTP"
  by (auto simp: scan_request_def give_up_or_wait_def split: option.splits tls_sni_result.splits if_splits)

lemma extracted_result:
  assumes "extracted st1 ty st' r"
  shows "ur_status r \<noteq> REASSEMBLY_CACHED" "ur_status r = REASSEMBLY_READY \<Longrightarrow> ur_out r \<noteq> None"
    "ur_no_sni r \<Longrightarrow> ty \<noteq> TRAFFIC_HTTP"
  using assms scan_request_ready [of ty "contig_prefix st1"]
  by (auto simp: extracted_def answer_def prod_eq_iff)

lemma flow_state_update_result:
  assumes "flow_ok (l2l4_key l) st" "l2l4_ok l" "flow_state_update st l now = Some (st', r)"
  shows "result_ok (l2l4_type l) r"
proof -
  have ty: "l2l4_type l = st_type st" "st_type st \<in> {TRAFFIC_HTTP, TRAFFIC_HTTPS}"
    using assms(1,2) by (auto simp: flow_ok_def l2l4_ok_def classify_port_def split: if_splits)
  show ?thesis
  proof (cases "st_verdict_cached st")
    case True
    then show ?thesis using assms(1,3) ty
      by (auto simp: flow_state_update_cached result_ok_def flow_ok_def)
  next
    case False
    have "flow_inv st" "seg_ok l" using assms(1,2) by (simp_all add: flow_ok_def l2l4_ok_def)
    then obtain st1 where "extracted st1 (l2l4_type l) st' r"
      using flow_state_update_open [OF _ _ False, of l now] assms(3) by auto
    note x = extracted_result [OF this]
    show ?thesis using x ty by (auto simp: result_ok_def)
  qed
qed

lemma new_flow_is_ok: "l2l4_ok l \<Longrightarrow> flow_ok (l2l4_key l) (new_flow (l2l4_type l))"
  by (simp add: l2l4_ok_def flow_ok_def)

lemma packet_effect_result:
  assumes "packet_effect F1 l now F2 r" "l2l4_ok l" "\<forall>k st. F1 k = Some st \<longrightarrow> flow_ok k st"
  shows "result_ok (l2l4_type l) r"
  using assms(1) unfolding packet_effect_def
proof (elim disjE exE conjE)
  assume "r = only_status REASSEMBLY_GIVE_UP"
  then show ?thesis by (simp add: result_ok_def)
next
  fix st'
  let ?st = "case F1 (l2l4_key l) of Some st \<Rightarrow> st | None \<Rightarrow> new_flow (l2l4_type l)"
  assume u: "flow_state_update ?st l now = Some (st', r)"
  have "flow_ok (l2l4_key l) ?st"
    using assms(3) new_flow_is_ok [OF assms(2)] by (simp split: option.split)
  then show ?thesis using assms(2) u by (rule flow_state_update_result)
qed

lemma flow_update_timeout:
  assumes "parser_flow_update H ft l ts now = Some (ft', r)"
  shows "ft_timeout_cycles ft' = ft_timeout_cycles ft"
  using assms
  by (auto simp: parser_flow_update_def flow_table_expire_def flow_slot_def Let_def
      split: Option.bind_splits if_splits prod.splits)

lemma parsed_ok:
  assumes "parser_parse_l2_l4 pkt = Some (Some l)" "mbuf_ok pkt"
  shows "l2l4_ok l" "l2l4_type l \<in> {TRAFFIC_HTTP, TRAFFIC_HTTPS}"
proof -
  have e: "extract_headers pkt = Some (Some l)" using assms(1) by (simp add: parser_parse_l2_l4_def)
  show "l2l4_ok l"
    using extract_headers_SomeD [OF e] assms(2) by (auto simp: l2l4_ok_def seg_ok_def mbuf_ok_def)
  show "l2l4_type l \<in> {TRAFFIC_HTTP, TRAFFIC_HTTPS}" by (rule extract_headers_type [OF e])
qed

lemma parse_defined: "\<exists>p. parser_parse_l2_l4 pkt = Some p"
  using extract_headers_defined by (simp add: parser_parse_l2_l4_def)

text \<open>The counters of one packet: its class, the missing SNI, the drop.\<close>

definition count_class :: "traffic_type \<Rightarrow> core_stats \<Rightarrow> core_stats" where
  "count_class type s =
     (case type of
         TRAFFIC_HTTP \<Rightarrow> s\<lparr>http_packets := http_packets s + 1\<rparr>
       | TRAFFIC_HTTPS \<Rightarrow> s\<lparr>https_packets := https_packets s + 1\<rparr>
       | TRAFFIC_NON_DPI \<Rightarrow> s\<lparr>non_dpi_packets := non_dpi_packets s + 1\<rparr>)"

definition count_packet :: "traffic_type \<Rightarrow> bool \<Rightarrow> bool \<Rightarrow> core_stats \<Rightarrow> core_stats" where
  "count_packet type no_sni dropped s =
     (let s = count_class type s;
          s = (if no_sni then s\<lparr>tls_ech_or_no_sni_packets := tls_ech_or_no_sni_packets s + 1\<rparr> else s)
      in if dropped then s\<lparr>dropped_packets := dropped_packets s + 1\<rparr> else s)"

text \<open>The state after a packet with a verdict.\<close>

definition account ::
  "('h, 'd, 's) worker_env \<Rightarrow> 'h worker_state \<Rightarrow> rte_mbuf \<Rightarrow> traffic_type \<Rightarrow> bool \<Rightarrow> packet_action \<Rightarrow>
   'h flow_table \<Rightarrow> 'h worker_state" where
  "account env w pkt ty no_sni a ft =
     w\<lparr>wk_ft := ft,
       wk_stats := (wk_stats w)[we_lcore env :=
         count_packet ty no_sni (a = ACTION_DROP) (wk_stats w ! we_lcore env)],
       wk_fwd := (if a = ACTION_DROP then wk_fwd w else wk_fwd w @ [pkt]),
       wk_freed := (if a = ACTION_DROP then wk_freed w @ [pkt] else wk_freed w)\<rparr>"

definition worker_inv ::
  "('h \<Rightarrow> bool) \<Rightarrow> ('h \<Rightarrow> flow_key \<rightharpoonup> nat) \<Rightarrow> ('h, 'd, 's) worker_env \<Rightarrow> 'h worker_state \<Rightarrow> bool" where
  "worker_inv ok keys env w \<longleftrightarrow>
     table_inv ok keys (wk_ft w) \<and> we_lcore env < length (wk_stats w)"

lemma decide_spec:
  assumes "rte_hash_contract (we_hash env) ok keys slots" and inv: "table_inv ok keys ft"
    and ok: "result_ok (l2l4_type l) r" and "scan_safe env"
    and "l2l4_type l \<in> {TRAFFIC_HTTP, TRAFFIC_HTTPS}"
  defines "a \<equiv> verdict_of env (l2l4_type l) r"
  shows "\<exists>ft'. worker_decide env ft l r = Some (ft', a) \<and> table_inv ok keys ft' \<and>
    ft_timeout_cycles ft' = ft_timeout_cycles ft \<and>
    flow_of keys ft' = after_verdict (flow_of keys ft) (l2l4_key l) r a"
proof -
  note cv = rte_hash_contract.cache_verdict_spec [OF assms(1) inv, of "l2l4_key l"]
  show ?thesis
  proof (cases "ur_status r")
    case REASSEMBLY_READY
    then obtain str len where out: "ur_out r = Some (str, len)" using ok by (auto simp: result_ok_def)
    obtain b where b: "dpi_engine_scan (we_hs env) (we_engine env) (we_scratch env) (l2l4_type l)
        (take len str) = Some b"
      using assms(4,5) unfolding scan_safe_def by blast
    have "a = b" using REASSEMBLY_READY out b by (simp add: a_def verdict_of_def answer_def scan_verdict_def)
    then show ?thesis
      using cv [of b] REASSEMBLY_READY out b
      by (auto simp: worker_decide_def after_verdict_def decides_def)
  next
    case REASSEMBLY_NO_SNI
    then show ?thesis
      using cv [of ACTION_FORWARD]
      by (auto simp: worker_decide_def after_verdict_def decides_def a_def verdict_of_def answer_def)
  qed (use inv in \<open>simp_all add: worker_decide_def after_verdict_def decides_def a_def
         verdict_of_def answer_def\<close>)
qed

lemma worker_packet_rejected:
  assumes "worker_inv ok keys env w" "parser_parse_l2_l4 pkt = Some None"
  shows "worker_packet env w (pkt, ts, now) =
    Some (account env w pkt TRAFFIC_NON_DPI False ACTION_DROP (wk_ft w))"
  using assms
  by (simp add: worker_packet_def worker_inv_def stats_defs on_core_in account_def count_packet_def
      count_class_def)

lemma worker_packet_parsed:
  assumes con: "rte_hash_contract (we_hash env) ok keys slots" and inv: "worker_inv ok keys env w"
    and safe: "scan_safe env" and pkt: "mbuf_ok pkt" "parser_parse_l2_l4 pkt = Some (Some l)"
    and room: "length (wk_fwd w) < BURST_SIZE"
  shows "\<exists>ft' r F1 F2. worker_packet env w (pkt, ts, now) =
      Some (account env w pkt (l2l4_type l) (ur_no_sni r) (verdict_of env (l2l4_type l) r) ft') \<and>
    table_inv ok keys ft' \<and> ft_timeout_cycles ft' = ft_timeout_cycles (wk_ft w) \<and>
    result_ok (l2l4_type l) r \<and>
    (\<exists>ft1. parser_flow_update (we_hash env) (wk_ft w) l ts now = Some (ft1, r) \<and>
       worker_decide env ft1 l r = Some (ft', verdict_of env (l2l4_type l) r)) \<and>
    (if (ft_call_count (wk_ft w) + 1) mod 256 = 0
     then swept (ft_timeout_cycles (wk_ft w)) ts (flow_of keys (wk_ft w)) F1
     else F1 = flow_of keys (wk_ft w)) \<and>
    packet_effect F1 l now F2 r \<and>
    flow_of keys ft' = after_verdict F2 (l2l4_key l) r (verdict_of env (l2l4_type l) r)"
proof -
  note l = parsed_ok [OF pkt(2,1)]
  have t: "table_inv ok keys (wk_ft w)" and lc: "we_lcore env < length (wk_stats w)"
    using inv by (simp_all add: worker_inv_def)
  obtain ft1 r F1 where u: "parser_flow_update (we_hash env) (wk_ft w) l ts now = Some (ft1, r)"
    "table_inv ok keys ft1"
    "if (ft_call_count (wk_ft w) + 1) mod 256 = 0
     then swept (ft_timeout_cycles (wk_ft w)) ts (flow_of keys (wk_ft w)) F1
     else F1 = flow_of keys (wk_ft w)"
    "packet_effect F1 l now (flow_of keys ft1) r"
    using rte_hash_contract.update_spec [OF con t l(1)] by blast
  have "F1 \<subseteq>\<^sub>m flow_of keys (wk_ft w)" using u(3) by (auto simp: swept_def split: if_splits)
  then have "\<forall>k st. F1 k = Some st \<longrightarrow> flow_ok k st"
    using t by (metis domI map_le_def table_inv_def)
  then have r: "result_ok (l2l4_type l) r" by (rule packet_effect_result [OF u(4) l(1)])
  let ?a = "verdict_of env (l2l4_type l) r"
  obtain ft' where d: "worker_decide env ft1 l r = Some (ft', ?a)" "table_inv ok keys ft'"
    "ft_timeout_cycles ft' = ft_timeout_cycles ft1"
    "flow_of keys ft' = after_verdict (flow_of keys ft1) (l2l4_key l) r ?a"
    using decide_spec [OF con u(2) r safe l(2)] by blast
  have "worker_packet env w (pkt, ts, now) =
      Some (account env w pkt (l2l4_type l) (ur_no_sni r) ?a ft')"
    using pkt(2) u(1) d(1) lc room
    by (simp add: worker_packet_def stats_defs on_core_in account_def count_packet_def
        count_class_def push_fwd_def Let_def)
  then show ?thesis
    using d u(1,3,4) r flow_update_timeout [OF u(1)] by (metis (no_types, lifting))
qed

section \<open>What a burst does\<close>

text \<open>The class of a packet, whether it counts as not inspected, and whether it was dropped.\<close>

type_synonym outcome = "traffic_type \<times> bool \<times> bool"

definition outcome_ok :: "outcome \<Rightarrow> bool" where
  "outcome_ok o1 \<longleftrightarrow> (case o1 of (ty, no_sni, dropped) \<Rightarrow>
     (no_sni \<longrightarrow> ty = TRAFFIC_HTTPS) \<and> (ty = TRAFFIC_NON_DPI \<longrightarrow> dropped))"

definition count_outcome :: "outcome \<Rightarrow> core_stats \<Rightarrow> core_stats" where
  "count_outcome o1 = (case o1 of (ty, no_sni, dropped) \<Rightarrow> count_packet ty no_sni dropped)"

definition was_dropped :: "outcome \<Rightarrow> bool" where
  "was_dropped o1 = snd (snd o1)"

definition picked :: "(outcome \<Rightarrow> bool) \<Rightarrow> rte_mbuf list \<Rightarrow> outcome list \<Rightarrow> rte_mbuf list" where
  "picked P bufs outs = map fst (filter (\<lambda>p. P (snd p)) (zip bufs outs))"

lemma worker_packet_outcome:
  assumes "rte_hash_contract (we_hash env) ok keys slots" "worker_inv ok keys env w"
    and "scan_safe env" "mbuf_ok pkt" "length (wk_fwd w) < BURST_SIZE"
  shows "\<exists>w' out. worker_packet env w (pkt, ts, now) = Some w' \<and> worker_inv ok keys env w' \<and>
    outcome_ok out \<and> length (wk_stats w') = length (wk_stats w) \<and>
    wk_stats w' = (wk_stats w)[we_lcore env := count_outcome out (wk_stats w ! we_lcore env)] \<and>
    wk_fwd w' = wk_fwd w @ picked (\<lambda>x. \<not> was_dropped x) [pkt] [out] \<and>
    wk_freed w' = wk_freed w @ picked was_dropped [pkt] [out]"
proof -
  obtain p where p: "parser_parse_l2_l4 pkt = Some p" using parse_defined by blast
  show ?thesis
  proof (cases p)
    case None
    then show ?thesis
      using worker_packet_rejected [OF assms(2)] p assms(2)
      by (intro exI [of _ "account env w pkt TRAFFIC_NON_DPI False ACTION_DROP (wk_ft w)"]
          exI [of _ "(TRAFFIC_NON_DPI, False, True)"])
        (simp add: account_def worker_inv_def outcome_ok_def count_outcome_def picked_def was_dropped_def)
  next
    case (Some l)
    obtain ft' r where w: "worker_packet env w (pkt, ts, now) =
        Some (account env w pkt (l2l4_type l) (ur_no_sni r) (verdict_of env (l2l4_type l) r) ft')"
      "table_inv ok keys ft'" "result_ok (l2l4_type l) r"
      using worker_packet_parsed [OF assms(1-4) _ assms(5)] p Some by blast
    have "l2l4_type l \<noteq> TRAFFIC_NON_DPI" using parsed_ok(2) [OF _ assms(4)] p Some by auto
    then show ?thesis
      using w assms(2)
      by (intro exI [of _ "account env w pkt (l2l4_type l) (ur_no_sni r) (verdict_of env (l2l4_type l) r) ft'"]
          exI [of _ "(l2l4_type l, ur_no_sni r, verdict_of env (l2l4_type l) r = ACTION_DROP)"])
        (simp add: account_def worker_inv_def outcome_ok_def count_outcome_def picked_def was_dropped_def
          result_ok_def)
  qed
qed

lemma worker_packets_outcomes:
  assumes "rte_hash_contract (we_hash env) ok keys slots" "scan_safe env"
    and "worker_inv ok keys env w" "\<forall>p \<in> set ps. mbuf_ok (fst p)"
    and "length (wk_fwd w) + length ps \<le> BURST_SIZE"
  shows "\<exists>w' outs. fold_opt (worker_packet env) w ps = Some w' \<and> worker_inv ok keys env w' \<and>
    length outs = length ps \<and> (\<forall>x \<in> set outs. outcome_ok x) \<and>
    length (wk_stats w') = length (wk_stats w) \<and>
    wk_stats w' = (wk_stats w)[we_lcore env := fold count_outcome outs (wk_stats w ! we_lcore env)] \<and>
    wk_fwd w' = wk_fwd w @ picked (\<lambda>x. \<not> was_dropped x) (map fst ps) outs \<and>
    wk_freed w' = wk_freed w @ picked was_dropped (map fst ps) outs"
  using assms(3-5)
proof (induction ps arbitrary: w)
  case Nil
  then show ?case by (auto simp: picked_def)
next
  case (Cons p ps)
  obtain pkt ts now where p: "p = (pkt, ts, now)" by (metis prod_cases3)
  obtain w1 out where w1: "worker_packet env w p = Some w1" "worker_inv ok keys env w1"
    "outcome_ok out" "length (wk_stats w1) = length (wk_stats w)"
    "wk_stats w1 = (wk_stats w)[we_lcore env := count_outcome out (wk_stats w ! we_lcore env)]"
    "wk_fwd w1 = wk_fwd w @ picked (\<lambda>x. \<not> was_dropped x) [pkt] [out]"
    "wk_freed w1 = wk_freed w @ picked was_dropped [pkt] [out]"
    using worker_packet_outcome [OF assms(1) Cons.prems(1) assms(2), of pkt ts now] Cons.prems p
    by auto
  have lc: "we_lcore env < length (wk_stats w)" using Cons.prems(1) by (simp add: worker_inv_def)
  have "length (wk_fwd w1) + length ps \<le> 32"
    using w1(6) Cons.prems(3) by (auto simp: picked_def)
  then obtain w' outs where w': "fold_opt (worker_packet env) w1 ps = Some w'"
    "worker_inv ok keys env w'" "length outs = length ps" "\<forall>x \<in> set outs. outcome_ok x"
    "length (wk_stats w') = length (wk_stats w1)"
    "wk_stats w' = (wk_stats w1)[we_lcore env := fold count_outcome outs (wk_stats w1 ! we_lcore env)]"
    "wk_fwd w' = wk_fwd w1 @ picked (\<lambda>x. \<not> was_dropped x) (map fst ps) outs"
    "wk_freed w' = wk_freed w1 @ picked was_dropped (map fst ps) outs"
    using Cons.IH [OF w1(2)] Cons.prems(2) by auto
  show ?case
    using w1 w' p lc
    by (intro exI [of _ w'] exI [of _ "out # outs"]) (auto simp: picked_def)
qed

end
