(* ===== verification/Worker_Properties.thy ===== *)
theory Worker_Properties
  imports Worker "HOL-Library.Sublist" "HOL-Library.Multiset"
begin

text \<open>
  Properties of the worker thread: a burst neither loses nor duplicates a packet and its counters
  agree with what happened to the packets; and a verdict, once reached, holds for the flow as long as
  the flow stays within the idle timeout, across everything else the worker does.
\<close>

section \<open>Counters of a burst\<close>

definition processed :: "core_stats \<Rightarrow> u64" where
  "processed s = http_packets s + https_packets s + non_dpi_packets s"

lemma processed_upd [simp]:
  "processed (s\<lparr>forwarded_packets := x\<rparr>) = processed s"
  "processed (s\<lparr>dropped_packets := x\<rparr>) = processed s"
  by (simp_all add: processed_def)

lemma count_outcome_fields:
  "processed (count_outcome x s) = processed s + 1"
  "https_packets (count_outcome x s) = https_packets s + (if fst x = TRAFFIC_HTTPS then 1 else 0)"
  "dropped_packets (count_outcome x s) = dropped_packets s + (if was_dropped x then 1 else 0)"
  "forwarded_packets (count_outcome x s) = forwarded_packets s"
  "rx_packets (count_outcome x s) = rx_packets s"
  "tx_packets (count_outcome x s) = tx_packets s"
  "tls_ech_or_no_sni_packets (count_outcome x s) =
     tls_ech_or_no_sni_packets s + (if fst (snd x) then 1 else 0)"
  by (cases x; cases "fst x"; simp add: count_outcome_def count_packet_def count_class_def processed_def
      was_dropped_def Let_def)+

lemma fold_count_outcome:
  "processed (fold count_outcome outs s) = processed s + of_nat (length outs)"
  "https_packets (fold count_outcome outs s) =
     https_packets s + of_nat (length (filter (\<lambda>x. fst x = TRAFFIC_HTTPS) outs))"
  "dropped_packets (fold count_outcome outs s) =
     dropped_packets s + of_nat (length (filter was_dropped outs))"
  "forwarded_packets (fold count_outcome outs s) = forwarded_packets s"
  "rx_packets (fold count_outcome outs s) = rx_packets s"
  "tx_packets (fold count_outcome outs s) = tx_packets s"
  "tls_ech_or_no_sni_packets (fold count_outcome outs s) =
     tls_ech_or_no_sni_packets s + of_nat (length (filter (\<lambda>x. fst (snd x)) outs))"
  by (induction outs arbitrary: s) (simp_all add: count_outcome_fields)

lemma count_n_forwarded:
  assumes "l < length t"
  shows "count_n stats_count_forwarded l t n =
    Some (t[l := (t ! l)\<lparr>forwarded_packets := forwarded_packets (t ! l) + of_nat n\<rparr>])"
  using assms
proof (induction n arbitrary: t)
  case (Suc n)
  then show ?case by (simp add: count_n_def stats_count_forwarded_def on_core_in ac_simps)
qed (simp add: count_n_def)

lemma count_n_dropped:
  assumes "l < length t"
  shows "count_n stats_count_dropped l t n =
    Some (t[l := (t ! l)\<lparr>dropped_packets := dropped_packets (t ! l) + of_nat n\<rparr>])"
  using assms
proof (induction n arbitrary: t)
  case (Suc n)
  then show ?case by (simp add: count_n_def stats_count_dropped_def on_core_in ac_simps)
qed (simp add: count_n_def)

lemma length_picked:
  "length bufs = length outs \<Longrightarrow> length (picked P bufs outs) = length (filter P outs)"
  by (induction bufs outs rule: list_induct2) (auto simp: picked_def)

lemma mset_picked:
  "length bufs = length outs \<Longrightarrow>
   mset (picked (\<lambda>x. \<not> P x) bufs outs) + mset (picked P bufs outs) = mset bufs"
  by (induction bufs outs rule: list_induct2) (auto simp: picked_def)

lemma flush_spec:
  assumes "rte_ring_contract R contents" and "we_lcore env < length (wk_stats w)"
  shows "\<exists>w' tx' sent. worker_flush env R w tx = Some (w', tx') \<and> sent \<le> length (wk_fwd w) \<and>
    contents tx' = contents tx @ take sent (wk_fwd w) \<and>
    wk_freed w' = wk_freed w @ drop sent (wk_fwd w) \<and> wk_ft w' = wk_ft w \<and>
    wk_stats w' = (wk_stats w)[we_lcore env := (wk_stats w ! we_lcore env)
      \<lparr>forwarded_packets := forwarded_packets (wk_stats w ! we_lcore env) + of_nat sent,
       dropped_packets := dropped_packets (wk_stats w ! we_lcore env) +
         of_nat (length (wk_fwd w) - sent)\<rparr>]"
proof (cases "length (wk_fwd w) > 0")
  case False
  then show ?thesis by (intro exI [of _ w] exI [of _ tx] exI [of _ 0]) (simp add: worker_flush_def)
next
  case True
  obtain tx' sent where e: "ring_enqueue_burst R tx (wk_fwd w) = (tx', sent)" by (metis surj_pair)
  have c: "sent \<le> length (wk_fwd w)" "contents tx' = contents tx @ take sent (wk_fwd w)"
    using rte_ring_contract.enqueue [OF assms(1) e] by auto
  then show ?thesis
    using True e assms(2)
    by (auto simp: worker_flush_def count_n_forwarded count_n_dropped intro!: exI [of _ sent])
qed

text \<open>What happened to the counters of the worker's lcore when \<open>n\<close> packets were handled.\<close>

definition burst_counted :: "nat \<Rightarrow> nat \<Rightarrow> nat \<Rightarrow> core_stats \<Rightarrow> core_stats \<Rightarrow> bool" where
  "burst_counted n forwarded freed s s' \<longleftrightarrow>
     processed s' = processed s + of_nat n \<and>
     forwarded_packets s' = forwarded_packets s + of_nat forwarded \<and>
     dropped_packets s' = dropped_packets s + of_nat freed \<and>
     (\<exists>https no_sni. no_sni \<le> https \<and> https \<le> n \<and>
        https_packets s' = https_packets s + of_nat https \<and>
        tls_ech_or_no_sni_packets s' = tls_ech_or_no_sni_packets s + of_nat no_sni)"

lemma no_sni_le_https:
  "\<forall>x \<in> set outs. outcome_ok x \<Longrightarrow>
   length (filter (\<lambda>x. fst (snd x)) outs) \<le> length (filter (\<lambda>x. fst x = TRAFFIC_HTTPS) outs)"
  by (induction outs) (auto simp: outcome_ok_def)

lemma picked_subseq: "length bufs = length outs \<Longrightarrow> subseq (picked P bufs outs) bufs"
proof -
  assume "length bufs = length outs"
  then have "map fst (zip bufs outs) = bufs" by simp
  then show ?thesis unfolding picked_def by (metis subseq_filter_left subseq_map)
qed

lemma worker_iteration_spec:
  assumes "rte_hash_contract (we_hash env) ok keys slots" and "rte_ring_contract R contents"
    and "scan_safe env" and "worker_inv ok keys env w" and "\<forall>p \<in> set (contents inr). mbuf_ok p"
  obtains w' inr' tx' bufs fwd dropped where
    "worker_iteration env R w inr tx clock = Some (w', inr', tx')" "worker_inv ok keys env w'"
    "length bufs \<le> BURST_SIZE" "contents inr = bufs @ contents inr'"
    "contents tx' = contents tx @ fwd" "wk_freed w' = wk_freed w @ dropped"
    "mset fwd + mset dropped = mset bufs" "subseq fwd bufs"
    "burst_counted (length bufs) (length fwd) (length dropped)
      (wk_stats w ! we_lcore env) (wk_stats w' ! we_lcore env)"
    "wk_stats w' = (wk_stats w)[we_lcore env := wk_stats w' ! we_lcore env]"
    "rx_packets (wk_stats w' ! we_lcore env) = rx_packets (wk_stats w ! we_lcore env)"
    "tx_packets (wk_stats w' ! we_lcore env) = tx_packets (wk_stats w ! we_lcore env)"
proof -
  obtain inr' bufs where d: "ring_dequeue_burst R inr BURST_SIZE = (inr', bufs)" by (metis surj_pair)
  have b: "length bufs \<le> 32" "contents inr = bufs @ contents inr'"
    using rte_ring_contract.dequeue [OF assms(2) d] by auto
  have lc: "we_lcore env < length (wk_stats w)" using assms(4) by (simp add: worker_inv_def)
  show ?thesis
  proof (cases "length bufs = 0")
    case True
    then show ?thesis
      using d b assms(4)
      by (intro that [of w inr' tx bufs "[]" "[]"]) (auto simp: worker_iteration_def burst_counted_def)
  next
    case False
    let ?ps = "zip bufs (map clock [0..<length bufs])"
    have ps: "map fst ?ps = bufs" "length ?ps = length bufs" "\<forall>p \<in> set ?ps. mbuf_ok (fst p)"
      using assms(5) b(2) by (auto dest: set_zip_leftD)
    have inv0: "worker_inv ok keys env (w\<lparr>wk_fwd := []\<rparr>)" using assms(4) by (simp add: worker_inv_def)
    obtain w1 outs where w1: "fold_opt (worker_packet env) (w\<lparr>wk_fwd := []\<rparr>) ?ps = Some w1"
      "worker_inv ok keys env w1" "length outs = length bufs" "\<forall>x \<in> set outs. outcome_ok x"
      "length (wk_stats w1) = length (wk_stats w)"
      "wk_stats w1 = (wk_stats w)[we_lcore env := fold count_outcome outs (wk_stats w ! we_lcore env)]"
      "wk_fwd w1 = picked (\<lambda>x. \<not> was_dropped x) bufs outs"
      "wk_freed w1 = wk_freed w @ picked was_dropped bufs outs"
      using worker_packets_outcomes [OF assms(1,3) inv0 ps(3)] b(1) unfolding ps(1,2) by auto
    obtain w' tx' sent where f: "worker_flush env R w1 tx = Some (w', tx')" "sent \<le> length (wk_fwd w1)"
      "contents tx' = contents tx @ take sent (wk_fwd w1)"
      "wk_freed w' = wk_freed w1 @ drop sent (wk_fwd w1)" "wk_ft w' = wk_ft w1"
      "wk_stats w' = (wk_stats w1)[we_lcore env := (wk_stats w1 ! we_lcore env)
        \<lparr>forwarded_packets := forwarded_packets (wk_stats w1 ! we_lcore env) + of_nat sent,
         dropped_packets := dropped_packets (wk_stats w1 ! we_lcore env) +
           of_nat (length (wk_fwd w1) - sent)\<rparr>]"
      using flush_spec [OF assms(2), of env w1 tx] lc w1(5) by auto
    let ?fwd = "take sent (wk_fwd w1)" and ?dr = "picked was_dropped bufs outs @ drop sent (wk_fwd w1)"
    have it: "worker_iteration env R w inr tx clock = Some (w', inr', tx')"
      using d False w1(1) f(1) by (simp add: worker_iteration_def)
    have inv: "worker_inv ok keys env w'" using w1(2) f(5,6) by (simp add: worker_inv_def)
    have "mset ?fwd + mset (drop sent (wk_fwd w1)) = mset (wk_fwd w1)"
      by (metis append_take_drop_id mset_append)
    then have ms: "mset ?fwd + mset ?dr = mset bufs"
      using mset_picked [of bufs outs was_dropped] w1(3,7) by (simp add: ac_simps)
    have sub: "subseq ?fwd bufs"
      using subseq_order.trans [OF prefix_imp_subseq [OF take_is_prefix] picked_subseq] w1(3,7) by metis
    have "length ?dr = length (filter was_dropped outs) + (length (wk_fwd w1) - sent)"
      using w1(3) length_picked [of bufs outs was_dropped] by simp
    then have counted: "burst_counted (length bufs) (length ?fwd) (length ?dr)
        (wk_stats w ! we_lcore env) (wk_stats w' ! we_lcore env)"
      using w1(3,6) f(2,6) lc no_sni_le_https [OF w1(4)] length_filter_le [of _ outs]
      by (auto simp: burst_counted_def fold_count_outcome)
    show ?thesis
      by (rule that [OF it inv _ b(2) f(3) _ ms sub counted])
        (use b(1) w1(6,8) f(4,6) lc in \<open>simp_all add: fold_count_outcome\<close>)
  qed
qed

section \<open>Properties\<close>

text \<open>
  C12: a worker's burst. Every packet taken from the input ring ends up exactly once on the TX ring
  or freed, at most 32 at a time and without leaving the forward array; the forwarded packets keep
  their order; the flow table's invariant holds; and the worker's counters say exactly that: one
  classification per packet, one forwarded count per packet put on the TX ring, one drop count per
  packet freed, also when the TX ring is full, and the missing-SNI count never exceeds the HTTPS
  count of the burst. No other slot changes.
\<close>

theorem worker_burst_conserves_packets:
  assumes "rte_hash_contract (we_hash env) ok keys slots" and "rte_ring_contract R contents"
    and "scan_safe env" and "worker_inv ok keys env w" and "\<forall>p \<in> set (contents inr). mbuf_ok p"
  shows "\<exists>w' inr' tx' bufs fwd dropped. worker_iteration env R w inr tx clock = Some (w', inr', tx') \<and>
    worker_inv ok keys env w' \<and> length bufs \<le> BURST_SIZE \<and> contents inr = bufs @ contents inr' \<and>
    contents tx' = contents tx @ fwd \<and> wk_freed w' = wk_freed w @ dropped \<and>
    mset fwd + mset dropped = mset bufs \<and> subseq fwd bufs \<and>
    burst_counted (length bufs) (length fwd) (length dropped)
      (wk_stats w ! we_lcore env) (wk_stats w' ! we_lcore env) \<and>
    wk_stats w' = (wk_stats w)[we_lcore env := wk_stats w' ! we_lcore env]"
  apply (rule worker_iteration_spec [OF assms, of tx clock])
  subgoal premises p for w' inr' tx' bufs fwd dropped
    by (rule exI [of _ w'], rule exI [of _ inr'], rule exI [of _ tx'], rule exI [of _ bufs],
        rule exI [of _ fwd], rule exI [of _ dropped], intro conjI; rule p)
  done

text \<open>A worker with no rules, an empty table and two packets waiting, one of them too short.\<close>

definition demo_env :: "(slot_hash, literal_db, unit) worker_env" where
  "demo_env = \<lparr>we_hash = slot_ops, we_hs = literal_hs, we_engine = zero_engine, we_scratch = None,
     we_lcore = 1\<rparr>"

definition demo_worker :: "slot_hash worker_state" where
  "demo_worker = \<lparr>wk_ft = empty_table 100, wk_stats = [zero_stats, zero_stats], wk_fwd = [],
     wk_freed = []\<rparr>"

definition demo_packet :: rte_mbuf where
  "demo_packet = \<lparr>mbuf_data = tcp_frame (replicate 12 0) 4 (replicate 8 0) [0, 0]
      [10, 0, 0, 1, 10, 0, 0, 2] [] [0x30, 0x39, 0, 80]
      [0, 0, 3, 233, 0, 0, 0, 0] 0 (replicate 7 0) [] [71, 69, 84], mbuf_pkt_len = 57\<rparr>"

definition short_packet :: rte_mbuf where
  "short_packet = \<lparr>mbuf_data = [1, 2, 3], mbuf_pkt_len = 3\<rparr>"

lemma demo_facts:
  "scan_safe demo_env" "worker_inv slot_ok slot_keys demo_env demo_worker"
  "rte_hash_contract (we_hash demo_env) slot_ok slot_keys FLOW_TABLE_CAPACITY"
  "mbuf_ok demo_packet" "mbuf_ok short_packet"
  using empty_table_inv slot_hash.rte_hash_contract_axioms
  by (simp_all add: scan_safe_def demo_env_def dpi_engine_scan_def zero_engine_def zero_db_def
      db_for_def worker_inv_def demo_worker_def mbuf_ok_def short_packet_def demo_packet_def
      tcp_frame_def)

theorem worker_burst_conserves_packets_witness:
  "\<exists>w' inr' tx'. worker_iteration demo_env fifo_ops demo_worker
       \<lparr>fr_capacity = 7, fr_items = [demo_packet, short_packet]\<rparr> \<lparr>fr_capacity = 7, fr_items = []\<rparr>
       (\<lambda>i. (5, 6)) = Some (w', inr', tx') \<and>
     fr_items inr' = [] \<and>
     mset (fr_items tx') + mset (wk_freed w') = {#demo_packet, short_packet#} \<and>
     processed (wk_stats w' ! 1) = 2"
proof -
  let ?inr = "\<lparr>fr_capacity = 7, fr_items = [demo_packet, short_packet]\<rparr>"
  let ?tx = "\<lparr>fr_capacity = 7, fr_items = []\<rparr>"
  have ok: "\<forall>p \<in> set (fr_items ?inr). mbuf_ok p" using demo_facts by simp
  obtain w' inr' tx' bufs fwd dropped where w: "worker_iteration demo_env fifo_ops demo_worker ?inr ?tx
      (\<lambda>i. (5, 6)) = Some (w', inr', tx')" "fr_items ?inr = bufs @ fr_items inr'"
    "fr_items tx' = fr_items ?tx @ fwd" "wk_freed w' = wk_freed demo_worker @ dropped"
    "mset fwd + mset dropped = mset bufs"
    "burst_counted (length bufs) (length fwd) (length dropped)
      (wk_stats demo_worker ! we_lcore demo_env) (wk_stats w' ! we_lcore demo_env)"
    using worker_burst_conserves_packets [OF demo_facts(3) fifo.rte_ring_contract_axioms
        demo_facts(1,2) ok] by blast
  have "inr' = ?inr\<lparr>fr_items := []\<rparr>"
    using w(1) by (auto simp: worker_iteration_def fifo_ops_def split: Option.bind_splits if_splits)
  then have "bufs = [demo_packet, short_packet]" "fr_items inr' = []" using w(2) by simp_all
  then show ?thesis
    using w by (auto simp: burst_counted_def demo_worker_def demo_env_def processed_def zero_stats_def)
qed

section \<open>Runs of a worker\<close>

text \<open>
  The packets a worker handles one after the other, with their clock readings. Between bursts the
  forward array is emptied, packets are freed and counters change, the flow table does not.
\<close>

inductive worker_run ::
  "('h, 'd, 's) worker_env \<Rightarrow> 'h worker_state \<Rightarrow> (rte_mbuf \<times> u64 \<times> u64) list \<Rightarrow> 'h worker_state \<Rightarrow> bool"
  for env where
  run_done: "worker_run env w [] w"
| run_packet: "length (wk_fwd w) < BURST_SIZE \<Longrightarrow> worker_packet env w p = Some w1 \<Longrightarrow> worker_run env w1 ps w' \<Longrightarrow>
    worker_run env w (p # ps) w'"
| run_flush: "length t = length (wk_stats w) \<Longrightarrow>
    worker_run env (w\<lparr>wk_fwd := [], wk_stats := t, wk_freed := freed\<rparr>) ps w' \<Longrightarrow>
    worker_run env w ps w'"

text \<open>The clock never runs backwards.\<close>

fun clock_from :: "u64 \<Rightarrow> (rte_mbuf \<times> u64 \<times> u64) list \<Rightarrow> bool" where
  "clock_from t [] = True"
| "clock_from t ((pkt, ts, now) # ps) = (t \<le> ts \<and> ts \<le> now \<and> clock_from now ps)"

lemma clock_from_mono: "t' \<le> t \<Longrightarrow> clock_from t ps \<Longrightarrow> clock_from t' ps"
  by (cases ps) (auto intro: order_trans)

text \<open>A flow with the verdict \<open>a\<close>, last seen no earlier than \<open>t0\<close> and no later than \<open>t\<close>.\<close>

definition has_verdict ::
  "(flow_key \<rightharpoonup> flow_state) \<Rightarrow> flow_key \<Rightarrow> packet_action \<Rightarrow> bool \<Rightarrow> u64 \<Rightarrow> u64 \<Rightarrow> bool" where
  "has_verdict F k a no_sni t0 t \<longleftrightarrow>
     (\<exists>st. F k = Some st \<and> st_verdict_cached st \<and> st_cached_action st = a \<and>
        st_no_sni_cached st = no_sni \<and> t0 \<le> st_last_seen_tsc st \<and> st_last_seen_tsc st \<le> t)"

lemma has_verdict_later: "has_verdict F k a n t0 t \<Longrightarrow> t \<le> t' \<Longrightarrow> has_verdict F k a n t0 t'"
  by (auto simp: has_verdict_def intro: order_trans)

lemma swept_keeps_verdict:
  assumes "has_verdict F k a n t0 t" "t \<le> ts" "unat ts \<le> unat t0 + unat timeout"
    and "if c then swept timeout ts F F1 else F1 = F"
  shows "has_verdict F1 k a n t0 t"
proof -
  obtain st where st: "F k = Some st" "t0 \<le> st_last_seen_tsc st" "st_last_seen_tsc st \<le> t"
    and v: "st_verdict_cached st" "st_cached_action st = a" "st_no_sni_cached st = n"
    using assms(1) by (auto simp: has_verdict_def)
  have le: "st_last_seen_tsc st \<le> ts" using st(3) assms(2) by (rule order_trans)
  have "unat (ts - st_last_seen_tsc st) = unat ts - unat (st_last_seen_tsc st)"
    using le by (rule unat_sub)
  then have fresh: "\<not> ts - st_last_seen_tsc st > timeout"
    using assms(3) st(2) by (simp add: word_less_nat_alt word_le_nat_alt)
  have "F1 k = Some st"
  proof (cases c)
    case True
    then have s: "F1 \<subseteq>\<^sub>m F" "F1 k = None \<Longrightarrow> ts - st_last_seen_tsc st > timeout"
      using assms(4) st(1) by (auto simp: swept_def)
    show ?thesis
    proof (cases "F1 k")
      case None
      then show ?thesis using s(2) fresh by blast
    next
      case (Some st')
      then show ?thesis using s(1) st(1) by (force simp: map_le_def dom_def)
    qed
  qed (use assms(4) st(1) in simp)
  then show ?thesis using st v by (auto simp: has_verdict_def)
qed

lemma packet_keeps_verdict:
  assumes "has_verdict F1 k a n t0 t" "packet_effect F1 l now F2 r" "t \<le> now" "t0 \<le> t"
  shows "has_verdict (after_verdict F2 (l2l4_key l) r b) k a n t0 now"
    and "l2l4_key l = k \<Longrightarrow> r = \<lparr>ur_status = REASSEMBLY_CACHED, ur_out = None,
      ur_cached_action = Some a, ur_no_sni = n\<rparr>"
proof -
  obtain st where st: "F1 k = Some st" "st_verdict_cached st" "st_cached_action st = a"
    "st_no_sni_cached st = n" "t0 \<le> st_last_seen_tsc st" "st_last_seen_tsc st \<le> t"
    using assms(1) by (auto simp: has_verdict_def)
  have own: "F2 k = Some (st\<lparr>st_last_seen_tsc := now\<rparr>)"
    "r = \<lparr>ur_status = REASSEMBLY_CACHED, ur_out = None, ur_cached_action = Some a, ur_no_sni = n\<rparr>"
    if "l2l4_key l = k"
    using assms(2) st that by (auto simp: packet_effect_def flow_state_update_cached)
  show "l2l4_key l = k \<Longrightarrow> r = \<lparr>ur_status = REASSEMBLY_CACHED, ur_out = None,
      ur_cached_action = Some a, ur_no_sni = n\<rparr>"
    by (rule own(2))
  have t: "t0 \<le> now" "st_last_seen_tsc st \<le> now" using assms(3,4) st(6) by (auto intro: order_trans)
  show "has_verdict (after_verdict F2 (l2l4_key l) r b) k a n t0 now"
  proof (cases "l2l4_key l = k")
    case True
    then have "after_verdict F2 (l2l4_key l) r b = F2"
      using own(2) by (simp add: after_verdict_def decides_def)
    then show ?thesis using own(1) True st t by (auto simp: has_verdict_def)
  next
    case False
    then have "F2 k = Some st" using assms(2) st(1) by (auto simp: packet_effect_def)
    then have "after_verdict F2 (l2l4_key l) r b k = Some st"
      using False by (auto simp: after_verdict_def split: option.split)
    then show ?thesis using st t by (auto simp: has_verdict_def)
  qed
qed

fun clock_end :: "u64 \<Rightarrow> (rte_mbuf \<times> u64 \<times> u64) list \<Rightarrow> u64" where
  "clock_end t [] = t"
| "clock_end t ((pkt, ts, now) # ps) = clock_end now ps"

text \<open>All sweeps among the packets happen within the timeout after \<open>t0\<close>.\<close>

definition within_timeout :: "u64 \<Rightarrow> u64 \<Rightarrow> (rte_mbuf \<times> u64 \<times> u64) list \<Rightarrow> bool" where
  "within_timeout t0 timeout ps \<longleftrightarrow> (\<forall>(pkt, ts, now) \<in> set ps. unat ts \<le> unat t0 + unat timeout)"

lemma worker_packet_keeps_verdict:
  assumes con: "rte_hash_contract (we_hash env) ok keys slots" and safe: "scan_safe env"
    and inv: "worker_inv ok keys env w" and m: "mbuf_ok pkt" and room: "length (wk_fwd w) < BURST_SIZE"
    and v: "has_verdict (flow_of keys (wk_ft w)) k a n t0 t" and t: "t0 \<le> t" "t \<le> ts" "ts \<le> now"
    and fresh: "unat ts \<le> unat t0 + unat (ft_timeout_cycles (wk_ft w))"
  shows "\<exists>w1. worker_packet env w (pkt, ts, now) = Some w1 \<and> worker_inv ok keys env w1 \<and>
    ft_timeout_cycles (wk_ft w1) = ft_timeout_cycles (wk_ft w) \<and>
    has_verdict (flow_of keys (wk_ft w1)) k a n t0 now \<and>
    (\<forall>l. parser_parse_l2_l4 pkt = Some (Some l) \<and> l2l4_key l = k \<longrightarrow>
       w1 = account env w pkt (l2l4_type l) n a (wk_ft w1))"
proof -
  have tn: "t \<le> now" using t(2,3) by (rule order_trans)
  obtain p where p: "parser_parse_l2_l4 pkt = Some p" using parse_defined by blast
  show ?thesis
  proof (cases p)
    case None
    then show ?thesis
      using worker_packet_rejected [OF inv] p inv has_verdict_later [OF v tn]
      by (simp add: account_def worker_inv_def)
  next
    case (Some l)
    obtain ft' r F1 F2 where w: "worker_packet env w (pkt, ts, now) =
        Some (account env w pkt (l2l4_type l) (ur_no_sni r) (verdict_of env (l2l4_type l) r) ft')"
      "table_inv ok keys ft'" "ft_timeout_cycles ft' = ft_timeout_cycles (wk_ft w)"
      "if (ft_call_count (wk_ft w) + 1) mod 256 = 0
       then swept (ft_timeout_cycles (wk_ft w)) ts (flow_of keys (wk_ft w)) F1
       else F1 = flow_of keys (wk_ft w)"
      "packet_effect F1 l now F2 r"
      "flow_of keys ft' = after_verdict F2 (l2l4_key l) r (verdict_of env (l2l4_type l) r)"
      using worker_packet_parsed [OF con inv safe m _ room] p Some by blast
    note v1 = swept_keeps_verdict [OF v t(2) fresh w(4)]
    note v2 = packet_keeps_verdict [OF v1 w(5) tn t(1)]
    have "ur_no_sni r = n \<and> verdict_of env (l2l4_type l) r = a" if "l2l4_key l = k"
      using v2(2) [OF that] by (simp add: verdict_of_def answer_def)
    then show ?thesis
      using w(1-3,6) v2(1) inv p Some by (auto simp: account_def worker_inv_def)
  qed
qed

lemma run_keeps_verdict:
  assumes "worker_run env w ps w'" "rte_hash_contract (we_hash env) ok keys slots" "scan_safe env"
    and "worker_inv ok keys env w" "\<forall>p \<in> set ps. mbuf_ok (fst p)"
    and "has_verdict (flow_of keys (wk_ft w)) k a n t0 t" "t0 \<le> t" "clock_from t ps"
    and "within_timeout t0 (ft_timeout_cycles (wk_ft w)) ps"
  shows "worker_inv ok keys env w' \<and> ft_timeout_cycles (wk_ft w') = ft_timeout_cycles (wk_ft w) \<and>
    has_verdict (flow_of keys (wk_ft w')) k a n t0 (clock_end t ps) \<and> t0 \<le> clock_end t ps"
  using assms(1,4-9)
proof (induction arbitrary: t rule: worker_run.induct)
  case (run_done w)
  then show ?case by simp
next
  case (run_packet w p w1 ps w')
  obtain pkt ts now where p: "p = (pkt, ts, now)" by (metis prod_cases3)
  have c: "t \<le> ts" "ts \<le> now" "clock_from now ps" "mbuf_ok pkt"
    "unat ts \<le> unat t0 + unat (ft_timeout_cycles (wk_ft w))"
    "within_timeout t0 (ft_timeout_cycles (wk_ft w)) ps"
    using run_packet.prems p by (auto simp: within_timeout_def)
  have w1: "worker_inv ok keys env w1" "ft_timeout_cycles (wk_ft w1) = ft_timeout_cycles (wk_ft w)"
    "has_verdict (flow_of keys (wk_ft w1)) k a n t0 now"
    using worker_packet_keeps_verdict [OF assms(2,3) run_packet.prems(1) c(4) run_packet.hyps(1)
        run_packet.prems(3,4) c(1,2,5)] run_packet.hyps(2) p by auto
  have "t0 \<le> now" using run_packet.prems(4) c(1,2) by (blast intro: order_trans)
  then show ?case
    using run_packet.IH [OF w1(1) _ w1(3) _ c(3)] c(6) w1(2) run_packet.prems(2) p by simp
next
  case (run_flush st w freed ps w')
  let ?w = "w\<lparr>wk_fwd := [], wk_stats := st, wk_freed := freed\<rparr>"
  have "worker_inv ok keys env ?w"
    using run_flush.prems(1) run_flush.hyps(1) by (simp add: worker_inv_def)
  then show ?case using run_flush.IH [of t] run_flush.prems by simp
qed

text \<open>
  C10: a verdict is final while the flow is active. Once a flow has a cached verdict, then after
  anything the worker does (packets of this and other flows in any number, garbage, bursts, sweeps
  of the table), the next packet of the flow gets that verdict, without a scan: it is dropped if the
  verdict is DROP and forwarded otherwise, and it is counted as not inspected exactly if the flow had
  no SNI. It is enough that the clock is monotonic and that the sweeps happen within the idle timeout
  after the flow's last packet at the start.
\<close>

theorem verdict_is_final:
  assumes "rte_hash_contract (we_hash env) ok keys slots" and "scan_safe env"
    and "worker_inv ok keys env w" and "worker_run env w ps w'" and "\<forall>p \<in> set ps. mbuf_ok (fst p)"
    and "has_verdict (flow_of keys (wk_ft w)) k a no_sni t0 t" and "t0 \<le> t"
    and "clock_from t (ps @ [(pkt, ts, now)])"
    and "within_timeout t0 (ft_timeout_cycles (wk_ft w)) (ps @ [(pkt, ts, now)])"
    and "mbuf_ok pkt" and "parser_parse_l2_l4 pkt = Some (Some l)" and "l2l4_key l = k"
    and "length (wk_fwd w') < BURST_SIZE"
  shows "\<exists>ft. worker_packet env w' (pkt, ts, now) =
    Some (account env w' pkt (l2l4_type l) no_sni a ft)"
proof -
  have split: "clock_from t (ps @ qs) = (clock_from t ps \<and> clock_from (clock_end t ps) qs)" for qs t
    by (induction t ps rule: clock_from.induct) auto
  have c: "clock_from t ps" "clock_end t ps \<le> ts" "ts \<le> now"
    using assms(8) split [of t "[(pkt, ts, now)]"] by auto
  have f: "within_timeout t0 (ft_timeout_cycles (wk_ft w)) ps"
    "unat ts \<le> unat t0 + unat (ft_timeout_cycles (wk_ft w))"
    using assms(9) by (auto simp: within_timeout_def)
  have r: "worker_inv ok keys env w'" "ft_timeout_cycles (wk_ft w') = ft_timeout_cycles (wk_ft w)"
    "has_verdict (flow_of keys (wk_ft w')) k a no_sni t0 (clock_end t ps)" "t0 \<le> clock_end t ps"
    using run_keeps_verdict [OF assms(4,1,2,3,5,6,7) c(1) f(1)] by blast+
  show ?thesis
    using worker_packet_keeps_verdict [OF assms(1,2) r(1) assms(10,13) r(3,4) c(2,3)] f(2) r(2)
      assms(11,12) by metis
qed

definition demo_key :: flow_key where
  "demo_key = \<lparr>src_ip = le32 10 0 0 1, dst_ip = le32 10 0 0 2, src_port = be16 0x30 0x39,
     dst_port = be16 0 80, proto = 6\<rparr>"

lemma demo_packet_parses:
  "\<exists>l. parser_parse_l2_l4 demo_packet = Some (Some l) \<and> l2l4_key l = demo_key \<and>
     l2l4_type l = TRAFFIC_HTTP"
proof -
  have "classify_port (be16 0 80) = Some TRAFFIC_HTTP" by (simp add: classify_port_def be16_def)
  then show ?thesis
    unfolding demo_packet_def by (subst tcp_frame_parses [where k = 0 and j = 0]) (simp_all add: demo_key_def)
qed

text \<open>A flow with the verdict DROP: its next packet is freed, not forwarded.\<close>

theorem verdict_is_final_witness:
  "\<exists>w w1. has_verdict (flow_of slot_keys (wk_ft w)) demo_key ACTION_DROP False 0 0 \<and>
     worker_packet demo_env w (demo_packet, 5, 6) = Some w1 \<and>
     wk_freed w1 = wk_freed w @ [demo_packet] \<and> wk_fwd w1 = wk_fwd w"
proof -
  let ?st = "set_verdict (new_flow TRAFFIC_HTTP) ACTION_DROP"
  have st: "st_last_seen_tsc ?st = 0" "\<not> st_no_sni_cached ?st" "st_type ?st = TRAFFIC_HTTP"
    by (simp_all add: set_verdict_def new_flow_def zero_flow_state_def)
  have "flow_ok demo_key ?st"
    using flow_inv_set_verdict [of "new_flow TRAFFIC_HTTP"] st
    by (simp add: flow_ok_def demo_key_def classify_port_def be16_def)
  then obtain ft where ft: "table_inv slot_ok slot_keys ft" "ft_timeout_cycles ft = 100"
    "flow_of slot_keys ft demo_key = Some ?st"
    using one_flow_table by blast
  let ?w = "demo_worker\<lparr>wk_ft := ft\<rparr>"
  have inv: "worker_inv slot_ok slot_keys demo_env ?w"
    using ft(1) by (simp add: worker_inv_def demo_worker_def demo_env_def)
  have v: "has_verdict (flow_of slot_keys (wk_ft ?w)) demo_key ACTION_DROP False 0 0"
    using ft(3) st by (simp add: has_verdict_def) (simp add: set_verdict_def)
  obtain l where l: "parser_parse_l2_l4 demo_packet = Some (Some l)" "l2l4_key l = demo_key"
    using demo_packet_parses by blast
  have run: "worker_run demo_env ?w [] ?w" by (rule run_done)
  have clock: "clock_from 0 ([] @ [(demo_packet, 5, 6)])" by simp
  have fresh: "within_timeout 0 (ft_timeout_cycles (wk_ft ?w)) ([] @ [(demo_packet, 5, 6)])"
    using ft(2) by (simp add: within_timeout_def)
  obtain ft' where "worker_packet demo_env ?w (demo_packet, 5, 6) =
      Some (account demo_env ?w demo_packet (l2l4_type l) False ACTION_DROP ft')"
    using verdict_is_final [OF demo_facts(3,1) inv run _ v _ clock fresh demo_facts(4) l]
    by (auto simp: demo_worker_def)
  moreover have "wk_freed (account demo_env ?w demo_packet (l2l4_type l) False ACTION_DROP ft') =
      wk_freed ?w @ [demo_packet]"
    "wk_fwd (account demo_env ?w demo_packet (l2l4_type l) False ACTION_DROP ft') = wk_fwd ?w"
    by (simp_all add: account_def)
  ultimately show ?thesis using v by blast
qed

end
