(* ===== verification/Rx_Tx.thy ===== *)
theory Rx_Tx
  imports Worker_Properties
begin

text \<open>
  The RX and TX threads (\<open>rx_thread_main\<close> and \<open>tx_thread_main\<close> of \<open>src/main.c\<close>), one iteration of each
  loop. The network card is outside the sources: the burst it delivers is an argument, and so is the
  function that says how many packets of a burst it takes for sending, with the documented bound as a
  hypothesis. Shown: the RX thread sorts a burst into the per-worker arrays exactly by bucket owner
  and in arrival order, never overruns an array, and neither thread loses or duplicates a packet.
\<close>

section \<open>The RX thread\<close>

text \<open>
  The local arrays \<open>dest\<close> and \<open>dest_n\<close>: for each of the \<open>MAX_WORKERS\<close> rows the cells in use. A row has
  \<open>BURST_SIZE\<close> cells.
\<close>

record rx_scan =
  rx_bt :: bucket_table
  rx_dest :: "rte_mbuf list list"
  rx_sum_bytes :: u64

definition rx_packet ::
  "(flow_key \<Rightarrow> u32) \<Rightarrow> u64 \<Rightarrow> rx_scan \<Rightarrow> rte_mbuf \<Rightarrow> rx_scan option" where
  "rx_packet rte_jhash now_tsc s buf = do {
     let sum_bytes = rx_sum_bytes s + ucast (mbuf_pkt_len buf);
     h \<leftarrow> parser_flow_rss_hash rte_jhash buf;
     (bt, w) \<leftarrow> parser_bucket_select_worker (rx_bt s) h now_tsc;
     row \<leftarrow> rd (rx_dest s) w;
     dest \<leftarrow> (if length row < BURST_SIZE then wr (rx_dest s) w (row @ [buf]) else None);
     Some \<lparr>rx_bt = bt, rx_dest = dest, rx_sum_bytes = sum_bytes\<rparr> }"

record 'r rx_out =
  ro_rings :: "'r list"
  ro_stats :: stats_table
  ro_freed :: "rte_mbuf list"

text \<open>The hand-over to worker \<open>w\<close>; what its ring does not take is counted as dropped and freed.\<close>

definition rx_enqueue ::
  "'r ring_ops \<Rightarrow> nat \<Rightarrow> rte_mbuf list list \<Rightarrow> 'r rx_out \<Rightarrow> nat \<Rightarrow> 'r rx_out option" where
  "rx_enqueue R lcore dest s w = do {
     row \<leftarrow> rd dest w;
     if length row = 0 then Some s
     else do {
       ring \<leftarrow> rd (ro_rings s) w;
       (ring, sent) \<leftarrow> Some (ring_enqueue_burst R ring row);
       rings \<leftarrow> wr (ro_rings s) w ring;
       t \<leftarrow> count_n stats_count_dropped lcore (ro_stats s) (length row - sent);
       Some \<lparr>ro_rings = rings, ro_stats = t, ro_freed = ro_freed s @ drop sent row\<rparr> } }"

definition rx_iteration ::
  "(flow_key \<Rightarrow> u32) \<Rightarrow> 'r ring_ops \<Rightarrow> nat \<Rightarrow> nat \<Rightarrow> rte_mbuf list \<Rightarrow> u64 \<Rightarrow> bucket_table \<Rightarrow> 'r rx_out \<Rightarrow>
   (bucket_table \<times> 'r rx_out) option" where
  "rx_iteration rte_jhash R lcore num_workers bufs now_tsc bt s =
     (if length bufs = 0 then Some (bt, s)
      else do {
        sc \<leftarrow> fold_opt (rx_packet rte_jhash now_tsc)
               \<lparr>rx_bt = bt, rx_dest = replicate MAX_WORKERS [], rx_sum_bytes = 0\<rparr> bufs;
        t \<leftarrow> stats_add_rx (ro_stats s) lcore (of_nat (length bufs)) (rx_sum_bytes sc);
        s \<leftarrow> fold_opt (rx_enqueue R lcore (rx_dest sc)) (s\<lparr>ro_stats := t\<rparr>) [0..<num_workers];
        Some (rx_bt sc, s) })"

section \<open>The TX thread\<close>

definition tx_iteration ::
  "'r ring_ops \<Rightarrow> (rte_mbuf list \<Rightarrow> nat) \<Rightarrow> nat \<Rightarrow> 'r \<Rightarrow> stats_table \<Rightarrow> rte_mbuf list \<Rightarrow> rte_mbuf list \<Rightarrow>
   ('r \<times> stats_table \<times> rte_mbuf list \<times> rte_mbuf list) option" where
  "tx_iteration R nic_tx lcore tx_ring t wire freed =
     (case ring_dequeue_burst R tx_ring BURST_SIZE of (tx_ring, bufs) \<Rightarrow>
        if length bufs = 0 then Some (tx_ring, t, wire, freed)
        else do {
          let sent = nic_tx bufs;
          t \<leftarrow> stats_add_tx t lcore (of_nat sent);
          Some (tx_ring, t, wire @ take sent bufs, freed @ drop sent bufs) })"

section \<open>Dispatch\<close>

text \<open>The hash of a packet, and the worker that owns its bucket.\<close>

definition packet_hash :: "(flow_key \<Rightarrow> u32) \<Rightarrow> rte_mbuf \<Rightarrow> u32" where
  "packet_hash rte_jhash pkt =
     (case extract_headers pkt of Some (Some l) \<Rightarrow> rte_jhash (l2l4_key l) | _ \<Rightarrow> 0)"

definition owner :: "(flow_key \<Rightarrow> u32) \<Rightarrow> bucket_table \<Rightarrow> rte_mbuf \<Rightarrow> nat" where
  "owner rte_jhash bt pkt = unat (bucket_worker bt ! bucket_of (packet_hash rte_jhash pkt))"

lemma rss_hash_eq: "parser_flow_rss_hash j pkt = Some (packet_hash j pkt)"
  using extract_headers_defined [of pkt]
  by (auto simp: parser_flow_rss_hash_def packet_hash_def split: option.split)

lemma owner_less: "buckets_inv n bt \<Longrightarrow> owner j bt pkt < n"
  by (simp add: owner_def buckets_inv_def)

definition dispatched ::
  "(flow_key \<Rightarrow> u32) \<Rightarrow> bucket_table \<Rightarrow> rte_mbuf list \<Rightarrow> rte_mbuf list list" where
  "dispatched j bt bufs = map (\<lambda>w. filter (\<lambda>p. owner j bt p = w) bufs) [0..<MAX_WORKERS]"

lemma length_dispatched [simp]: "length (dispatched j bt bufs) = 4"
  by (simp add: dispatched_def)

lemma nth_dispatched [simp]:
  "w < 4 \<Longrightarrow> dispatched j bt bufs ! w = filter (\<lambda>p. owner j bt p = w) bufs"
  by (simp add: dispatched_def)

lemma dispatched_snoc:
  assumes "owner j bt p < 4"
  shows "dispatched j bt (bufs @ [p]) =
    (dispatched j bt bufs)[owner j bt p := dispatched j bt bufs ! owner j bt p @ [p]]"
  using assms by (intro nth_equalityI) (auto simp: nth_list_update)

lemma rx_packets_dispatch:
  assumes "buckets_inv n bt" "n \<le> MAX_WORKERS" "length bufs \<le> BURST_SIZE"
  shows "\<exists>s. fold_opt (rx_packet j now)
      \<lparr>rx_bt = bt, rx_dest = replicate MAX_WORKERS [], rx_sum_bytes = 0\<rparr> bufs = Some s \<and>
    buckets_inv n (rx_bt s) \<and> bucket_worker (rx_bt s) = bucket_worker bt \<and>
    rx_dest s = dispatched j bt bufs \<and>
    rx_sum_bytes s = (\<Sum>p \<leftarrow> bufs. ucast (mbuf_pkt_len p))"
  using assms(3)
proof (induction bufs rule: rev_induct)
  case Nil
  have "replicate 4 [] = dispatched j bt []" by (intro nth_equalityI) simp_all
  then show ?case using assms(1) by simp
next
  case (snoc p bufs)
  then obtain s where s: "fold_opt (rx_packet j now)
      \<lparr>rx_bt = bt, rx_dest = replicate MAX_WORKERS [], rx_sum_bytes = 0\<rparr> bufs = Some s"
    "buckets_inv n (rx_bt s)" "bucket_worker (rx_bt s) = bucket_worker bt"
    "rx_dest s = dispatched j bt bufs" "rx_sum_bytes s = (\<Sum>p \<leftarrow> bufs. ucast (mbuf_pkt_len p))"
    by auto
  have w: "owner j bt p < n" "owner j bt p < 4"
    using owner_less [OF assms(1), of j p] assms(2) by auto
  have "length (dispatched j bt bufs ! owner j bt p) \<le> length bufs" using w(2) by simp
  then have room: "length (dispatched j bt bufs ! owner j bt p) < 32" using snoc.prems by simp
  have sel: "parser_bucket_select_worker (rx_bt s) (packet_hash j p) now = Some
      ((rx_bt s)\<lparr>bucket_last_seen_tsc :=
         (bucket_last_seen_tsc (rx_bt s))[bucket_of (packet_hash j p) := now]\<rparr>, owner j bt p)"
    using select_spec [OF s(2)] s(3) by (simp add: owner_def)
  have "rx_packet j now s p = Some \<lparr>rx_bt = (rx_bt s)\<lparr>bucket_last_seen_tsc :=
         (bucket_last_seen_tsc (rx_bt s))[bucket_of (packet_hash j p) := now]\<rparr>,
      rx_dest = dispatched j bt (bufs @ [p]),
      rx_sum_bytes = rx_sum_bytes s + ucast (mbuf_pkt_len p)\<rparr>"
    using sel w(2) room s(4) dispatched_snoc [OF w(2), of bufs]
    by (simp add: rx_packet_def rss_hash_eq mem_simps)
  then show ?case
    using s select_inv [OF s(2) sel] by (simp add: fold_opt_append)
qed

section \<open>Hand-over\<close>

lemma mset_dispatched:
  assumes "\<forall>p \<in> set bufs. owner j bt p < n" "n \<le> 4"
  shows "(\<Sum>w \<leftarrow> [0..<n]. mset (dispatched j bt bufs ! w)) = mset bufs"
proof -
  have "(\<Sum>w \<leftarrow> [0..<n]. mset (filter (\<lambda>p. owner j bt p = w) bufs)) = mset bufs"
    using assms(1)
  proof (induction bufs)
    case Nil
    show ?case by (simp add: sum_list_0)
  next
    case (Cons p bufs)
    have "(\<Sum>w \<leftarrow> [0..<n]. mset (filter (\<lambda>p. owner j bt p = w) (p # bufs))) =
        (\<Sum>w \<leftarrow> [0..<n]. (if w = owner j bt p then {#p#} else {#}) +
           mset (filter (\<lambda>p. owner j bt p = w) bufs))"
      by (intro arg_cong [where f = sum_list] map_cong) auto
    also have "\<dots> = (\<Sum>w \<leftarrow> [0..<n]. (if w = owner j bt p then {#p#} else {#})) + mset bufs"
      using Cons by (simp add: sum_list_addf)
    also have "(\<Sum>w \<leftarrow> [0..<n]. (if w = owner j bt p then {#p#} else {#})) = {#p#}"
      using Cons.prems by (simp add: interv_sum_list_conv_sum_set_nat sum.delta)
    finally show ?case by simp
  qed
  moreover have "map (\<lambda>w. mset (dispatched j bt bufs ! w)) [0..<n] =
      map (\<lambda>w. mset (filter (\<lambda>p. owner j bt p = w) bufs)) [0..<n]"
    using assms(2) by (intro map_cong) auto
  ultimately show ?thesis by (simp only:)
qed

lemma take_drop_mset: "mset (take n xs) + mset (drop n xs) = mset xs"
  by (metis append_take_drop_id mset_append)

definition count_drops :: "nat \<Rightarrow> core_stats \<Rightarrow> core_stats" where
  "count_drops k s = s\<lparr>dropped_packets := dropped_packets s + of_nat k\<rparr>"

lemma count_drops_add [simp]: "count_drops a (count_drops b s) = count_drops (b + a) s"
  by (simp add: count_drops_def add.assoc)

lemma rx_enqueue_spec:
  assumes "rte_ring_contract R contents" "w < length dest" "w < length (ro_rings s)"
    and "lcore < length (ro_stats s)"
  obtains ring k where "rx_enqueue R lcore dest s w = Some \<lparr>ro_rings = (ro_rings s)[w := ring],
      ro_stats = (ro_stats s)[lcore := count_drops (length (dest ! w) - k) (ro_stats s ! lcore)],
      ro_freed = ro_freed s @ drop k (dest ! w)\<rparr>"
    "k \<le> length (dest ! w)" "contents ring = contents (ro_rings s ! w) @ take k (dest ! w)"
proof (cases "length (dest ! w) = 0")
  case True
  then show ?thesis
    using assms(2) by (intro that [of "ro_rings s ! w" 0])
      (simp_all add: rx_enqueue_def mem_simps count_drops_def)
next
  case False
  obtain ring k where e: "ring_enqueue_burst R (ro_rings s ! w) (dest ! w) = (ring, k)"
    by (metis surj_pair)
  then show ?thesis
    using rte_ring_contract.enqueue [OF assms(1) e] False assms(2-4)
    by (intro that [of ring k]) (simp_all add: rx_enqueue_def mem_simps count_n_dropped count_drops_def)
qed

text \<open>
  The loop over the workers: ring \<open>w\<close> takes the first \<open>sent w\<close> packets of row \<open>w\<close>, the rest is freed
  and counted.
\<close>

lemma rx_enqueue_all:
  assumes "rte_ring_contract R contents" "n \<le> length dest" "n \<le> length (ro_rings s)"
    and "lcore < length (ro_stats s)"
  shows "\<exists>s' sent. fold_opt (rx_enqueue R lcore dest) s [0..<n] = Some s' \<and>
    length (ro_rings s') = length (ro_rings s) \<and>
    (\<forall>w < n. sent w \<le> length (dest ! w) \<and>
       contents (ro_rings s' ! w) = contents (ro_rings s ! w) @ take (sent w) (dest ! w)) \<and>
    (\<forall>w. n \<le> w \<longrightarrow> ro_rings s' ! w = ro_rings s ! w) \<and>
    ro_freed s' = ro_freed s @ concat (map (\<lambda>w. drop (sent w) (dest ! w)) [0..<n]) \<and>
    ro_stats s' = (ro_stats s)[lcore :=
      count_drops (length (ro_freed s') - length (ro_freed s)) (ro_stats s ! lcore)]"
  using assms(2,3)
proof (induction n)
  case 0
  then show ?case by (intro exI [of _ s]) (simp add: count_drops_def)
next
  case (Suc n)
  have "n \<le> length dest" "n \<le> length (ro_rings s)" using Suc.prems by simp_all
  from Suc.IH [OF this] obtain s1 sent where s1:
    "fold_opt (rx_enqueue R lcore dest) s [0..<n] = Some s1"
    "length (ro_rings s1) = length (ro_rings s)"
    "\<forall>w < n. sent w \<le> length (dest ! w) \<and>
       contents (ro_rings s1 ! w) = contents (ro_rings s ! w) @ take (sent w) (dest ! w)"
    "\<forall>w. n \<le> w \<longrightarrow> ro_rings s1 ! w = ro_rings s ! w"
    "ro_freed s1 = ro_freed s @ concat (map (\<lambda>w. drop (sent w) (dest ! w)) [0..<n])"
    "ro_stats s1 = (ro_stats s)[lcore :=
      count_drops (length (ro_freed s1) - length (ro_freed s)) (ro_stats s ! lcore)]"
    by blast
  have b: "n < length dest" "n < length (ro_rings s1)" "lcore < length (ro_stats s1)"
    using Suc.prems s1(2,6) assms(4) by simp_all
  obtain ring k where e: "rx_enqueue R lcore dest s1 n = Some \<lparr>ro_rings = (ro_rings s1)[n := ring],
      ro_stats = (ro_stats s1)[lcore := count_drops (length (dest ! n) - k) (ro_stats s1 ! lcore)],
      ro_freed = ro_freed s1 @ drop k (dest ! n)\<rparr>"
    "k \<le> length (dest ! n)" "contents ring = contents (ro_rings s1 ! n) @ take k (dest ! n)"
    by (rule rx_enqueue_spec [OF assms(1) b])
  let ?sent = "sent(n := k)"
  have freed: "ro_freed s1 @ drop k (dest ! n) =
      ro_freed s @ concat (map (\<lambda>w. drop (?sent w) (dest ! w)) [0..<Suc n])"
    using s1(5) by (auto intro!: arg_cong [where f = concat])
  have len: "length (ro_freed s1 @ drop k (dest ! n)) - length (ro_freed s) =
      (length (ro_freed s1) - length (ro_freed s)) + (length (dest ! n) - k)"
    using s1(5) by simp
  have rows: "\<forall>w < Suc n. ?sent w \<le> length (dest ! w) \<and>
      contents ((ro_rings s1)[n := ring] ! w) = contents (ro_rings s ! w) @ take (?sent w) (dest ! w)"
    using s1(3,4) e(2,3) b(2) by (simp add: less_Suc_eq)
  have stats: "(ro_stats s1)[lcore := count_drops (length (dest ! n) - k) (ro_stats s1 ! lcore)] =
      (ro_stats s)[lcore := count_drops (length (ro_freed s1 @ drop k (dest ! n)) - length (ro_freed s))
        (ro_stats s ! lcore)]"
    unfolding len s1(6) using assms(4) by simp
  have run: "fold_opt (rx_enqueue R lcore dest) s [0..<Suc n] = Some \<lparr>ro_rings = (ro_rings s1)[n := ring],
      ro_stats = (ro_stats s1)[lcore := count_drops (length (dest ! n) - k) (ro_stats s1 ! lcore)],
      ro_freed = ro_freed s1 @ drop k (dest ! n)\<rparr>"
    using s1(1) e(1) by (simp add: fold_opt_append)
  show ?case
    by (rule exI, rule exI [of _ ?sent], intro conjI, rule run)
      (use s1(2,4) freed rows stats in simp_all)
qed

lemma handed_over_mset:
  assumes "\<forall>w < n. sent w \<le> length (dest ! w) \<and> after w = before w @ take (sent w) (dest ! w)"
  shows "(\<Sum>w \<leftarrow> [0..<n]. mset (after w)) +
      mset (concat (map (\<lambda>w. drop (sent w) (dest ! w)) [0..<n])) =
    (\<Sum>w \<leftarrow> [0..<n]. mset (before w)) + (\<Sum>w \<leftarrow> [0..<n]. mset (dest ! w))"
  using assms
proof (induction n)
  case (Suc n)
  then have "after n = before n @ take (sent n) (dest ! n)" by simp
  then show ?case
    using Suc take_drop_mset [of "sent n" "dest ! n"] by (simp add: ac_simps)
qed simp

text \<open>The packets waiting in the rings of the \<open>n\<close> workers.\<close>

definition waiting :: "('r \<Rightarrow> rte_mbuf list) \<Rightarrow> nat \<Rightarrow> 'r list \<Rightarrow> rte_mbuf multiset" where
  "waiting contents n rings = (\<Sum>w \<leftarrow> [0..<n]. mset (contents (rings ! w)))"

text \<open>
  What an iteration of the RX thread does to its counters: \<open>n\<close> packets of \<open>bytes\<close> bytes received,
  \<open>freed\<close> of them dropped.
\<close>

definition rx_counted :: "nat \<Rightarrow> u64 \<Rightarrow> nat \<Rightarrow> core_stats \<Rightarrow> core_stats" where
  "rx_counted n bytes freed s = s\<lparr>rx_packets := rx_packets s + of_nat n, rx_bytes := rx_bytes s + bytes,
     dropped_packets := dropped_packets s + of_nat freed\<rparr>"

lemma rx_iteration_spec:
  assumes "rte_ring_contract R contents" "buckets_inv n bt" "n \<le> MAX_WORKERS" "length bufs \<le> BURST_SIZE"
    and "n \<le> length (ro_rings s)" "lcore < length (ro_stats s)"
  obtains bt' s' sent where "rx_iteration j R lcore n bufs now bt s = Some (bt', s')"
    "buckets_inv n bt'" "bucket_worker bt' = bucket_worker bt"
    "length (ro_rings s') = length (ro_rings s)" "\<And>w. n \<le> w \<Longrightarrow> ro_rings s' ! w = ro_rings s ! w"
    "\<And>w. w < n \<Longrightarrow> sent w \<le> length (filter (\<lambda>p. owner j bt p = w) bufs) \<and>
       contents (ro_rings s' ! w) =
         contents (ro_rings s ! w) @ take (sent w) (filter (\<lambda>p. owner j bt p = w) bufs)"
    "ro_freed s' = ro_freed s @
       concat (map (\<lambda>w. drop (sent w) (filter (\<lambda>p. owner j bt p = w) bufs)) [0..<n])"
    "waiting contents n (ro_rings s') + mset (ro_freed s') =
       waiting contents n (ro_rings s) + mset (ro_freed s) + mset bufs"
    "ro_stats s' = (ro_stats s)[lcore := rx_counted (length bufs)
       (\<Sum>p \<leftarrow> bufs. ucast (mbuf_pkt_len p)) (length (ro_freed s') - length (ro_freed s)) (ro_stats s ! lcore)]"
proof (cases "length bufs = 0")
  case True
  then show ?thesis
    by (intro that [of bt s "\<lambda>w. 0"]) (use assms(2) in \<open>auto simp: rx_iteration_def rx_counted_def\<close>)
next
  case False
  let ?d = "dispatched j bt bufs"
  obtain sc where sc: "fold_opt (rx_packet j now)
      \<lparr>rx_bt = bt, rx_dest = replicate MAX_WORKERS [], rx_sum_bytes = 0\<rparr> bufs = Some sc"
    "buckets_inv n (rx_bt sc)" "bucket_worker (rx_bt sc) = bucket_worker bt" "rx_dest sc = ?d"
    "rx_sum_bytes sc = (\<Sum>p \<leftarrow> bufs. ucast (mbuf_pkt_len p))"
    using rx_packets_dispatch [OF assms(2-4), of j now] by blast
  let ?t = "(ro_stats s)[lcore := (ro_stats s ! lcore)
    \<lparr>rx_packets := rx_packets (ro_stats s ! lcore) + of_nat (length bufs),
     rx_bytes := rx_bytes (ro_stats s ! lcore) + rx_sum_bytes sc\<rparr>]"
  have t: "stats_add_rx (ro_stats s) lcore (of_nat (length bufs)) (rx_sum_bytes sc) = Some ?t"
    using assms(6) by (simp add: stats_add_rx_def on_core_in)
  have b: "n \<le> length ?d" "n \<le> length (ro_rings (s\<lparr>ro_stats := ?t\<rparr>))"
    "lcore < length (ro_stats (s\<lparr>ro_stats := ?t\<rparr>))"
    using assms(3,5,6) by simp_all
  have sel: "ro_rings (s\<lparr>ro_stats := ?t\<rparr>) = ro_rings s" "ro_freed (s\<lparr>ro_stats := ?t\<rparr>) = ro_freed s"
    "ro_stats (s\<lparr>ro_stats := ?t\<rparr>) = ?t" by simp_all
  obtain s' sent where s': "fold_opt (rx_enqueue R lcore ?d) (s\<lparr>ro_stats := ?t\<rparr>) [0..<n] = Some s'"
    "length (ro_rings s') = length (ro_rings s)"
    "\<forall>w < n. sent w \<le> length (?d ! w) \<and>
       contents (ro_rings s' ! w) = contents (ro_rings s ! w) @ take (sent w) (?d ! w)"
    "\<forall>w. n \<le> w \<longrightarrow> ro_rings s' ! w = ro_rings s ! w"
    "ro_freed s' = ro_freed s @ concat (map (\<lambda>w. drop (sent w) (?d ! w)) [0..<n])"
    "ro_stats s' = ?t[lcore := count_drops (length (ro_freed s') - length (ro_freed s)) (?t ! lcore)]"
    using rx_enqueue_all [OF assms(1) b] unfolding sel by blast
  have row: "w < n \<Longrightarrow> ?d ! w = filter (\<lambda>p. owner j bt p = w) bufs" for w
    using assms(3) by simp
  have freed: "ro_freed s' = ro_freed s @
      concat (map (\<lambda>w. drop (sent w) (filter (\<lambda>p. owner j bt p = w) bufs)) [0..<n])"
    unfolding s'(5) by (auto intro!: arg_cong [where f = concat] simp: row)
  have "waiting contents n (ro_rings s') + mset (concat (map (\<lambda>w. drop (sent w) (?d ! w)) [0..<n])) =
      waiting contents n (ro_rings s) + (\<Sum>w \<leftarrow> [0..<n]. mset (?d ! w))"
    unfolding waiting_def using s'(3) by (rule handed_over_mset)
  also have "(\<Sum>w \<leftarrow> [0..<n]. mset (?d ! w)) = mset bufs"
    using owner_less [OF assms(2)] assms(3) by (intro mset_dispatched) auto
  finally have ms: "waiting contents n (ro_rings s') + mset (ro_freed s') =
      waiting contents n (ro_rings s) + mset (ro_freed s) + mset bufs"
    unfolding s'(5) by (simp add: ac_simps)
  have it: "rx_iteration j R lcore n bufs now bt s = Some (rx_bt sc, s')"
    using False sc(1,4) t s'(1) by (simp add: rx_iteration_def)
  have st: "ro_stats s' = (ro_stats s)[lcore := rx_counted (length bufs)
      (\<Sum>p \<leftarrow> bufs. ucast (mbuf_pkt_len p)) (length (ro_freed s') - length (ro_freed s)) (ro_stats s ! lcore)]"
    using s'(6) sc(5) assms(6) by (simp add: rx_counted_def count_drops_def)
  show ?thesis
    by (rule that [of "rx_bt sc" s' sent]) (use it sc(2,3) s'(2-4) row freed ms st in auto)
qed

lemma tx_iteration_spec:
  assumes "rte_ring_contract R contents" "\<forall>bufs. nic_tx bufs \<le> length bufs" "lcore < length t"
  obtains tx' t' bufs where
    "tx_iteration R nic_tx lcore tx t wire freed =
       Some (tx', t', wire @ take (nic_tx bufs) bufs, freed @ drop (nic_tx bufs) bufs)"
    "length bufs \<le> BURST_SIZE" "contents tx = bufs @ contents tx'"
    "t' = t[lcore := (t ! lcore)\<lparr>tx_packets := tx_packets (t ! lcore) + of_nat (nic_tx bufs)\<rparr>]"
proof -
  obtain tx' bufs where d: "ring_dequeue_burst R tx BURST_SIZE = (tx', bufs)" by (metis surj_pair)
  have b: "length bufs \<le> 32" "contents tx = bufs @ contents tx'"
    using rte_ring_contract.dequeue [OF assms(1) d] by auto
  have "nic_tx [] = 0" using assms(2) [rule_format, of "[]"] by simp
  then show ?thesis
    by (intro that [of tx' _ bufs]) (use d b assms(3) in
      \<open>auto simp: tx_iteration_def stats_add_tx_def on_core_in Let_def\<close>)
qed

section \<open>Properties\<close>

text \<open>
  C19: a burst of the RX thread. With rings for the \<open>n\<close> configured workers and a well-formed bucket
  table, an iteration stays inside its per-worker arrays; ring \<open>w\<close> receives, behind what it held and
  in arrival order, a prefix of exactly the packets whose bucket worker \<open>w\<close> owns, and no other ring
  changes; the packets a full ring refused are freed. Every packet of the burst thus ends up once in
  one ring or freed, and the counters of the RX lcore say so: packets, bytes and drops.
\<close>

theorem rx_burst_dispatched:
  assumes "rte_ring_contract R contents" and "buckets_inv n bt" and "n \<le> MAX_WORKERS"
    and "length bufs \<le> BURST_SIZE" and "n \<le> length (ro_rings s)" and "lcore < length (ro_stats s)"
  shows "\<exists>bt' s' sent. rx_iteration rte_jhash R lcore n bufs now bt s = Some (bt', s') \<and>
    buckets_inv n bt' \<and> bucket_worker bt' = bucket_worker bt \<and>
    (\<forall>w < n. sent w \<le> length (filter (\<lambda>p. owner rte_jhash bt p = w) bufs) \<and>
       contents (ro_rings s' ! w) = contents (ro_rings s ! w) @
         take (sent w) (filter (\<lambda>p. owner rte_jhash bt p = w) bufs)) \<and>
    (\<forall>w. n \<le> w \<longrightarrow> ro_rings s' ! w = ro_rings s ! w) \<and>
    ro_freed s' = ro_freed s @
      concat (map (\<lambda>w. drop (sent w) (filter (\<lambda>p. owner rte_jhash bt p = w) bufs)) [0..<n]) \<and>
    waiting contents n (ro_rings s') + mset (ro_freed s') =
      waiting contents n (ro_rings s) + mset (ro_freed s) + mset bufs \<and>
    ro_stats s' = (ro_stats s)[lcore := rx_counted (length bufs)
      (\<Sum>p \<leftarrow> bufs. ucast (mbuf_pkt_len p)) (length (ro_freed s') - length (ro_freed s)) (ro_stats s ! lcore)]"
  apply (rule rx_iteration_spec [OF assms, of rte_jhash now])
  subgoal premises p for bt' s' sent
    by (rule exI [of _ bt'], rule exI [of _ s'], rule exI [of _ sent]) (use p in simp)
  done

text \<open>Two workers; an unparsable packet has hash 0, and bucket 0 belongs to worker 0.\<close>

theorem rx_burst_dispatched_witness:
  "\<exists>bt' s'. rx_iteration (\<lambda>k. 5) fifo_ops 0 2 [short_packet, short_packet] 9 demo_buckets
       \<lparr>ro_rings = [\<lparr>fr_capacity = 1, fr_items = []\<rparr>, \<lparr>fr_capacity = 1, fr_items = []\<rparr>],
        ro_stats = [zero_stats], ro_freed = []\<rparr> = Some (bt', s') \<and>
     waiting fr_items 2 (ro_rings s') + mset (ro_freed s') = {#short_packet, short_packet#} \<and>
     rx_packets (ro_stats s' ! 0) = 2 \<and> rx_bytes (ro_stats s' ! 0) = 6"
proof -
  let ?s = "\<lparr>ro_rings = [\<lparr>fr_capacity = 1, fr_items = []\<rparr>, \<lparr>fr_capacity = 1, fr_items = []\<rparr>],
        ro_stats = [zero_stats], ro_freed = []\<rparr>"
  have two: "[0..<2 :: nat] = [0, 1]" by (simp add: upt_rec)
  have "waiting fr_items 2 (ro_rings ?s) = {#}" by (simp add: waiting_def two)
  moreover have b: "length [short_packet, short_packet] \<le> BURST_SIZE" "2 \<le> length (ro_rings ?s)"
    "0 < length (ro_stats ?s)" "(2 :: nat) \<le> MAX_WORKERS" by simp_all
  ultimately show ?thesis
    using rx_burst_dispatched [OF fifo.rte_ring_contract_axioms demo_buckets_inv b(4,1,2,3),
        of "\<lambda>k. 5" 9]
    by (elim exE conjE) (rule exI, rule exI, intro conjI, assumption,
        simp_all add: rx_counted_def zero_stats_def short_packet_def)
qed

end
