(* ===== verification/Startup.thy ===== *)
theory Startup
  imports Rx_Tx
begin

text \<open>
  Start-up and shutdown (\<open>main\<close>, \<open>signal_handler\<close> of \<open>src/main.c\<close>, and the prologues and
  epilogues of the thread functions).

  DPDK's environment layer is a record of what its calls answer; \<open>platform_ok\<close> states the documented
  facts about its lcores. \<open>getopt\<close> and \<open>atoi\<close> are modelled as the C library defines them. Every
  \<open>rte_exit\<close> is a value of \<open>main_error\<close>. Shown: whatever the command line and whatever fails, start-up
  stays inside its arrays and either exits or launches a system whose configuration meets what the
  threads rely on.
\<close>

section \<open>The command line\<close>

text \<open>
  \<open>getopt(argc, argv, "p:w:hBM:")\<close>, as a list of its successive results: an option with an argument,
  an option without one, or the question mark for an unknown option or a missing argument.
\<close>

datatype getopt_result =
  Getopt_arg byte "byte list"
| Getopt_flag byte
| Getopt_error

abbreviation (input) ch_p :: byte where "ch_p \<equiv> 112"
abbreviation (input) ch_w :: byte where "ch_w \<equiv> 119"
abbreviation (input) ch_h :: byte where "ch_h \<equiv> 104"
abbreviation (input) ch_B :: byte where "ch_B \<equiv> 66"
abbreviation (input) ch_M :: byte where "ch_M \<equiv> 77"
abbreviation (input) ch_dash :: byte where "ch_dash \<equiv> 45"

text \<open>The option letters of one argument; the arguments that follow may supply an option argument.\<close>

fun getopt_word :: "byte list \<Rightarrow> byte list list \<Rightarrow> getopt_result list \<times> byte list list" where
  "getopt_word [] rest = ([], rest)"
| "getopt_word (c # cs) rest =
     (if c \<in> {ch_p, ch_w, ch_M} then
        (if cs \<noteq> [] then ([Getopt_arg c cs], rest)
         else case rest of
                [] \<Rightarrow> ([Getopt_error], [])
              | a # rest \<Rightarrow> ([Getopt_arg c a], rest))
      else
        let (rs, rest) = getopt_word cs rest
        in ((if c \<in> {ch_h, ch_B} then Getopt_flag c else Getopt_error) # rs, rest))"

lemma getopt_word_rest: "length (snd (getopt_word cs rest)) \<le> length rest"
  by (induction cs rest rule: getopt_word.induct) (auto split: list.split prod.split)

text \<open>
  All arguments: \<open>--\<close> ends the options; arguments that are not options are skipped (the C library
  moves them behind the options).
\<close>

function getopt_all :: "byte list list \<Rightarrow> getopt_result list" where
  "getopt_all args =
     (case args of
        [] \<Rightarrow> []
      | a # rest \<Rightarrow>
          (if a = [ch_dash, ch_dash] then []
           else if 1 < length a \<and> hd a = ch_dash then
             (let p = getopt_word (tl a) rest in fst p @ getopt_all (snd p))
           else getopt_all rest))"
  by pat_completeness auto

termination
  by (relation "measure length") (auto simp: le_imp_less_Suc getopt_word_rest)

declare getopt_all.simps [simp del]

text \<open>
  \<open>atoi\<close>: \<open>strtol\<close> in base 10, which skips white space, takes a sign and saturates at the range of
  \<open>long\<close>, then the conversion to \<open>int\<close>, which keeps the low 32 bits.
\<close>

definition c_isspace :: "byte \<Rightarrow> bool" where
  "c_isspace c \<longleftrightarrow> c = 32 \<or> 9 \<le> c \<and> c \<le> 13"

definition c_isdigit :: "byte \<Rightarrow> bool" where
  "c_isdigit c \<longleftrightarrow> 48 \<le> c \<and> c \<le> 57"

definition digits_value :: "byte list \<Rightarrow> int" where
  "digits_value ds = foldl (\<lambda>v d. 10 * v + (uint d - 48)) 0 ds"

definition c_strtol :: "byte list \<Rightarrow> int" where
  "c_strtol s =
     (let s = dropWhile c_isspace s;
          (neg, s) = (case s of
                        c # cs \<Rightarrow> if c = 45 then (True, cs) else if c = 43 then (False, cs) else (False, s)
                      | [] \<Rightarrow> (False, s));
          v = digits_value (takeWhile c_isdigit s);
          v = (if neg then - v else v)
      in max (- (2 ^ 63)) (min (2 ^ 63 - 1) v))"

definition c_atoi :: "byte list \<Rightarrow> u32" where
  "c_atoi s = of_int (c_strtol s)"

section \<open>Options\<close>

datatype main_error =
  EAL_INIT_FAILED | BAD_MBUF_COUNT | INVALID_ARGUMENTS | BAD_NUM_WORKERS | RULES_NOT_LOADED
| NO_PORTS | NOT_ENOUGH_LCORES | NO_MBUF_POOL | DEV_CONFIGURE_FAILED | RX_QUEUE_FAILED
| TX_QUEUE_FAILED | DEV_START_FAILED | WORKER_RING_FAILED nat | TX_RING_FAILED

record options =
  patterns_file :: "byte list"
  num_workers :: u32
  rebalance_enabled :: bool
  mbuf_pool_override :: u32

definition default_options :: options where
  "default_options = \<lparr>patterns_file = ascii ''config/patterns.txt'', num_workers = 2,
     rebalance_enabled = True, mbuf_pool_override = 0\<rparr>"

text \<open>One iteration of the option loop. An \<open>int\<close> is read off its word by \<^const>\<open>sint\<close>.\<close>

fun main_option :: "options \<Rightarrow> getopt_result \<Rightarrow> main_error + options" where
  "main_option opts (Getopt_arg c optarg) =
     (if c = ch_p then Inr (opts\<lparr>patterns_file := optarg\<rparr>)
      else if c = ch_w then Inr (opts\<lparr>num_workers := c_atoi optarg\<rparr>)
      else if c = ch_M then
        (let m = c_atoi optarg in
         if sint m \<le> 0 then Inl BAD_MBUF_COUNT else Inr (opts\<lparr>mbuf_pool_override := m\<rparr>))
      else Inl INVALID_ARGUMENTS)"
| "main_option opts (Getopt_flag c) =
     (if c = ch_B then Inr (opts\<lparr>rebalance_enabled := False\<rparr>) else Inl INVALID_ARGUMENTS)"
| "main_option opts Getopt_error = Inl INVALID_ARGUMENTS"

fun main_options :: "options \<Rightarrow> getopt_result list \<Rightarrow> main_error + options" where
  "main_options opts [] = Inr opts"
| "main_options opts (r # rs) =
     (case main_option opts r of Inl e \<Rightarrow> Inl e | Inr opts \<Rightarrow> main_options opts rs)"

section \<open>The platform\<close>

text \<open>
  What the environment answers: the arguments DPDK leaves, the files, whether the allocations of the
  rule loader succeed, the ports, the lcores (all but the main one, in the order of
  \<open>RTE_LCORE_FOREACH_WORKER\<close>), the device calls, the rings and the timer frequency.
\<close>

record 'r platform =
  pf_eal_init :: "byte list list \<Rightarrow> byte list list option"
  pf_files :: "byte list \<Rightarrow> byte list option"
  pf_realloc :: "nat \<Rightarrow> bool"
  pf_calloc_http :: bool
  pf_calloc_https :: bool
  pf_dev_count :: nat
  pf_lcore_count :: nat
  pf_worker_lcores :: "nat list"
  pf_max_lcore :: nat
  pf_pool_create :: "u32 \<Rightarrow> bool"
  pf_dev_configure :: bool
  pf_rx_queue_setup :: bool
  pf_tx_queue_setup :: bool
  pf_dev_start :: bool
  pf_ring_create :: "byte list \<Rightarrow> nat \<Rightarrow> 'r option"
  pf_timer_hz :: u64

definition platform_ok :: "'r platform \<Rightarrow> bool" where
  "platform_ok pf \<longleftrightarrow>
     pf_lcore_count pf = Suc (length (pf_worker_lcores pf)) \<and> distinct (pf_worker_lcores pf) \<and>
     (\<forall>l \<in> set (pf_worker_lcores pf). l < pf_max_lcore pf)"

section \<open>main\<close>

text \<open>The loop that fills \<open>lcores\<close>, an array of \<open>needed_lcores\<close> cells, and breaks when it is full.\<close>

fun collect_lcores :: "nat \<Rightarrow> nat list \<Rightarrow> nat \<Rightarrow> nat list \<Rightarrow> nat list option" where
  "collect_lcores needed lcores nlcores [] = Some lcores"
| "collect_lcores needed lcores nlcores (l # ls) =
     (if nlcores \<ge> needed then Some lcores
      else do { lcores \<leftarrow> wr lcores nlcores l; collect_lcores needed lcores (Suc nlcores) ls })"

text \<open>\<open>worker_lcores[i] = lcores[1 + i]\<close> for \<open>i\<close> below \<open>n\<close>.\<close>

definition copy_lcores :: "nat list \<Rightarrow> nat list \<Rightarrow> nat \<Rightarrow> nat \<Rightarrow> nat list option" where
  "copy_lcores src dst off n =
     fold_opt (\<lambda>dst i. do { l \<leftarrow> rd src (off + i); wr dst i l }) dst [0..<n]"

text \<open>The size of the packet pool, computed in unsigned 32-bit arithmetic.\<close>

definition mbuf_count :: "options \<Rightarrow> u32 \<Rightarrow> u32" where
  "mbuf_count opts needed_lcores =
     (if mbuf_pool_override opts \<noteq> 0 then mbuf_pool_override opts
      else of_nat RX_RING_SIZE + num_workers opts * of_nat WORKER_RING_SIZE + of_nat TX_RING_SIZE +
        needed_lcores * of_nat MBUF_POOL_CACHE_SIZE)"

text \<open>The worker rings, created in order; the first failure ends the program.\<close>

fun create_rings :: "(byte list \<Rightarrow> nat \<Rightarrow> 'r option) \<Rightarrow> nat \<Rightarrow> nat \<Rightarrow> 'r list \<Rightarrow> main_error + 'r list" where
  "create_rings mk i 0 rings = Inr rings"
| "create_rings mk i (Suc k) rings =
     (case mk (ascii ''worker_ring_'' @ dec_digits i) WORKER_RING_SIZE of
        None \<Rightarrow> Inl (WORKER_RING_FAILED i)
      | Some r \<Rightarrow> create_rings mk (Suc i) k (rings @ [r]))"

text \<open>The device and ring set-up, in the order of the sources.\<close>

definition setup_io :: "'r platform \<Rightarrow> u32 \<Rightarrow> nat \<Rightarrow> main_error + ('r list \<times> 'r)" where
  "setup_io pf nb_mbufs n =
     (if \<not> pf_pool_create pf nb_mbufs then Inl NO_MBUF_POOL
      else if \<not> pf_dev_configure pf then Inl DEV_CONFIGURE_FAILED
      else if \<not> pf_rx_queue_setup pf then Inl RX_QUEUE_FAILED
      else if \<not> pf_tx_queue_setup pf then Inl TX_QUEUE_FAILED
      else if \<not> pf_dev_start pf then Inl DEV_START_FAILED
      else case create_rings (pf_ring_create pf) 0 n [] of
             Inl e \<Rightarrow> Inl e
           | Inr rings \<Rightarrow>
               (case pf_ring_create pf (ascii ''tx_ring'') TX_RING_SIZE of
                  None \<Rightarrow> Inl TX_RING_FAILED
                | Some tx \<Rightarrow> Inr (rings, tx)))"

text \<open>What the threads are launched with.\<close>

record ('r, 'd) launch =
  la_num_workers :: nat
  la_stats :: stats_table
  la_engine :: "'d dpi_engine"
  la_rx_lcore :: nat
  la_worker_lcores :: "nat list"
  la_tx_lcore :: nat
  la_stats_lcore :: nat
  la_nb_mbufs :: u32
  la_worker_rings :: "'r list"
  la_tx_ring :: 'r
  la_flow_timeout :: u64
  la_buckets :: bucket_table
  la_stats_args :: stats_thread_args

text \<open>
  Launching: the lcores are assigned, the device and the rings set up, the bucket table
  initialised. \<open>uninit\<close> stands for the contents of the uninitialised arrays of \<open>main\<close>; the arguments of
  the statistics thread have an initialiser, so their array starts as zeros.
\<close>

definition main_launch ::
  "'r platform \<Rightarrow> (nat \<Rightarrow> nat list) \<Rightarrow> options \<Rightarrow> stats_table \<Rightarrow> 'd dpi_engine \<Rightarrow>
   (main_error + ('r, 'd) launch) option" where
  "main_launch pf uninit opts stats engine =
     (let n = unat (num_workers opts);
          needed_lcores = 1 + num_workers opts + 1 + 1
      in if pf_lcore_count pf < unat needed_lcores + 1 then Some (Inl NOT_ENOUGH_LCORES)
         else do {
           lcores \<leftarrow> collect_lcores (unat needed_lcores) (uninit (unat needed_lcores)) 0
                       (pf_worker_lcores pf);
           rx_lcore \<leftarrow> rd lcores 0;
           worker_lcores \<leftarrow> copy_lcores lcores (uninit MAX_WORKERS) 1 n;
           tx_lcore \<leftarrow> rd lcores (1 + n);
           stats_lcore \<leftarrow> rd lcores (2 + n);
           let nb_mbufs = mbuf_count opts needed_lcores;
           case setup_io pf nb_mbufs n of
             Inl e \<Rightarrow> Some (Inl e)
           | Inr (rings, tx_ring) \<Rightarrow> do {
               bt \<leftarrow> parser_bucket_table_init n;
               stats_lcores \<leftarrow> copy_lcores worker_lcores (replicate MAX_WORKERS 0) 0 n;
               Some (Inr \<lparr>la_num_workers = n, la_stats = stats, la_engine = engine,
                 la_rx_lcore = rx_lcore, la_worker_lcores = worker_lcores, la_tx_lcore = tx_lcore,
                 la_stats_lcore = stats_lcore, la_nb_mbufs = nb_mbufs, la_worker_rings = rings,
                 la_tx_ring = tx_ring, la_flow_timeout = pf_timer_hz pf * 3 div 2, la_buckets = bt,
                 la_stats_args = \<lparr>sa_num_workers = n, sa_worker_lcores = stats_lcores,
                   sa_rebalance_enabled = rebalance_enabled opts\<rparr>\<rparr>) } })"

definition main_start ::
  "('d, 's) hs_ops \<Rightarrow> 'r platform \<Rightarrow> (nat \<Rightarrow> nat list) \<Rightarrow> byte list list \<Rightarrow>
   (main_error + ('r, 'd) launch) option" where
  "main_start hs pf uninit argv =
     (case pf_eal_init pf argv of
        None \<Rightarrow> Some (Inl EAL_INIT_FAILED)
      | Some argv \<Rightarrow>
          (case main_options default_options (getopt_all (tl argv)) of
             Inl e \<Rightarrow> Some (Inl e)
           | Inr opts \<Rightarrow>
               if num_workers opts < 2 \<or> of_nat MAX_WORKERS < num_workers opts
               then Some (Inl BAD_NUM_WORKERS)
               else
                 let stats = stats_init (pf_max_lcore pf);
                     (ok, engine) = dpi_engine_load_rules hs (pf_realloc pf) (pf_calloc_http pf)
                       (pf_calloc_https pf) (pf_files pf (patterns_file opts)) zero_engine
                 in if \<not> ok then Some (Inl RULES_NOT_LOADED)
                    else if pf_dev_count pf = 0 then Some (Inl NO_PORTS)
                    else main_launch pf uninit opts stats engine))"

section \<open>Threads and shutdown\<close>

text \<open>\<open>SIGINT\<close> and \<open>SIGTERM\<close> raise the flag every loop polls; any other signal leaves it.\<close>

abbreviation (input) SIGINT :: int where "SIGINT \<equiv> 2"
abbreviation (input) SIGTERM :: int where "SIGTERM \<equiv> 15"

definition signal_handler :: "int \<Rightarrow> bool \<Rightarrow> bool" where
  "signal_handler signum force_quit =
     (if signum = SIGINT \<or> signum = SIGTERM then True else force_quit)"

text \<open>The scratch regions that are allocated, as a list.\<close>

definition dpi_engine_free_scratch :: "'s option \<Rightarrow> 's list \<Rightarrow> 's list" where
  "dpi_engine_free_scratch scratch live = (case scratch of None \<Rightarrow> live | Some s \<Rightarrow> remove1 s live)"

text \<open>
  Before a worker's loop: a failure of either allocation makes the thread return at once. The result
  has the next table number, the live table objects, the live scratch regions and what the loop
  starts with. When the scratch region cannot be had, the thread returns without releasing the region
  that Hyperscan may have left from the first database.
\<close>

definition live_region :: "'s option \<Rightarrow> 's list" where
  "live_region scratch = (case scratch of None \<Rightarrow> [] | Some s \<Rightarrow> [s])"

definition worker_thread_start ::
  "('d, 's) hs_ops \<Rightarrow> 'd dpi_engine \<Rightarrow> bool \<Rightarrow> (byte list \<Rightarrow> 'h option) \<Rightarrow> bool \<Rightarrow> u32 \<Rightarrow> u64 \<Rightarrow>
   u32 \<times> table_object list \<times> 's list \<times> ('s option \<times> 'h flow_table) option" where
  "worker_thread_start hs e zmalloc_table hash_create zmalloc_states table_seq timeout =
     (case dpi_engine_alloc_scratch hs e of
        Inl (type, err, scratch) \<Rightarrow> (table_seq, [], live_region scratch, None)
      | Inr scratch \<Rightarrow>
          let live_scratch = live_region scratch;
              (table_seq, live, ft) =
                parser_flow_table_create zmalloc_table hash_create zmalloc_states table_seq timeout
          in case ft of
               None \<Rightarrow> (table_seq, live, dpi_engine_free_scratch scratch live_scratch, None)
             | Some ft \<Rightarrow> (table_seq, live, live_scratch, Some (scratch, ft)))"

definition worker_thread_finish ::
  "'s option \<Rightarrow> 'h flow_table \<Rightarrow> table_object list \<Rightarrow> 's list \<Rightarrow> table_object list \<times> 's list" where
  "worker_thread_finish scratch ft live live_scratch =
     (parser_flow_table_free (Some ft) live, dpi_engine_free_scratch scratch live_scratch)"

text \<open>After all threads have returned: the rings that are freed, and the engine.\<close>

definition main_finish :: "('r, 'd) launch \<Rightarrow> 'r list \<times> 'd dpi_engine" where
  "main_finish l = (la_worker_rings l @ [la_tx_ring l], dpi_engine_free_rules (la_engine l))"

section \<open>Facts about the set-up\<close>

lemma collect_lcores_eq:
  assumes "length lcores = needed" "k \<le> needed" "needed \<le> k + length ls"
  shows "collect_lcores needed lcores k ls = Some (take k lcores @ take (needed - k) ls)"
  using assms
proof (induction ls arbitrary: lcores k)
  case (Cons l ls)
  show ?case
  proof (cases "k < needed")
    case True
    have "take (Suc k) (lcores[k := l]) = take k lcores @ [l]"
      using True Cons.prems(1) by (simp add: take_Suc_conv_app_nth)
    moreover have "needed - k = Suc (needed - Suc k)" using True by simp
    ultimately show ?thesis
      using Cons.IH [of "lcores[k := l]" "Suc k"] Cons.prems True by (simp add: mem_simps)
  qed (use Cons.prems in auto)
qed simp

lemma copy_lcores_eq:
  assumes "off + n \<le> length src" "n \<le> length dst"
  shows "copy_lcores src dst off n = Some (take n (drop off src) @ drop n dst)"
  using assms
proof (induction n)
  case (Suc n)
  let ?d = "take n (drop off src) @ drop n dst"
  have "?d[n := src ! (off + n)] = take (Suc n) (drop off src) @ drop (Suc n) dst"
    using Suc.prems by (intro nth_equalityI) (auto simp: nth_list_update nth_append less_Suc_eq)
  then show ?case
    using Suc by (simp add: copy_lcores_def fold_opt_append mem_simps)
qed (simp add: copy_lcores_def)

lemma create_rings_length:
  "create_rings mk i k rings = Inr rs \<Longrightarrow> length rs = length rings + k"
  by (induction mk i k rings rule: create_rings.induct) (auto split: option.splits)

lemma setup_io_rings: "setup_io pf nb n = Inr (rings, tx) \<Longrightarrow> length rings = n"
  by (auto simp: setup_io_def dest: create_rings_length split: if_splits sum.splits option.splits)

text \<open>Rings are as new as the allocator makes them.\<close>

lemma create_rings_new:
  assumes "create_rings mk i k rings = Inr rs" "\<forall>r \<in> set rings. P r"
    and "\<forall>name size r. mk name size = Some r \<longrightarrow> P r"
  shows "\<forall>r \<in> set rs. P r"
  using assms(1,2)
proof (induction k arbitrary: i rings)
  case (Suc k)
  let ?name = "ascii ''worker_ring_'' @ dec_digits i"
  obtain r where r: "mk ?name 1024 = Some r" "create_rings mk (Suc i) k (rings @ [r]) = Inr rs"
    using Suc.prems(1) by (cases "mk ?name 1024") simp_all
  have "P r" using assms(3) r(1) by blast
  with Suc.prems(2) show ?case by (intro Suc.IH [OF r(2)]) simp
qed simp

lemma setup_io_new:
  assumes "setup_io pf nb n = Inr (rings, tx)"
    and "\<forall>name size r. pf_ring_create pf name size = Some r \<longrightarrow> P r"
  shows "\<forall>r \<in> set (tx # rings). P r"
proof -
  have "create_rings (pf_ring_create pf) 0 n [] = Inr rings" "\<exists>name size. pf_ring_create pf name size = Some tx"
    using assms(1) by (auto simp: setup_io_def split: if_splits sum.splits option.splits)
  then show ?thesis using create_rings_new [of "pf_ring_create pf" 0 n "[]" rings P] assms(2) by auto
qed

lemma main_options_override:
  assumes "main_options opts rs = Inr opts'"
    and "mbuf_pool_override opts = 0 \<or> 0 < sint (mbuf_pool_override opts)"
  shows "mbuf_pool_override opts' = 0 \<or> 0 < sint (mbuf_pool_override opts')"
  using assms
proof (induction rs arbitrary: opts)
  case (Cons r rs)
  then show ?case
    by (cases r) (auto simp: Let_def not_le split: if_splits)
qed simp

lemma mbuf_count_default:
  assumes "num_workers opts \<le> 4" "mbuf_pool_override opts = 0"
  shows "unat (mbuf_count opts (1 + num_workers opts + 1 + 1)) = 2816 + 1280 * unat (num_workers opts)"
proof -
  have "unat (num_workers opts) \<le> 4" using assms(1) by (simp add: word_le_nat_alt)
  then have "num_workers opts \<in> of_nat ` {0..4}"
    by (intro image_eqI [of _ _ "unat (num_workers opts)"]) simp_all
  then have "num_workers opts \<in> {0, 1, 2, 3, 4}"
    by (auto simp: atLeastAtMost_upt upt_rec)
  then show ?thesis using assms(2) by (auto simp: mbuf_count_def)
qed

text \<open>What the threads rely on.\<close>

definition used_lcores :: "('r, 'd) launch \<Rightarrow> nat list" where
  "used_lcores l = la_rx_lcore l # take (la_num_workers l) (la_worker_lcores l) @
     [la_tx_lcore l, la_stats_lcore l]"

definition launch_ok :: "('r, 'd) launch \<Rightarrow> bool" where
  "launch_ok l \<longleftrightarrow>
     2 \<le> la_num_workers l \<and> la_num_workers l \<le> MAX_WORKERS \<and>
     length (la_worker_rings l) = la_num_workers l \<and> length (la_worker_lcores l) = MAX_WORKERS \<and>
     distinct (used_lcores l) \<and> (\<forall>c \<in> set (used_lcores l). c < length (la_stats l)) \<and>
     set (la_stats l) \<subseteq> {zero_stats} \<and> buckets_inv (la_num_workers l) (la_buckets l) \<and>
     sa_num_workers (la_stats_args l) = la_num_workers l \<and>
     take (la_num_workers l) (sa_worker_lcores (la_stats_args l)) =
       take (la_num_workers l) (la_worker_lcores l) \<and>
     args_ok (la_stats_args l) (la_stats l)"

lemma take_cut:
  assumes "n + 3 \<le> length ls"
  shows "ls ! 0 # take n (drop 1 ls) @ [ls ! (1 + n), ls ! (2 + n)] = take (n + 3) ls"
proof (cases ls)
  case (Cons x xs)
  have "take (Suc (Suc n)) xs = take n xs @ [xs ! n, xs ! Suc n]"
    using assms Cons by (simp add: take_Suc_conv_app_nth)
  then show ?thesis using Cons by (simp add: numeral_3_eq_3)
qed (use assms in simp)

lemma assign_lcores:
  assumes "n \<le> MAX_WORKERS" "n + 3 \<le> length ls" "\<forall>k. length (uninit k) = k"
  shows "collect_lcores (n + 3) (uninit (n + 3)) 0 ls = Some (take (n + 3) ls)"
    "copy_lcores (take (n + 3) ls) (uninit MAX_WORKERS) 1 n = Some (take n (drop 1 ls) @ drop n (uninit MAX_WORKERS))"
    "copy_lcores (take n (drop 1 ls) @ drop n (uninit MAX_WORKERS)) (replicate MAX_WORKERS 0) 0 n =
       Some (take n (drop 1 ls) @ drop n (replicate MAX_WORKERS 0))"
    "rd (take (n + 3) ls) 0 = Some (ls ! 0)" "rd (take (n + 3) ls) (1 + n) = Some (ls ! (1 + n))"
    "rd (take (n + 3) ls) (2 + n) = Some (ls ! (2 + n))"
  using assms collect_lcores_eq [of "uninit (n + 3)" "n + 3" 0 ls]
    copy_lcores_eq [of 1 n "take (n + 3) ls" "uninit 4"]
    copy_lcores_eq [of 0 n "take n (drop 1 ls) @ drop n (uninit 4)" "replicate 4 0"]
  by (simp_all add: mem_simps drop_take)

lemma launch_okI:
  assumes n: "2 \<le> n" "n \<le> MAX_WORKERS" "n + 3 \<le> length ls" and ls: "distinct ls" "\<forall>l \<in> set ls. l < m"
    and u: "length u = MAX_WORKERS" "length rings = n" "buckets_inv n bt"
    and l_def: "l = \<lparr>la_num_workers = n, la_stats = stats_init m, la_engine = e, la_rx_lcore = ls ! 0,
     la_worker_lcores = take n (drop 1 ls) @ drop n u, la_tx_lcore = ls ! (1 + n),
     la_stats_lcore = ls ! (2 + n), la_nb_mbufs = nb, la_worker_rings = rings, la_tx_ring = tx,
     la_flow_timeout = timeout, la_buckets = bt,
     la_stats_args = \<lparr>sa_num_workers = n, sa_worker_lcores = take n (drop 1 ls) @ drop n (replicate MAX_WORKERS 0),
       sa_rebalance_enabled = rb\<rparr>\<rparr>"
  shows "launch_ok l \<and> set (used_lcores l) \<subseteq> set ls"
proof -
  have used: "used_lcores l = take (n + 3) ls"
    using n(3) take_cut [OF n(3)] by (simp add: used_lcores_def l_def)
  have sub: "set (used_lcores l) \<subseteq> set ls" unfolding used by (rule set_take_subset)
  have sel: "la_num_workers l = n" "length (la_worker_rings l) = n" "length (la_worker_lcores l) = 4"
    "length (la_stats l) = m" "set (la_stats l) \<subseteq> {zero_stats}" "la_buckets l = bt"
    "sa_num_workers (la_stats_args l) = n" "length (sa_worker_lcores (la_stats_args l)) = 4"
    "take n (sa_worker_lcores (la_stats_args l)) = take n (la_worker_lcores l)"
    using n u by (auto simp: l_def stats_init_def)
  have "sa_worker_lcores (la_stats_args l) ! i < m" if "i < n" for i
    using that n(3) ls(2) by (simp add: l_def nth_append)
  then have "args_ok (la_stats_args l) (la_stats l)" using n by (simp add: args_ok_def sel)
  moreover have "\<forall>c \<in> set (used_lcores l). c < length (la_stats l)" using sub ls(2) unfolding sel by blast
  moreover have "distinct (used_lcores l)" unfolding used using ls(1) by simp
  ultimately have "launch_ok l" unfolding launch_ok_def using n u(3) sel by simp
  with sub show ?thesis by blast
qed

lemma main_launch_ok:
  assumes pf: "platform_ok pf" and u: "\<forall>k. length (uninit k) = k"
    and w: "2 \<le> num_workers opts" "num_workers opts \<le> 4"
  shows "\<exists>r. main_launch pf uninit opts (stats_init (pf_max_lcore pf)) e = Some r \<and>
    (\<forall>l. r = Inr l \<longrightarrow> launch_ok l \<and> la_engine l = e \<and> la_num_workers l = unat (num_workers opts) \<and>
      set (used_lcores l) \<subseteq> set (pf_worker_lcores pf) \<and> la_stats l = stats_init (pf_max_lcore pf) \<and>
      setup_io pf (la_nb_mbufs l) (la_num_workers l) = Inr (la_worker_rings l, la_tx_ring l) \<and>
      la_nb_mbufs l = mbuf_count opts (1 + num_workers opts + 1 + 1) \<and>
      sa_rebalance_enabled (la_stats_args l) = rebalance_enabled opts)"
proof -
  let ?n = "unat (num_workers opts)" and ?ls = "pf_worker_lcores pf"
  let ?nb = "mbuf_count opts (1 + num_workers opts + 1 + 1)"
  have n: "2 \<le> ?n" "?n \<le> 4" using w by (simp_all add: word_le_nat_alt)
  have "unat (1 + num_workers opts + 1 + 1) = ?n + 3" using n(2) by (simp add: unat_word_ariths)
  then have needed: "unat (3 + num_workers opts) = ?n + 3" by (simp add: add.commute)
  show ?thesis
  proof (cases "pf_lcore_count pf < ?n + 3 + 1")
    case True
    then show ?thesis by (simp add: main_launch_def Let_def needed)
  next
    case False
    have len: "?n + 3 \<le> length ?ls" and ls: "distinct ?ls" "\<forall>l \<in> set ?ls. l < pf_max_lcore pf"
      using pf False by (auto simp: platform_ok_def)
    note lc = assign_lcores [OF n(2) len u]
    obtain bt where bt: "parser_bucket_table_init ?n = Some bt" "buckets_inv ?n bt"
      using init_inv [of ?n] n by auto
    show ?thesis
    proof (cases "setup_io pf ?nb ?n")
      case (Inl err)
      then show ?thesis using False lc by (simp add: main_launch_def Let_def needed)
    next
      case (Inr p)
      then obtain rings tx where p: "setup_io pf ?nb ?n = Inr (rings, tx)" by (cases p) auto
      have u4: "length (uninit 4) = 4" using u by simp
      note ok = launch_okI [OF n len ls u4 setup_io_rings [OF p] bt(2) refl, where e = e and nb = ?nb and
          tx = tx and timeout = "pf_timer_hz pf * 3 div 2" and rb = "rebalance_enabled opts"]
      show ?thesis
        using False lc bt(1) p ok by (simp add: main_launch_def Let_def needed)
    qed
  qed
qed

lemma start_spec:
  assumes "platform_ok pf" "\<forall>k. length (uninit k) = k"
  shows "\<exists>r. main_start hs pf uninit argv = Some r \<and>
    (\<forall>l. r = Inr l \<longrightarrow> launch_ok l \<and> set (used_lcores l) \<subseteq> set (pf_worker_lcores pf) \<and>
      la_stats l = stats_init (pf_max_lcore pf) \<and>
      setup_io pf (la_nb_mbufs l) (la_num_workers l) = Inr (la_worker_rings l, la_tx_ring l) \<and>
      (unat (la_nb_mbufs l) = 2816 + 1280 * la_num_workers l \<or> 0 < sint (la_nb_mbufs l)) \<and>
      (\<exists>path content. pf_files pf path = Some content \<and>
         dpi_engine_load_rules hs (pf_realloc pf) (pf_calloc_http pf) (pf_calloc_https pf)
           (Some content) zero_engine = (True, la_engine l)))"
proof (cases "pf_eal_init pf argv")
  case None
  then show ?thesis by (simp add: main_start_def)
next
  case (Some args)
  show ?thesis
  proof (cases "main_options default_options (getopt_all (tl args))")
    case (Inl e)
    with Some show ?thesis by (simp add: main_start_def)
  next
    case (Inr opts)
    obtain ok e where e: "dpi_engine_load_rules hs (pf_realloc pf) (pf_calloc_http pf)
        (pf_calloc_https pf) (pf_files pf (patterns_file opts)) zero_engine = (ok, e)"
      by (metis surj_pair)
    show ?thesis
    proof (cases "num_workers opts < 2 \<or> 4 < num_workers opts \<or> \<not> ok \<or> pf_dev_count pf = 0")
      case True
      with Some Inr e show ?thesis by (auto simp: main_start_def Let_def)
    next
      case False
      then have w: "2 \<le> num_workers opts" "num_workers opts \<le> 4" and ok: "ok" by auto
      have run: "main_start hs pf uninit argv =
          main_launch pf uninit opts (stats_init (pf_max_lcore pf)) e"
        using Some Inr e False by (simp add: main_start_def Let_def)
      obtain r where r: "main_launch pf uninit opts (stats_init (pf_max_lcore pf)) e = Some r"
        "\<forall>l. r = Inr l \<longrightarrow> launch_ok l \<and> la_engine l = e \<and> la_num_workers l = unat (num_workers opts) \<and>
          set (used_lcores l) \<subseteq> set (pf_worker_lcores pf) \<and> la_stats l = stats_init (pf_max_lcore pf) \<and>
          setup_io pf (la_nb_mbufs l) (la_num_workers l) = Inr (la_worker_rings l, la_tx_ring l) \<and>
          la_nb_mbufs l = mbuf_count opts (1 + num_workers opts + 1 + 1) \<and>
          sa_rebalance_enabled (la_stats_args l) = rebalance_enabled opts"
        using main_launch_ok [OF assms w] by blast
      have "mbuf_pool_override opts = 0 \<or> 0 < sint (mbuf_pool_override opts)"
        by (rule main_options_override [OF Inr]) (simp add: default_options_def)
      then have nb: "unat (mbuf_count opts (1 + num_workers opts + 1 + 1)) =
            2816 + 1280 * unat (num_workers opts) \<or>
          0 < sint (mbuf_count opts (1 + num_workers opts + 1 + 1))"
        using mbuf_count_default [OF w(2)] by (auto simp: mbuf_count_def)
      obtain content where "pf_files pf (patterns_file opts) = Some content"
        using e ok by (cases "pf_files pf (patterns_file opts)") (auto simp: dpi_engine_load_rules_def)
      then show ?thesis using run r nb e ok by auto
    qed
  qed
qed

section \<open>Numbers on the command line\<close>

lemma dec_digits_digit: "\<forall>c \<in> set (dec_digits n). c_isdigit c"
proof (induction n rule: dec_digits.induct)
  case (1 n)
  have "c_isdigit (48 + of_nat k)" if "k < 10" for k :: nat
    using that by (simp add: c_isdigit_def word_le_nat_alt unat_word_ariths unat_of_nat)
  with 1 show ?case by (subst dec_digits.simps) auto
qed

lemma digits_value_dec: "digits_value (dec_digits n) = int n"
proof (induction n rule: dec_digits.induct)
  case (1 n)
  have d: "uint (48 + of_nat k :: byte) = 48 + int k" if "k < 10" for k :: nat
    using that by (simp add: uint_nat unat_word_ariths unat_of_nat)
  show ?case
  proof (cases "n < 10")
    case True
    then show ?thesis by (subst dec_digits.simps) (simp add: digits_value_def d)
  next
    case False
    have "digits_value (dec_digits n) = 10 * digits_value (dec_digits (n div 10)) + int (n mod 10)"
      using False by (subst dec_digits.simps) (simp add: digits_value_def d)
    then show ?thesis using 1 False by (simp add: zdiv_int zmod_int)
  qed
qed

lemma dec_digits_nonempty: "dec_digits n \<noteq> []"
  by (subst dec_digits.simps) simp

lemma atoi_dec_digits:
  assumes "n < 2 ^ 63"
  shows "c_atoi (dec_digits n) = of_nat n"
proof -
  obtain c cs where c: "dec_digits n = c # cs" using dec_digits_nonempty by (cases "dec_digits n") auto
  have d: "c_isdigit c" "\<forall>x \<in> set (dec_digits n). c_isdigit x" using dec_digits_digit [of n] c by auto
  have "\<not> c_isspace c" "c \<noteq> 45" "c \<noteq> 43"
    using d(1) by (auto simp: c_isdigit_def c_isspace_def word_le_nat_alt)
  moreover have "takeWhile c_isdigit (dec_digits n) = dec_digits n" using d(2) by (simp add: takeWhile_eq_all_conv)
  ultimately have "c_strtol (dec_digits n) = int n"
    using c digits_value_dec [of n] assms by (simp add: c_strtol_def Let_def)
  then show ?thesis by (simp add: c_atoi_def)
qed

lemma create_rings_error: "create_rings mk i k rings \<noteq> Inl BAD_NUM_WORKERS"
  by (induction mk i k rings rule: create_rings.induct) (auto split: option.splits)

lemma setup_io_error: "setup_io pf nb n \<noteq> Inl BAD_NUM_WORKERS"
  using create_rings_error by (auto simp: setup_io_def split: sum.splits option.splits)

lemma main_launch_error: "main_launch pf u opts t e \<noteq> Some (Inl BAD_NUM_WORKERS)"
  using setup_io_error by (auto simp: main_launch_def Let_def split: Option.bind_splits if_splits sum.splits)

lemma getopt_dash_w: "getopt_all [ascii ''-w'', a] = [Getopt_arg ch_w a]"
  by (simp add: getopt_all.simps ascii_def Let_def)

section \<open>Properties\<close>

text \<open>
  C21: start-up. For every command line, every rule file and every combination of failing calls,
  start-up stays inside its arrays and ends: it exits with an error, or it launches threads with two
  to four workers, one ring each, a well-formed bucket table, zeroed counters, and pairwise distinct
  lcores for RX, the workers, TX and statistics, none of them the main lcore. So every slot of the
  statistics has a single writer. The rules were read from a file that exists; the packet pool has
  its default size, which does not wrap, or a positive one from the command line.
\<close>

theorem start_up_sound:
  assumes "platform_ok pf" and "\<forall>k. length (uninit k) = k"
  shows "\<exists>r. main_start hs pf uninit argv = Some r \<and>
    (\<forall>l. r = Inr l \<longrightarrow> launch_ok l \<and> set (used_lcores l) \<subseteq> set (pf_worker_lcores pf) \<and>
      (unat (la_nb_mbufs l) = 2816 + 1280 * la_num_workers l \<or> 0 < sint (la_nb_mbufs l)) \<and>
      (\<exists>path content. pf_files pf path = Some content \<and>
         dpi_engine_load_rules hs (pf_realloc pf) (pf_calloc_http pf) (pf_calloc_https pf)
           (Some content) zero_engine = (True, la_engine l)))"
  using start_spec [OF assms, of hs argv] by blast

text \<open>A machine with seven lcores and one port, and a rule file with one rule.\<close>

definition demo_rule :: rule_line where
  "demo_rule = \<lparr>rule_type = TRAFFIC_HTTP, rule_pattern = ascii ''malware'', rule_action = ACTION_DROP\<rparr>"

definition demo_platform :: "fifo_ring platform" where
  "demo_platform = \<lparr>pf_eal_init = Some, pf_files = (\<lambda>path. Some (rule_text demo_rule @ [10])),
     pf_realloc = (\<lambda>k. True), pf_calloc_http = True, pf_calloc_https = True, pf_dev_count = 1,
     pf_lcore_count = 7, pf_worker_lcores = [1, 2, 3, 4, 5, 6], pf_max_lcore = 128,
     pf_pool_create = (\<lambda>k. True), pf_dev_configure = True, pf_rx_queue_setup = True,
     pf_tx_queue_setup = True, pf_dev_start = True,
     pf_ring_create = (\<lambda>name size. Some \<lparr>fr_capacity = size - 1, fr_items = []\<rparr>),
     pf_timer_hz = 1000\<rparr>"

definition demo_args :: "byte list list" where
  "demo_args = [ascii ''hyperdpi'', ascii ''-w'', ascii ''2'']"

lemma demo_platform_ok: "platform_ok demo_platform"
  by (simp add: platform_ok_def demo_platform_def)

lemma demo_read: "read_rules (\<lambda>c. True) 0 [] (rule_text demo_rule @ [10]) = Some [demo_rule]"
proof -
  have "\<forall>r \<in> set [demo_rule]. rule_ok r" by (simp add: rule_ok_def demo_rule_def ascii_def)
  moreover have "rule_text demo_rule @ [10] = concat (map (\<lambda>r. rule_text r @ [10]) [demo_rule])" by simp
  ultimately show ?thesis by (intro read_rule_file) simp_all
qed

lemma demo_launches:
  obtains l where "main_start literal_hs demo_platform (\<lambda>k. replicate k 0) demo_args = Some (Inr l)"
    "la_num_workers l = 2" "used_lcores l = [1, 2, 3, 4, 5]"
    "dpi_engine_load_rules literal_hs (\<lambda>c. True) True True (Some (rule_text demo_rule @ [10]))
       zero_engine = (True, la_engine l)"
    "la_worker_rings l = replicate 2 \<lparr>fr_capacity = 1023, fr_items = []\<rparr>"
    "la_tx_ring l = \<lparr>fr_capacity = 1023, fr_items = []\<rparr>" "la_flow_timeout l = 1500"
    "la_nb_mbufs l = 5376" "la_worker_lcores l = [2, 3, 0, 0]" "parser_bucket_table_init 2 = Some (la_buckets l)"
    "la_stats_args l = \<lparr>sa_num_workers = 2, sa_worker_lcores = [2, 3, 0, 0], sa_rebalance_enabled = True\<rparr>"
    "la_stats l = stats_init 128"
proof -
  obtain e where e: "dpi_engine_load_rules literal_hs (\<lambda>c. True) True True
      (Some (rule_text demo_rule @ [10])) zero_engine = (True, e)"
    using demo_read
    by (auto simp: dpi_engine_load_rules_def compile_db_def typed_lines_def literal_hs_def Let_def
        demo_rule_def)
  have two: "c_atoi (ascii ''2'') = 2"
    by (simp add: c_atoi_def c_strtol_def c_isspace_def c_isdigit_def digits_value_def ascii_def)
  have opts: "main_options default_options (getopt_all (tl demo_args)) = Inr default_options"
    unfolding demo_args_def list.sel getopt_dash_w by (simp add: two default_options_def)
  obtain bt where bt: "parser_bucket_table_init 2 = Some bt" using init_inv [of 2] by auto
  have rings: "create_rings (\<lambda>name size. Some \<lparr>fr_capacity = size - 1, fr_items = []\<rparr>) 0 2 [] =
      Inr (replicate 2 \<lparr>fr_capacity = 1023, fr_items = []\<rparr>)"
    by (simp add: numeral_2_eq_2)
  have lc: "collect_lcores 5 (replicate 5 0) 0 [1, 2, 3, 4, 5, 6] = Some [1, 2, 3, 4, 5]"
    using collect_lcores_eq [of "replicate 5 0" 5 0 "[1, 2, 3, 4, 5, 6]"] by simp
  have wl: "copy_lcores [1, 2, 3, 4, 5] (replicate 4 0) (Suc 0) 2 = Some [2, 3, 0, 0]"
    "copy_lcores [2, 3, 0, 0] (replicate 4 0) 0 2 = Some [2, 3, 0, 0]"
    using copy_lcores_eq [of 1 2 "[1, 2, 3, 4, 5]" "replicate 4 0"]
      copy_lcores_eq [of 0 2 "[2, 3, 0, 0]" "replicate 4 0"]
    by (simp_all add: eval_nat_numeral)
  let ?l = "\<lparr>la_num_workers = 2, la_stats = stats_init 128, la_engine = e, la_rx_lcore = 1,
     la_worker_lcores = [2, 3, 0, 0], la_tx_lcore = 4, la_stats_lcore = 5, la_nb_mbufs = 5376,
     la_worker_rings = replicate 2 \<lparr>fr_capacity = 1023, fr_items = []\<rparr>,
     la_tx_ring = \<lparr>fr_capacity = 1023, fr_items = []\<rparr>, la_flow_timeout = 1500, la_buckets = bt,
     la_stats_args = \<lparr>sa_num_workers = 2, sa_worker_lcores = [2, 3, 0, 0], sa_rebalance_enabled = True\<rparr>\<rparr>"
  have "main_start literal_hs demo_platform (\<lambda>k. replicate k 0) demo_args = Some (Inr ?l)"
    unfolding main_start_def
    using e opts bt rings lc wl by (simp add: demo_platform_def default_options_def main_launch_def
          setup_io_def mbuf_count_def rd_def Let_def)
  then show ?thesis by (rule that) (simp_all add: e bt used_lcores_def)
qed

theorem start_up_sound_witness:
  "platform_ok demo_platform \<and>
   (\<exists>l. main_start literal_hs demo_platform (\<lambda>k. replicate k 0) demo_args = Some (Inr l) \<and>
      launch_ok l \<and> used_lcores l = [1, 2, 3, 4, 5] \<and> la_nb_mbufs l = 5376)"
proof -
  obtain l where l: "main_start literal_hs demo_platform (\<lambda>k. replicate k 0) demo_args = Some (Inr l)"
    "used_lcores l = [1, 2, 3, 4, 5]" "la_nb_mbufs l = 5376"
    by (rule demo_launches)
  have "launch_ok l"
    using start_up_sound [OF demo_platform_ok, of "\<lambda>k. replicate k 0" literal_hs demo_args] l(1) by auto
  with l show ?thesis using demo_platform_ok by blast
qed

text \<open>
  C38: the worker count on the command line. Called with \<open>-w\<close> and a decimal number below \<open>2^63\<close>,
  start-up refuses it exactly when its low 32 bits are not 2, 3 or 4: a number such as
  \<open>4294967298 = 2^32 + 2\<close> passes the check as 2.
\<close>

theorem worker_option_low_bits:
  assumes "n < 2 ^ 63" and "pf_eal_init pf argv = Some [prgname, ascii ''-w'', dec_digits n]"
  shows "main_start hs pf uninit argv = Some (Inl BAD_NUM_WORKERS) \<longleftrightarrow> n mod 2 ^ 32 \<notin> {2, 3, 4}"
proof -
  have opts: "main_options default_options (getopt_all (tl [prgname, ascii ''-w'', dec_digits n])) =
      Inr (default_options\<lparr>num_workers := of_nat n\<rparr>)"
    unfolding list.sel getopt_dash_w by (simp add: atoi_dec_digits [OF assms(1)])
  have u: "unat (of_nat n :: u32) = n mod 2 ^ 32" by (simp add: unat_of_nat)
  have "(of_nat n < (2 :: u32) \<or> 4 < (of_nat n :: u32)) = (n mod 2 ^ 32 < 2 \<or> 4 < n mod 2 ^ 32)"
    by (simp add: word_less_nat_alt u)
  also have "\<dots> = (n mod 2 ^ 32 \<notin> {2, 3, 4})" by auto
  finally show ?thesis
    using assms(2) opts by (auto simp: main_start_def Let_def main_launch_error split: prod.split)
qed

theorem worker_option_low_bits_witness:
  "main_start literal_hs demo_platform (\<lambda>k. replicate k 0)
     [ascii ''hyperdpi'', ascii ''-w'', dec_digits 4294967298] \<noteq> Some (Inl BAD_NUM_WORKERS)"
proof -
  have "pf_eal_init demo_platform [ascii ''hyperdpi'', ascii ''-w'', dec_digits 4294967298] =
      Some [ascii ''hyperdpi'', ascii ''-w'', dec_digits 4294967298]"
    by (simp add: demo_platform_def)
  from worker_option_low_bits [OF _ this, of literal_hs "\<lambda>k. replicate k 0"] show ?thesis by simp
qed

text \<open>
  The life of a worker thread. It starts completely or not at all: if any part of the flow table
  cannot be allocated, the thread returns with nothing left allocated; if the scratch region cannot,
  only the region Hyperscan has left stays; otherwise it has a scratch region for the loaded
  databases and a well-formed flow table without flows and with the configured timeout, and its
  epilogue releases all of it.
\<close>

lemma worker_life_cycle:
  assumes "\<forall>name h. hash_create name = Some h \<longrightarrow> ok h \<and> keys h = Map.empty"
  shows "case worker_thread_start hs e a hash_create b seq timeout of
    (seq', live, live_scratch, None) \<Rightarrow> live = [] \<and>
      (case dpi_engine_alloc_scratch hs e of
         Inl (type, err, scratch) \<Rightarrow> live_scratch = live_region scratch
       | Inr scratch \<Rightarrow> live_scratch = [] \<and>
           (\<not> a \<or> \<not> b \<or> hash_create (ascii ''flow_hash_'' @ dec_digits (unat seq)) = None))
  | (seq', live, live_scratch, Some (scratch, ft)) \<Rightarrow>
      dpi_engine_alloc_scratch hs e = Inr scratch \<and> table_inv ok keys ft \<and>
      flow_of keys ft = Map.empty \<and> ft_timeout_cycles ft = timeout \<and> seq' = seq + 1 \<and>
      worker_thread_finish scratch ft live live_scratch = ([], [])"
proof (cases "dpi_engine_alloc_scratch hs e")
  case (Inl failure)
  then show ?thesis by (cases failure) (simp add: worker_thread_start_def)
next
  case (Inr scratch)
  then show ?thesis
    using table_life_cycle [of hash_create ok keys a b seq timeout, OF assms]
    by (cases "parser_flow_table_create a hash_create b seq timeout")
      (auto simp: worker_thread_start_def worker_thread_finish_def dpi_engine_free_scratch_def live_region_def Let_def
        split: option.splits)
qed

end
