(* ===== verification/Pipeline.thy ===== *)
theory Pipeline
  imports Startup
begin

text \<open>
  The running system: the RX thread, the workers, the TX thread and the statistics thread, connected
  by the rings and sharing the bucket table and the counters, and the signal that stops them.

  A step is one iteration of one thread's loop, the start or the return of a thread, or a signal;
  the steps of the threads interleave in any order. A loop polls the flag \<open>force_quit\<close> between
  iterations. The network card, the clock and the allocators answer anything their documentation
  allows. Beside the program's state the system records what became of the packets: those received,
  those each worker took, freed, freed by the TX thread, and sent.
\<close>

section \<open>Model\<close>

datatype 'x thread = Starting | Running 'x | Returned

record ('h, 'd, 's, 'r) sys_cfg =
  cf_jhash :: "flow_key \<Rightarrow> u32"
  cf_hash :: "'h rte_hash_ops"
  cf_hash_create :: "byte list \<Rightarrow> 'h option"
  cf_hs :: "('d, 's) hs_ops"
  cf_ring :: "'r ring_ops"
  cf_lcores :: "nat list"
  cf_hz :: u64
  cf_rnd :: "real \<Rightarrow> real"
  cf_launch :: "('r, 'd) launch"

record ('h, 's, 'r) sys =
  sy_quit :: bool
  sy_bt :: bucket_table
  sy_rings :: "'r list"
  sy_tx :: 'r
  sy_stats :: stats_table
  sy_table_seq :: u32
  sy_rx_up :: bool
  sy_tx_up :: bool
  sy_workers :: "('s option \<times> 'h flow_table) thread list"
  sy_stats_loop :: "stats_loop thread"
  sy_received :: "rte_mbuf list"
  sy_taken :: "rte_mbuf list list"
  sy_freed :: "rte_mbuf list"
  sy_tx_freed :: "rte_mbuf list"
  sy_wire :: "rte_mbuf list"

definition sys_workers :: "('h, 'd, 's, 'r) sys_cfg \<Rightarrow> nat" where
  "sys_workers c = la_num_workers (cf_launch c)"

text \<open>The state in which \<open>main\<close> leaves the system when it has launched the threads.\<close>

definition sys_start :: "('h, 'd, 's, 'r) sys_cfg \<Rightarrow> ('h, 's, 'r) sys" where
  "sys_start c = \<lparr>sy_quit = False, sy_bt = la_buckets (cf_launch c),
     sy_rings = la_worker_rings (cf_launch c), sy_tx = la_tx_ring (cf_launch c),
     sy_stats = la_stats (cf_launch c), sy_table_seq = 0, sy_rx_up = True, sy_tx_up = True,
     sy_workers = replicate (sys_workers c) Starting, sy_stats_loop = Starting, sy_received = [],
     sy_taken = replicate (sys_workers c) [], sy_freed = [], sy_tx_freed = [], sy_wire = []\<rparr>"

text \<open>What worker \<open>i\<close> runs with, and its state at the top of the loop.\<close>

definition env_of :: "('h, 'd, 's, 'r) sys_cfg \<Rightarrow> nat \<Rightarrow> 's option \<Rightarrow> ('h, 'd, 's) worker_env" where
  "env_of c i scratch = \<lparr>we_hash = cf_hash c, we_hs = cf_hs c, we_engine = la_engine (cf_launch c),
     we_scratch = scratch, we_lcore = la_worker_lcores (cf_launch c) ! i\<rparr>"

definition worker_at :: "('h, 's, 'r) sys \<Rightarrow> 'h flow_table \<Rightarrow> 'h worker_state" where
  "worker_at s ft = \<lparr>wk_ft = ft, wk_stats = sy_stats s, wk_fwd = [], wk_freed = sy_freed s\<rparr>"

definition rx_at :: "('h, 's, 'r) sys \<Rightarrow> 'r rx_out" where
  "rx_at s = \<lparr>ro_rings = sy_rings s, ro_stats = sy_stats s, ro_freed = sy_freed s\<rparr>"

definition sys_rx ::
  "('h, 'd, 's, 'r) sys_cfg \<Rightarrow> ('h, 's, 'r) sys \<Rightarrow> rte_mbuf list \<Rightarrow> u64 \<Rightarrow> ('h, 's, 'r) sys option" where
  "sys_rx c s bufs now = do {
     (bt, out) \<leftarrow> rx_iteration (cf_jhash c) (cf_ring c) (la_rx_lcore (cf_launch c)) (sys_workers c)
                    bufs now (sy_bt s) (rx_at s);
     Some (s\<lparr>sy_bt := bt, sy_rings := ro_rings out, sy_stats := ro_stats out,
             sy_freed := ro_freed out, sy_received := sy_received s @ bufs\<rparr>) }"

definition sys_worker ::
  "('h, 'd, 's, 'r) sys_cfg \<Rightarrow> ('h, 's, 'r) sys \<Rightarrow> nat \<Rightarrow> 's option \<Rightarrow> 'h flow_table \<Rightarrow> (nat \<Rightarrow> u64 \<times> u64) \<Rightarrow>
   ('h, 's, 'r) sys option" where
  "sys_worker c s i scratch ft clock = do {
     ring \<leftarrow> rd (sy_rings s) i;
     (w, ring', tx) \<leftarrow> worker_iteration (env_of c i scratch) (cf_ring c) (worker_at s ft) ring (sy_tx s) clock;
     Some (s\<lparr>sy_workers := (sy_workers s)[i := Running (scratch, wk_ft w)], sy_stats := wk_stats w,
             sy_freed := wk_freed w, sy_rings := (sy_rings s)[i := ring'], sy_tx := tx,
             sy_taken := (sy_taken s)[i := sy_taken s ! i @
               snd (ring_dequeue_burst (cf_ring c) ring BURST_SIZE)]\<rparr>) }"

definition sys_tx ::
  "('h, 'd, 's, 'r) sys_cfg \<Rightarrow> ('h, 's, 'r) sys \<Rightarrow> (rte_mbuf list \<Rightarrow> nat) \<Rightarrow> ('h, 's, 'r) sys option" where
  "sys_tx c s nic_tx = do {
     (tx, t, wire, freed) \<leftarrow> tx_iteration (cf_ring c) nic_tx (la_tx_lcore (cf_launch c)) (sy_tx s)
                               (sy_stats s) (sy_wire s) (sy_tx_freed s);
     Some (s\<lparr>sy_tx := tx, sy_stats := t, sy_wire := wire, sy_tx_freed := freed\<rparr>) }"

definition sys_stats ::
  "('h, 'd, 's, 'r) sys_cfg \<Rightarrow> ('h, 's, 'r) sys \<Rightarrow> stats_loop \<Rightarrow> real list \<Rightarrow> nat list \<Rightarrow> u64 \<Rightarrow>
   ('h, 's, 'r) sys option" where
  "sys_stats c s sl uninit_pps uninit_counts now = do {
     (sl, bt, _) \<leftarrow> stats_tick (cf_rnd c) (la_stats_args (cf_launch c)) (cf_lcores c) (cf_hz c)
                      uninit_pps uninit_counts (sy_stats s) sl (sy_bt s) now;
     Some (s\<lparr>sy_stats_loop := Running sl, sy_bt := bt\<rparr>) }"

definition sys_worker_start ::
  "('h, 'd, 's, 'r) sys_cfg \<Rightarrow> ('h, 's, 'r) sys \<Rightarrow> nat \<Rightarrow> bool \<Rightarrow> bool \<Rightarrow> ('h, 's, 'r) sys" where
  "sys_worker_start c s i zmalloc_table zmalloc_states =
     (case worker_thread_start (cf_hs c) (la_engine (cf_launch c)) zmalloc_table (cf_hash_create c)
             zmalloc_states (sy_table_seq s) (la_flow_timeout (cf_launch c)) of
        (seq, _, _, r) \<Rightarrow> s\<lparr>sy_table_seq := seq, sy_workers := (sy_workers s)[i :=
          case r of None \<Rightarrow> Returned | Some p \<Rightarrow> Running p]\<rparr>)"

definition sys_stats_start ::
  "('h, 'd, 's, 'r) sys_cfg \<Rightarrow> ('h, 's, 'r) sys \<Rightarrow> u64 list \<Rightarrow> u64 \<Rightarrow> ('h, 's, 'r) sys option" where
  "sys_stats_start c s uninit now = do {
     sl \<leftarrow> stats_thread_start (la_stats_args (cf_launch c)) (cf_lcores c) (sy_stats s) uninit now;
     Some (s\<lparr>sy_stats_loop := Running sl\<rparr>) }"

text \<open>
  The four loops: each is \<open>while (!force_quit)\<close>, so a thread that polls the flag runs one more
  iteration or leaves its function. The statistics thread polls it again after its sleep, before it
  starts a round.
\<close>

definition rx_poll ::
  "('h, 'd, 's, 'r) sys_cfg \<Rightarrow> ('h, 's, 'r) sys \<Rightarrow> rte_mbuf list \<Rightarrow> u64 \<Rightarrow> ('h, 's, 'r) sys option" where
  "rx_poll c s bufs now =
     (if \<not> sy_quit s then sys_rx c s bufs now else Some (s\<lparr>sy_rx_up := False\<rparr>))"

definition worker_poll ::
  "('h, 'd, 's, 'r) sys_cfg \<Rightarrow> ('h, 's, 'r) sys \<Rightarrow> nat \<Rightarrow> 's option \<Rightarrow> 'h flow_table \<Rightarrow> (nat \<Rightarrow> u64 \<times> u64) \<Rightarrow>
   ('h, 's, 'r) sys option" where
  "worker_poll c s i scratch ft clock =
     (if \<not> sy_quit s then sys_worker c s i scratch ft clock
      else Some (s\<lparr>sy_workers := (sy_workers s)[i := Returned]\<rparr>))"

definition tx_poll ::
  "('h, 'd, 's, 'r) sys_cfg \<Rightarrow> ('h, 's, 'r) sys \<Rightarrow> (rte_mbuf list \<Rightarrow> nat) \<Rightarrow> ('h, 's, 'r) sys option" where
  "tx_poll c s nic_tx =
     (if \<not> sy_quit s then sys_tx c s nic_tx else Some (s\<lparr>sy_tx_up := False\<rparr>))"

definition stats_poll ::
  "('h, 'd, 's, 'r) sys_cfg \<Rightarrow> ('h, 's, 'r) sys \<Rightarrow> stats_loop \<Rightarrow> real list \<Rightarrow> nat list \<Rightarrow> u64 \<Rightarrow>
   ('h, 's, 'r) sys option" where
  "stats_poll c s sl uninit_pps uninit_counts now =
     (if \<not> sy_quit s then sys_stats c s sl uninit_pps uninit_counts now
      else Some (s\<lparr>sy_stats_loop := Returned\<rparr>))"

inductive sys_step :: "('h, 'd, 's, 'r) sys_cfg \<Rightarrow> ('h, 's, 'r) sys \<Rightarrow> ('h, 's, 'r) sys \<Rightarrow> bool" for c where
  step_signal: "sys_step c s (s\<lparr>sy_quit := signal_handler signum (sy_quit s)\<rparr>)"
| poll_rx: "sy_rx_up s \<Longrightarrow> length bufs \<le> BURST_SIZE \<Longrightarrow> \<forall>p \<in> set bufs. mbuf_ok p \<Longrightarrow>
    rx_poll c s bufs now = Some s' \<Longrightarrow> sys_step c s s'"
| poll_worker: "i < sys_workers c \<Longrightarrow> sy_workers s ! i = Running (scratch, ft) \<Longrightarrow>
    worker_poll c s i scratch ft clock = Some s' \<Longrightarrow> sys_step c s s'"
| poll_tx: "sy_tx_up s \<Longrightarrow> \<forall>bufs. nic_tx bufs \<le> length bufs \<Longrightarrow> tx_poll c s nic_tx = Some s' \<Longrightarrow>
    sys_step c s s'"
| poll_stats: "sy_stats_loop s = Running sl \<Longrightarrow> length uninit_pps = MAX_WORKERS \<Longrightarrow>
    length uninit_counts = MAX_WORKERS \<Longrightarrow> stats_poll c s sl uninit_pps uninit_counts now = Some s' \<Longrightarrow>
    sys_step c s s'"
| step_worker_start: "i < sys_workers c \<Longrightarrow> sy_workers s ! i = Starting \<Longrightarrow>
    sys_step c s (sys_worker_start c s i zt zs)"
| step_stats_start: "sy_stats_loop s = Starting \<Longrightarrow> length uninit = MAX_WORKERS \<Longrightarrow>
    sys_stats_start c s uninit now = Some s' \<Longrightarrow> sys_step c s s'"

inductive sys_reachable :: "('h, 'd, 's, 'r) sys_cfg \<Rightarrow> ('h, 's, 'r) sys \<Rightarrow> bool" for c where
  reach_start: "sys_reachable c (sys_start c)"
| reach_step: "sys_reachable c s \<Longrightarrow> sys_step c s s' \<Longrightarrow> sys_reachable c s'"

text \<open>The steps of a thread while it runs, and its return.\<close>

lemma step_rx: "\<not> sy_quit s \<Longrightarrow> sy_rx_up s \<Longrightarrow> length bufs \<le> BURST_SIZE \<Longrightarrow> \<forall>p \<in> set bufs. mbuf_ok p \<Longrightarrow>
    sys_rx c s bufs now = Some s' \<Longrightarrow> sys_step c s s'"
  by (rule poll_rx) (simp_all add: rx_poll_def)

lemma step_worker: "\<not> sy_quit s \<Longrightarrow> i < sys_workers c \<Longrightarrow> sy_workers s ! i = Running (scratch, ft) \<Longrightarrow>
    sys_worker c s i scratch ft clock = Some s' \<Longrightarrow> sys_step c s s'"
  by (rule poll_worker) (simp_all add: worker_poll_def)

lemma step_tx: "\<not> sy_quit s \<Longrightarrow> sy_tx_up s \<Longrightarrow> \<forall>bufs. nic_tx bufs \<le> length bufs \<Longrightarrow>
    sys_tx c s nic_tx = Some s' \<Longrightarrow> sys_step c s s'"
  by (rule poll_tx) (simp_all add: tx_poll_def)

lemma step_stats: "\<not> sy_quit s \<Longrightarrow> sy_stats_loop s = Running sl \<Longrightarrow> length uninit_pps = MAX_WORKERS \<Longrightarrow>
    length uninit_counts = MAX_WORKERS \<Longrightarrow> sys_stats c s sl uninit_pps uninit_counts now = Some s' \<Longrightarrow>
    sys_step c s s'"
  by (rule poll_stats) (simp_all add: stats_poll_def)

lemma step_rx_return: "sy_quit s \<Longrightarrow> sy_rx_up s \<Longrightarrow> sys_step c s (s\<lparr>sy_rx_up := False\<rparr>)"
  by (rule poll_rx [where bufs = "[]"]) (simp_all add: rx_poll_def)

lemma step_tx_return: "sy_quit s \<Longrightarrow> sy_tx_up s \<Longrightarrow> sys_step c s (s\<lparr>sy_tx_up := False\<rparr>)"
  by (rule poll_tx [where nic_tx = length]) (simp_all add: tx_poll_def)

lemma step_worker_return: "sy_quit s \<Longrightarrow> i < sys_workers c \<Longrightarrow> sy_workers s ! i = Running p \<Longrightarrow>
    sys_step c s (s\<lparr>sy_workers := (sy_workers s)[i := Returned]\<rparr>)"
  by (cases p) (rule poll_worker, simp_all add: worker_poll_def)

lemma step_stats_return: "sy_quit s \<Longrightarrow> sy_stats_loop s = Running sl \<Longrightarrow>
    sys_step c s (s\<lparr>sy_stats_loop := Returned\<rparr>)"
  by (rule poll_stats [where uninit_pps = "replicate 4 0" and uninit_counts = "replicate 4 0"])
    (simp_all add: stats_poll_def)

text \<open>These are all the steps.\<close>

lemma sys_step_induct [consumes 1, case_names step_signal step_rx step_worker step_tx step_stats
    step_worker_start step_stats_start step_rx_return step_tx_return step_worker_return step_stats_return]:
  assumes "sys_step c s s'"
    and "\<And>s signum. P s (s\<lparr>sy_quit := signal_handler signum (sy_quit s)\<rparr>)"
    and "\<And>s bufs now s'. \<not> sy_quit s \<Longrightarrow> sy_rx_up s \<Longrightarrow> length bufs \<le> BURST_SIZE \<Longrightarrow> \<forall>p \<in> set bufs. mbuf_ok p \<Longrightarrow>
      sys_rx c s bufs now = Some s' \<Longrightarrow> P s s'"
    and "\<And>s i scratch ft clock s'. \<not> sy_quit s \<Longrightarrow> i < sys_workers c \<Longrightarrow>
      sy_workers s ! i = Running (scratch, ft) \<Longrightarrow> sys_worker c s i scratch ft clock = Some s' \<Longrightarrow> P s s'"
    and "\<And>s nic_tx s'. \<not> sy_quit s \<Longrightarrow> sy_tx_up s \<Longrightarrow> \<forall>bufs. nic_tx bufs \<le> length bufs \<Longrightarrow>
      sys_tx c s nic_tx = Some s' \<Longrightarrow> P s s'"
    and "\<And>s sl up uc now s'. \<not> sy_quit s \<Longrightarrow> sy_stats_loop s = Running sl \<Longrightarrow> length up = MAX_WORKERS \<Longrightarrow>
      length uc = MAX_WORKERS \<Longrightarrow> sys_stats c s sl up uc now = Some s' \<Longrightarrow> P s s'"
    and "\<And>i s zt zs. i < sys_workers c \<Longrightarrow> sy_workers s ! i = Starting \<Longrightarrow> P s (sys_worker_start c s i zt zs)"
    and "\<And>s uninit now s'. sy_stats_loop s = Starting \<Longrightarrow> length uninit = MAX_WORKERS \<Longrightarrow>
      sys_stats_start c s uninit now = Some s' \<Longrightarrow> P s s'"
    and "\<And>s. sy_quit s \<Longrightarrow> sy_rx_up s \<Longrightarrow> P s (s\<lparr>sy_rx_up := False\<rparr>)"
    and "\<And>s. sy_quit s \<Longrightarrow> sy_tx_up s \<Longrightarrow> P s (s\<lparr>sy_tx_up := False\<rparr>)"
    and "\<And>s i p. sy_quit s \<Longrightarrow> i < sys_workers c \<Longrightarrow> sy_workers s ! i = Running p \<Longrightarrow>
      P s (s\<lparr>sy_workers := (sy_workers s)[i := Returned]\<rparr>)"
    and "\<And>s sl. sy_quit s \<Longrightarrow> sy_stats_loop s = Running sl \<Longrightarrow> P s (s\<lparr>sy_stats_loop := Returned\<rparr>)"
  shows "P s s'"
  using assms(1)
proof cases
  case step_signal
  then show ?thesis using assms(2) by simp
next
  case (poll_rx bufs now)
  then show ?thesis using assms(3,9) by (cases "sy_quit s") (auto simp: rx_poll_def)
next
  case (poll_worker i scratch ft clock)
  then show ?thesis using assms(4,11) by (cases "sy_quit s") (auto simp: worker_poll_def)
next
  case (poll_tx nic_tx)
  then show ?thesis using assms(5,10) by (cases "sy_quit s") (auto simp: tx_poll_def)
next
  case (poll_stats sl up uc now)
  then show ?thesis using assms(6,12) by (cases "sy_quit s") (auto simp: stats_poll_def)
next
  case (step_worker_start i zt zs)
  then show ?thesis using assms(7) by simp
next
  case (step_stats_start uninit now)
  then show ?thesis using assms(8) by simp
qed

section \<open>What the system relies on\<close>

text \<open>
  The documented behaviour of the libraries, the launch that start-up guarantees, and a list of the
  enabled lcores that has every used one.
\<close>

definition cfg_ok ::
  "('h \<Rightarrow> bool) \<Rightarrow> ('h \<Rightarrow> flow_key \<rightharpoonup> nat) \<Rightarrow> nat \<Rightarrow> ('r \<Rightarrow> rte_mbuf list) \<Rightarrow>
   (byte list \<Rightarrow> nat \<Rightarrow> byte list \<Rightarrow> bool) \<Rightarrow> ('s \<Rightarrow> 'd \<Rightarrow> bool) \<Rightarrow> ('h, 'd, 's, 'r) sys_cfg \<Rightarrow> bool" where
  "cfg_ok ok keys slots contents matches fits c \<longleftrightarrow>
     rte_hash_contract (cf_hash c) ok keys slots \<and> rte_ring_contract (cf_ring c) contents \<and>
     hyperscan (cf_hs c) matches fits \<and>
     (\<forall>name h. cf_hash_create c name = Some h \<longrightarrow> ok h \<and> keys h = Map.empty) \<and>
     mono (cf_rnd c) \<and> cf_rnd c 0 = 0 \<and> launch_ok (cf_launch c) \<and>
     (\<forall>r \<in> set (la_tx_ring (cf_launch c) # la_worker_rings (cf_launch c)). contents r = []) \<and>
     (\<exists>ro c1 c2 content. dpi_engine_load_rules (cf_hs c) ro c1 c2 (Some content) zero_engine =
        (True, la_engine (cf_launch c))) \<and>
     distinct (cf_lcores c) \<and> set (used_lcores (cf_launch c)) \<subseteq> set (cf_lcores c) \<and>
     (\<forall>l \<in> set (cf_lcores c). l < length (la_stats (cf_launch c)))"

text \<open>The state of the threads and of the memory they share.\<close>

definition worker_ok ::
  "('h \<Rightarrow> bool) \<Rightarrow> ('h \<Rightarrow> flow_key \<rightharpoonup> nat) \<Rightarrow> ('h, 'd, 's, 'r) sys_cfg \<Rightarrow> ('s option \<times> 'h flow_table) thread \<Rightarrow> bool" where
  "worker_ok ok keys c th \<longleftrightarrow>
     (case th of Running (scratch, ft) \<Rightarrow> table_inv ok keys ft \<and>
        dpi_engine_alloc_scratch (cf_hs c) (la_engine (cf_launch c)) = Inr scratch | _ \<Rightarrow> True)"

definition sys_wf ::
  "('h \<Rightarrow> bool) \<Rightarrow> ('h \<Rightarrow> flow_key \<rightharpoonup> nat) \<Rightarrow> ('h, 'd, 's, 'r) sys_cfg \<Rightarrow> ('h, 's, 'r) sys \<Rightarrow> bool" where
  "sys_wf ok keys c s \<longleftrightarrow>
     buckets_inv (sys_workers c) (sy_bt s) \<and> length (sy_rings s) = sys_workers c \<and>
     length (sy_stats s) = length (la_stats (cf_launch c)) \<and> length (sy_workers s) = sys_workers c \<and>
     length (sy_taken s) = sys_workers c \<and> (\<forall>th \<in> set (sy_workers s). worker_ok ok keys c th) \<and>
     (case sy_stats_loop s of Running sl \<Rightarrow> length (sl_worker_prev sl) = MAX_WORKERS | _ \<Rightarrow> True) \<and>
     (\<forall>p \<in> set (sy_received s). mbuf_ok p)"

text \<open>Every received packet is in one place.\<close>

definition sys_conserved :: "('r \<Rightarrow> rte_mbuf list) \<Rightarrow> ('h, 'd, 's, 'r) sys_cfg \<Rightarrow> ('h, 's, 'r) sys \<Rightarrow> bool" where
  "sys_conserved contents c s \<longleftrightarrow>
     mset (sy_received s) = waiting contents (sys_workers c) (sy_rings s) + mset (contents (sy_tx s)) +
       mset (sy_freed s) + mset (sy_tx_freed s) + mset (sy_wire s)"

text \<open>The sum of a counter over the enabled lcores.\<close>

definition counter_total :: "(core_stats \<Rightarrow> u64) \<Rightarrow> nat list \<Rightarrow> stats_table \<Rightarrow> u64" where
  "counter_total f lcores t = (\<Sum>l \<leftarrow> lcores. f (t ! l))"

definition sys_counted :: "('r \<Rightarrow> rte_mbuf list) \<Rightarrow> ('h, 'd, 's, 'r) sys_cfg \<Rightarrow> ('h, 's, 'r) sys \<Rightarrow> bool" where
  "sys_counted contents c s \<longleftrightarrow>
     counter_total rx_packets (cf_lcores c) (sy_stats s) = of_nat (length (sy_received s)) \<and>
     counter_total dropped_packets (cf_lcores c) (sy_stats s) = of_nat (length (sy_freed s)) \<and>
     counter_total tx_packets (cf_lcores c) (sy_stats s) = of_nat (length (sy_wire s)) \<and>
     counter_total forwarded_packets (cf_lcores c) (sy_stats s) =
       of_nat (length (contents (sy_tx s)) + length (sy_tx_freed s) + length (sy_wire s)) \<and>
     counter_total processed (cf_lcores c) (sy_stats s) = of_nat (sum_list (map length (sy_taken s)))"

text \<open>
  What worker \<open>i\<close> has taken and what waits for it arrived in this order; without rebalancing it is
  exactly traffic of its buckets.
\<close>

definition sys_ordered :: "('r \<Rightarrow> rte_mbuf list) \<Rightarrow> ('h, 'd, 's, 'r) sys_cfg \<Rightarrow> ('h, 's, 'r) sys \<Rightarrow> bool" where
  "sys_ordered contents c s \<longleftrightarrow>
     (\<not> sa_rebalance_enabled (la_stats_args (cf_launch c)) \<longrightarrow>
        bucket_worker (sy_bt s) = bucket_worker (la_buckets (cf_launch c))) \<and>
     (\<forall>i < sys_workers c.
        subseq (sy_taken s ! i @ contents (sy_rings s ! i)) (sy_received s) \<and>
        (\<not> sa_rebalance_enabled (la_stats_args (cf_launch c)) \<longrightarrow>
           (\<forall>p \<in> set (sy_taken s ! i @ contents (sy_rings s ! i)).
              owner (cf_jhash c) (la_buckets (cf_launch c)) p = i)))"

definition sys_inv ::
  "('h \<Rightarrow> bool) \<Rightarrow> ('h \<Rightarrow> flow_key \<rightharpoonup> nat) \<Rightarrow> ('r \<Rightarrow> rte_mbuf list) \<Rightarrow> ('h, 'd, 's, 'r) sys_cfg \<Rightarrow>
   ('h, 's, 'r) sys \<Rightarrow> bool" where
  "sys_inv ok keys contents c s \<longleftrightarrow> sys_wf ok keys c s \<and> sys_conserved contents c s \<and>
     sys_counted contents c s \<and> sys_ordered contents c s"

lemmas sys_defs = sys_inv_def sys_wf_def sys_conserved_def sys_counted_def sys_ordered_def

section \<open>The invariant\<close>

lemma counter_total_update:
  assumes "distinct lcores" "l \<in> set lcores" "l < length t" "f x = f (t ! l) + d"
  shows "counter_total f lcores (t[l := x]) = counter_total f lcores t + d"
proof -
  have other: "counter_total f ls (t[l := x]) = counter_total f ls t" if "l \<notin> set ls" for ls
    using that by (induction ls) (auto simp: counter_total_def)
  show ?thesis
    using assms(1,2)
  proof (induction lcores)
    case (Cons a ls)
    show ?case
    proof (cases "a = l")
      case True
      then show ?thesis using Cons.prems other [of ls] assms(3,4) by (simp add: counter_total_def ac_simps)
    next
      case False
      then show ?thesis using Cons by (simp add: counter_total_def ac_simps)
    qed
  qed simp
qed

text \<open>The lcores of the threads.\<close>

lemma cfg_lcores:
  assumes "cfg_ok ok keys slots contents matches fits c"
  shows "2 \<le> sys_workers c" "sys_workers c \<le> MAX_WORKERS"
    "la_rx_lcore (cf_launch c) \<in> set (cf_lcores c)" "la_tx_lcore (cf_launch c) \<in> set (cf_lcores c)"
    "i < sys_workers c \<Longrightarrow> la_worker_lcores (cf_launch c) ! i \<in> set (cf_lcores c)"
    "distinct (cf_lcores c)" "l \<in> set (cf_lcores c) \<Longrightarrow> l < length (la_stats (cf_launch c))"
proof -
  let ?l = "cf_launch c"
  have u: "set (used_lcores ?l) \<subseteq> set (cf_lcores c)" and ok: "launch_ok ?l"
    using assms by (simp_all add: cfg_ok_def)
  show "2 \<le> sys_workers c" "sys_workers c \<le> MAX_WORKERS"
    using ok by (simp_all add: launch_ok_def sys_workers_def)
  show "la_rx_lcore ?l \<in> set (cf_lcores c)" "la_tx_lcore ?l \<in> set (cf_lcores c)"
    using u by (auto simp: used_lcores_def)
  show "la_worker_lcores ?l ! i \<in> set (cf_lcores c)" if "i < sys_workers c"
  proof -
    have "la_worker_lcores ?l ! i = take (la_num_workers ?l) (la_worker_lcores ?l) ! i"
      using that by (simp add: sys_workers_def)
    also have "\<dots> \<in> set (take (la_num_workers ?l) (la_worker_lcores ?l))"
      using that ok by (intro nth_mem) (simp add: sys_workers_def launch_ok_def)
    finally show ?thesis using u by (auto simp: used_lcores_def)
  qed
  show "distinct (cf_lcores c)" "l \<in> set (cf_lcores c) \<Longrightarrow> l < length (la_stats ?l)"
    using assms by (simp_all add: cfg_ok_def)
qed

lemma loaded_scan_safe:
  assumes "hyperscan (we_hs env) matches fits"
    and "dpi_engine_load_rules (we_hs env) ro c1 c2 (Some content) zero_engine = (True, we_engine env)"
    and "dpi_engine_alloc_scratch (we_hs env) (we_engine env) = Inr (we_scratch env)"
  shows "scan_safe env"
proof -
  obtain lines where "read_rules ro 0 [] content = Some lines"
    using assms(2) by (cases "read_rules ro 0 [] content") (auto simp: dpi_engine_load_rules_def)
  then have "\<exists>a. dpi_engine_scan (we_hs env) (we_engine env) (we_scratch env) ty data = Some a"
    if "ty \<in> {TRAFFIC_HTTP, TRAFFIC_HTTPS}" for ty data
    using hyperscan.scan_spec [OF assms(1) load_rules_ok [OF assms(2) _ that] assms(3)] by blast
  then show ?thesis unfolding scan_safe_def by (metis option.distinct(1))
qed

lemma waiting_update:
  assumes "i < n" "n \<le> length rings"
    and "mset (contents r) + M = mset (contents (rings ! i))"
  shows "waiting contents n (rings[i := r]) + M = waiting contents n rings"
proof -
  have upto: "waiting contents k (rings[i := r]) + (if i < k then M else {#}) = waiting contents k rings"
    if "k \<le> n" for k
    using that
  proof (induction k)
    case (Suc k)
    then have IH: "waiting contents k (rings[i := r]) + (if i < k then M else {#}) = waiting contents k rings"
      and k: "k < length rings" using assms(2) by simp_all
    show ?case
    proof (cases "i = k")
      case True
      then show ?thesis using IH assms(3) k by (simp add: waiting_def ac_simps)
    next
      case False
      then show ?thesis using IH by (auto simp: waiting_def less_Suc_eq ac_simps)
    qed
  qed (simp add: waiting_def)
  show ?thesis using upto [of n] assms(1) by simp
qed

lemma waiting_empty:
  "\<forall>i < n. contents (rings ! i) = [] \<Longrightarrow> waiting contents n rings = {#}"
  by (induction n) (simp_all add: waiting_def)

lemma sys_start_inv:
  assumes "cfg_ok ok keys slots contents matches fits c"
  shows "sys_inv ok keys contents c (sys_start c)"
proof -
  let ?l = "cf_launch c"
  have l: "launch_ok ?l" and r: "contents (la_tx_ring ?l) = []"
    "\<And>i. i < la_num_workers ?l \<Longrightarrow> contents (la_worker_rings ?l ! i) = []"
    using assms by (auto simp: cfg_ok_def launch_ok_def)
  have z: "la_stats ?l ! i = zero_stats" if "i \<in> set (cf_lcores c)" for i
    using l cfg_lcores(7) [OF assms that] by (meson launch_ok_def nth_mem singletonD subsetD)
  have t: "counter_total f (cf_lcores c) (la_stats ?l) = 0" if "f zero_stats = 0" for f
  proof -
    have "(\<Sum>l \<leftarrow> ls. f (la_stats ?l ! l)) = 0" if "set ls \<subseteq> set (cf_lcores c)" for ls
      using that z \<open>f zero_stats = 0\<close> by (induction ls) auto
    then show ?thesis by (simp add: counter_total_def)
  qed
  have w: "waiting contents (sys_workers c) (la_worker_rings ?l) = {#}"
    using r(2) by (simp add: waiting_empty sys_workers_def)
    show ?thesis
    using l w r t
    by (auto simp: sys_defs sys_start_def sys_workers_def launch_ok_def worker_ok_def zero_stats_def
        processed_def sum_list_replicate)
qed

lemma ordered_mbuf_ok:
  assumes "sys_inv ok keys contents c s" "i < sys_workers c"
  shows "\<forall>p \<in> set (contents (sy_rings s ! i)). mbuf_ok p"
proof -
  have "subseq (sy_taken s ! i @ contents (sy_rings s ! i)) (sy_received s)"
    using assms by (simp add: sys_defs)
  then have "set (sy_taken s ! i @ contents (sy_rings s ! i)) \<subseteq> set (sy_received s)"
    by (auto dest: list_emb_set)
  then show ?thesis using assms(1) by (auto simp: sys_defs)
qed

lemma sys_rx_inv:
  assumes cfg: "cfg_ok ok keys slots contents matches fits c" and inv: "sys_inv ok keys contents c s"
    and b: "length bufs \<le> BURST_SIZE" "\<forall>p \<in> set bufs. mbuf_ok p"
  shows "\<exists>s'. sys_rx c s bufs now = Some s' \<and> sys_inv ok keys contents c s'"
proof -
  let ?n = "sys_workers c" and ?lc = "la_rx_lcore (cf_launch c)" and ?j = "cf_jhash c"
  let ?row = "\<lambda>w. filter (\<lambda>p. owner ?j (sy_bt s) p = w) bufs"
  have ring: "rte_ring_contract (cf_ring c) contents" using cfg by (simp add: cfg_ok_def)
  have wf: "buckets_inv ?n (sy_bt s)" "?n \<le> length (ro_rings (rx_at s))"
    "?lc < length (ro_stats (rx_at s))"
    using inv cfg_lcores(3,7) [OF cfg] by (simp_all add: sys_defs rx_at_def)
  obtain bt' out sent where o: "rx_iteration ?j (cf_ring c) ?lc ?n bufs now (sy_bt s) (rx_at s) = Some (bt', out)"
    "buckets_inv ?n bt'" "bucket_worker bt' = bucket_worker (sy_bt s)"
    "length (ro_rings out) = length (ro_rings (rx_at s))"
    "\<And>w. w < ?n \<Longrightarrow> sent w \<le> length (?row w) \<and>
       contents (ro_rings out ! w) = contents (ro_rings (rx_at s) ! w) @ take (sent w) (?row w)"
    "ro_freed out = ro_freed (rx_at s) @ concat (map (\<lambda>w. drop (sent w) (?row w)) [0..<?n])"
    "waiting contents ?n (ro_rings out) + mset (ro_freed out) =
       waiting contents ?n (ro_rings (rx_at s)) + mset (ro_freed (rx_at s)) + mset bufs"
    "ro_stats out = (ro_stats (rx_at s))[?lc := rx_counted (length bufs)
       (\<Sum>p \<leftarrow> bufs. ucast (mbuf_pkt_len p)) (length (ro_freed out) - length (ro_freed (rx_at s)))
       (ro_stats (rx_at s) ! ?lc)]"
    by (rule rx_iteration_spec [OF ring wf(1) cfg_lcores(2) [OF cfg] b(1) wf(2,3), of ?j now]) blast
  define s' where "s' = s\<lparr>sy_bt := bt', sy_rings := ro_rings out, sy_stats := ro_stats out,
    sy_freed := ro_freed out, sy_received := sy_received s @ bufs\<rparr>"
  have run: "sys_rx c s bufs now = Some s'" using o(1) by (simp add: sys_rx_def s'_def)
  have wf': "sys_wf ok keys c s'"
    using inv o(2,4,8) b(2) by (auto simp: sys_defs s'_def rx_at_def)
  have cons: "sys_conserved contents c s'"
    using inv o(7) by (simp add: sys_defs s'_def rx_at_def ac_simps)
  note tot = counter_total_update [OF cfg_lcores(6,3) [OF cfg], of "sy_stats s"]
  have counted: "sys_counted contents c s'"
    using inv o(6,8) wf(3)
    by (simp add: sys_defs s'_def rx_at_def rx_counted_def processed_def
        tot [where f = rx_packets] tot [where f = dropped_packets] tot [where f = tx_packets and d = 0]
        tot [where f = forwarded_packets and d = 0] tot [where f = processed and d = 0])
  have ordered: "sys_ordered contents c s'"
  proof -
    have "subseq (sy_taken s ! i @ contents (sy_rings s ! i) @ take (sent i) (?row i)) (sy_received s @ bufs)"
      if "subseq (sy_taken s ! i @ contents (sy_rings s ! i)) (sy_received s)" for i
    proof -
      have "subseq (take (sent i) (?row i)) bufs"
        using prefix_imp_subseq [OF take_is_prefix] subseq_filter_left subseq_order.trans by metis
      from list_emb_append_mono [OF that this] show ?thesis by simp
    qed
    moreover have "owner ?j (la_buckets (cf_launch c)) p = i"
      if "bucket_worker (sy_bt s) = bucket_worker (la_buckets (cf_launch c))" "p \<in> set (take (sent i) (?row i))"
      for p i
      using that in_set_takeD [OF that(2)] by (simp add: owner_def)
    ultimately show ?thesis
      using inv o(3,5) by (auto simp: sys_defs s'_def rx_at_def)
  qed
  show ?thesis using run wf' cons counted ordered by (auto simp: sys_inv_def)
qed

lemma sum_list_update_length:
  "i < length xss \<Longrightarrow> sum_list (map length (xss[i := xss ! i @ ys])) = sum_list (map length xss) + length ys"
  by (induction xss arbitrary: i) (auto split: nat.split)

text \<open>What an iteration of worker \<open>i\<close> does to the system.\<close>

lemma sys_worker_burst:
  assumes cfg: "cfg_ok ok keys slots contents matches fits c" and inv: "sys_inv ok keys contents c s"
    and i: "i < sys_workers c" and th: "sy_workers s ! i = Running (scratch, ft)"
  defines "lc \<equiv> la_worker_lcores (cf_launch c) ! i"
  obtains ft' r' tx' bufs fwd dr x where
    "sys_worker c s i scratch ft clock = Some (s\<lparr>sy_workers := (sy_workers s)[i := Running (scratch, ft')],
       sy_stats := (sy_stats s)[lc := x], sy_freed := sy_freed s @ dr, sy_rings := (sy_rings s)[i := r'],
       sy_tx := tx', sy_taken := (sy_taken s)[i := sy_taken s ! i @ bufs]\<rparr>)"
    "worker_ok ok keys c (Running (scratch, ft'))" "contents (sy_rings s ! i) = bufs @ contents r'"
    "contents tx' = contents (sy_tx s) @ fwd" "mset fwd + mset dr = mset bufs"
    "burst_counted (length bufs) (length fwd) (length dr) (sy_stats s ! lc) x"
    "rx_packets x = rx_packets (sy_stats s ! lc)" "tx_packets x = tx_packets (sy_stats s ! lc)"
proof -
  let ?e = "env_of c i scratch" and ?w = "worker_at s ft" and ?r = "sy_rings s ! i"
  have ring: "rte_ring_contract (cf_ring c) contents" and hash: "rte_hash_contract (we_hash ?e) ok keys slots"
    using cfg by (simp_all add: cfg_ok_def env_of_def)
  have len: "length (sy_rings s) = sys_workers c" "length (sy_workers s) = sys_workers c"
    "lc < length (sy_stats s)"
    using inv cfg_lcores(7) [OF cfg cfg_lcores(5) [OF cfg i]] by (simp_all add: sys_defs lc_def)
  have "worker_ok ok keys c (Running (scratch, ft))"
    using inv th i len(2) by (metis nth_mem sys_inv_def sys_wf_def)
  then have ft: "table_inv ok keys ft"
    "dpi_engine_alloc_scratch (we_hs ?e) (we_engine ?e) = Inr (we_scratch ?e)"
    by (simp_all add: worker_ok_def env_of_def)
  have safe: "scan_safe ?e"
    using cfg loaded_scan_safe [OF _ _ ft(2)] by (auto simp: cfg_ok_def env_of_def)
  have winv: "worker_inv ok keys ?e ?w"
    using ft(1) len(3) by (simp add: worker_inv_def worker_at_def env_of_def lc_def)
  obtain w' r' tx' bufs fwd dr where o:
    "worker_iteration ?e (cf_ring c) ?w ?r (sy_tx s) clock = Some (w', r', tx')" "worker_inv ok keys ?e w'"
    "length bufs \<le> BURST_SIZE" "contents ?r = bufs @ contents r'" "contents tx' = contents (sy_tx s) @ fwd"
    "wk_freed w' = wk_freed ?w @ dr" "mset fwd + mset dr = mset bufs" "subseq fwd bufs"
    "burst_counted (length bufs) (length fwd) (length dr)
      (wk_stats ?w ! we_lcore ?e) (wk_stats w' ! we_lcore ?e)"
    "wk_stats w' = (wk_stats ?w)[we_lcore ?e := wk_stats w' ! we_lcore ?e]"
    "rx_packets (wk_stats w' ! we_lcore ?e) = rx_packets (wk_stats ?w ! we_lcore ?e)"
    "tx_packets (wk_stats w' ! we_lcore ?e) = tx_packets (wk_stats ?w ! we_lcore ?e)"
    by (rule worker_iteration_spec [OF hash ring safe winv ordered_mbuf_ok [OF inv i], of "sy_tx s" clock])
  obtain r2 bufs' where d: "ring_dequeue_burst (cf_ring c) ?r BURST_SIZE = (r2, bufs')" by (metis surj_pair)
  have "r2 = r'"
    using o(1) d by (auto simp: worker_iteration_def split: if_splits Option.bind_splits prod.splits)
  then have taken: "snd (ring_dequeue_burst (cf_ring c) ?r BURST_SIZE) = bufs"
    using rte_ring_contract.dequeue [OF ring d] o(4) d by simp
  have st: "wk_stats w' = (sy_stats s)[lc := wk_stats w' ! lc]"
    using o(10) by (simp add: worker_at_def env_of_def lc_def)
  have run: "sys_worker c s i scratch ft clock = Some (s\<lparr>sy_workers := (sy_workers s)[i := Running (scratch, wk_ft w')],
      sy_stats := (sy_stats s)[lc := wk_stats w' ! lc], sy_freed := sy_freed s @ dr,
      sy_rings := (sy_rings s)[i := r'], sy_tx := tx', sy_taken := (sy_taken s)[i := sy_taken s ! i @ bufs]\<rparr>)"
    using o(1,6) taken len(1) i unfolding st [symmetric]
    by (simp add: sys_worker_def mem_simps worker_at_def)
  have "worker_ok ok keys c (Running (scratch, wk_ft w'))"
    using o(2) ft(2) by (simp add: worker_ok_def worker_inv_def env_of_def)
  from that [OF run this o(4,5,7)] show ?thesis
    using o(9,11,12) by (simp add: worker_at_def env_of_def lc_def)
qed

lemma sys_worker_inv:
  assumes cfg: "cfg_ok ok keys slots contents matches fits c" and inv: "sys_inv ok keys contents c s"
    and i: "i < sys_workers c" and th: "sy_workers s ! i = Running (scratch, ft)"
  shows "\<exists>s'. sys_worker c s i scratch ft clock = Some s' \<and> sys_inv ok keys contents c s'"
proof -
  let ?lc = "la_worker_lcores (cf_launch c) ! i"
  obtain ft' r' tx' bufs fwd dr x where o:
    "sys_worker c s i scratch ft clock = Some (s\<lparr>sy_workers := (sy_workers s)[i := Running (scratch, ft')],
       sy_stats := (sy_stats s)[?lc := x], sy_freed := sy_freed s @ dr, sy_rings := (sy_rings s)[i := r'],
       sy_tx := tx', sy_taken := (sy_taken s)[i := sy_taken s ! i @ bufs]\<rparr>)" (is "_ = Some ?s'")
    "worker_ok ok keys c (Running (scratch, ft'))" "contents (sy_rings s ! i) = bufs @ contents r'"
    "contents tx' = contents (sy_tx s) @ fwd" "mset fwd + mset dr = mset bufs"
    "burst_counted (length bufs) (length fwd) (length dr) (sy_stats s ! ?lc) x"
    "rx_packets x = rx_packets (sy_stats s ! ?lc)" "tx_packets x = tx_packets (sy_stats s ! ?lc)"
    by (rule sys_worker_burst [OF assms])
  have len: "length (sy_rings s) = sys_workers c" "length (sy_workers s) = sys_workers c"
    "length (sy_taken s) = sys_workers c" "?lc < length (sy_stats s)"
    using inv cfg_lcores(7) [OF cfg cfg_lcores(5) [OF cfg i]] by (simp_all add: sys_defs)
  have wf': "sys_wf ok keys c ?s'"
    using inv o(2) set_update_subset_insert [of "sy_workers s" i "Running (scratch, ft')"]
    by (auto simp: sys_defs)
  have "waiting contents (sys_workers c) ((sy_rings s)[i := r']) + mset bufs =
      waiting contents (sys_workers c) (sy_rings s)"
    using i len(1) o(3) by (intro waiting_update) (simp_all add: ac_simps)
  then have cons: "sys_conserved contents c ?s'"
    using inv o(4,5) by (simp add: sys_defs ac_simps) (metis (no_types, lifting) add.assoc add.commute)
  note tot = counter_total_update [OF cfg_lcores(6) [OF cfg] cfg_lcores(5) [OF cfg i] len(4)]
  have counted: "sys_counted contents c ?s'"
    using inv o(4,6,7,8) i len(3)
    by (simp add: sys_defs burst_counted_def sum_list_update_length
        tot [where f = rx_packets and d = 0] tot [where f = dropped_packets and d = "of_nat (length dr)"]
        tot [where f = tx_packets and d = 0] tot [where f = forwarded_packets and d = "of_nat (length fwd)"]
        tot [where f = processed and d = "of_nat (length bufs)"])
  have ordered: "sys_ordered contents c ?s'"
    using inv o(3) len i by (auto simp: sys_defs nth_list_update)
  show ?thesis using o(1) wf' cons counted ordered by (auto simp: sys_inv_def)
qed

lemma sys_tx_inv:
  assumes cfg: "cfg_ok ok keys slots contents matches fits c" and inv: "sys_inv ok keys contents c s"
    and nic: "\<forall>bufs. nic_tx bufs \<le> length bufs"
  shows "\<exists>s'. sys_tx c s nic_tx = Some s' \<and> sys_inv ok keys contents c s'"
proof -
  let ?lc = "la_tx_lcore (cf_launch c)"
  have ring: "rte_ring_contract (cf_ring c) contents" using cfg by (simp add: cfg_ok_def)
  have lc: "?lc < length (sy_stats s)"
    using inv cfg_lcores(7) [OF cfg cfg_lcores(4) [OF cfg]] by (simp add: sys_defs)
  obtain tx' t' bufs where o: "tx_iteration (cf_ring c) nic_tx ?lc (sy_tx s) (sy_stats s) (sy_wire s)
      (sy_tx_freed s) = Some (tx', t', sy_wire s @ take (nic_tx bufs) bufs,
        sy_tx_freed s @ drop (nic_tx bufs) bufs)"
    "contents (sy_tx s) = bufs @ contents tx'"
    "t' = (sy_stats s)[?lc := (sy_stats s ! ?lc)\<lparr>tx_packets :=
       tx_packets (sy_stats s ! ?lc) + of_nat (nic_tx bufs)\<rparr>]"
    by (rule tx_iteration_spec [OF ring nic lc, of "sy_tx s" "sy_wire s" "sy_tx_freed s"])
  have k: "nic_tx bufs \<le> length bufs" using nic by blast
  define s' where "s' = s\<lparr>sy_tx := tx', sy_stats := t', sy_wire := sy_wire s @ take (nic_tx bufs) bufs,
    sy_tx_freed := sy_tx_freed s @ drop (nic_tx bufs) bufs\<rparr>"
  have run: "sys_tx c s nic_tx = Some s'" using o(1) by (simp add: sys_tx_def s'_def)
  have wf': "sys_wf ok keys c s'" using inv o(3) by (auto simp: sys_defs s'_def)
  have cons: "sys_conserved contents c s'"
    using inv o(2) take_drop_mset [of "nic_tx bufs" bufs] by (simp add: sys_defs s'_def ac_simps)
  note tot = counter_total_update [OF cfg_lcores(6) [OF cfg] cfg_lcores(4) [OF cfg] lc]
  have counted: "sys_counted contents c s'"
    using inv o(2,3) k
    by (simp add: sys_defs s'_def processed_def
        tot [where f = rx_packets and d = 0] tot [where f = dropped_packets and d = 0]
        tot [where f = tx_packets and d = "of_nat (nic_tx bufs)"]
        tot [where f = forwarded_packets and d = 0] tot [where f = processed and d = 0])
  have ordered: "sys_ordered contents c s'" using inv by (auto simp: sys_defs s'_def)
  show ?thesis using run wf' cons counted ordered by (auto simp: sys_inv_def)
qed

lemma cfg_args:
  assumes "cfg_ok ok keys slots contents matches fits c" "length t = length (la_stats (cf_launch c))"
  shows "args_ok (la_stats_args (cf_launch c)) t" "\<forall>l \<in> set (cf_lcores c). l < length t"
    "sa_num_workers (la_stats_args (cf_launch c)) = sys_workers c"
  using assms by (auto simp: cfg_ok_def launch_ok_def args_ok_def sys_workers_def)

lemma sys_stats_inv:
  assumes cfg: "cfg_ok ok keys slots contents matches fits c" and inv: "sys_inv ok keys contents c s"
    and sl: "sy_stats_loop s = Running sl"
    and u: "length uninit_pps = MAX_WORKERS" "length uninit_counts = MAX_WORKERS"
  shows "\<exists>s'. sys_stats c s sl uninit_pps uninit_counts now = Some s' \<and> sys_inv ok keys contents c s'"
proof -
  let ?a = "la_stats_args (cf_launch c)"
  have len: "length (sy_stats s) = length (la_stats (cf_launch c))" "length (sl_worker_prev sl) = 4"
    using inv sl by (simp_all add: sys_defs)
  note a = cfg_args [OF cfg len(1)]
  have r: "mono (cf_rnd c)" "cf_rnd c 0 = 0" using cfg by (simp_all add: cfg_ok_def)
  have bt: "buckets_inv (sa_num_workers ?a) (sy_bt s)" using inv a(3) by (simp add: sys_defs)
  obtain sl' bt' rep where o: "stats_tick (cf_rnd c) ?a (cf_lcores c) (cf_hz c) uninit_pps uninit_counts
      (sy_stats s) sl (sy_bt s) now = Some (sl', bt', rep)"
    "buckets_inv (sa_num_workers ?a) bt'" "length (sl_worker_prev sl') = 4"
    "case tr_moved rep of
       None \<Rightarrow> bt' = sy_bt s
     | Some (m, from, to) \<Rightarrow> sa_rebalance_enabled ?a \<and> m \<le> 8 \<and> from < sa_num_workers ?a \<and>
         to < sa_num_workers ?a \<and> from \<noteq> to \<and>
         (\<forall>i < sa_num_workers ?a. tr_worker_pps rep ! i \<le> tr_worker_pps rep ! from) \<and>
         (\<forall>i < sa_num_workers ?a. tr_worker_pps rep ! to \<le> tr_worker_pps rep ! i) \<and>
         parser_bucket_rebalance (sy_bt s) from to now (idle_threshold_cycles (cf_hz c)) = Some (bt', m)"
    using stats_tick_spec [OF r a(1,2) len(2) u bt, of "cf_hz c" now] by blast
  have same: "\<not> sa_rebalance_enabled ?a \<Longrightarrow> bt' = sy_bt s"
    using o(4) by (cases "tr_moved rep") (auto split: prod.splits)
  have run: "sys_stats c s sl uninit_pps uninit_counts now =
      Some (s\<lparr>sy_stats_loop := Running sl', sy_bt := bt'\<rparr>)" using o(1) by (simp add: sys_stats_def)
  have "sys_inv ok keys contents c (s\<lparr>sy_stats_loop := Running sl', sy_bt := bt'\<rparr>)"
    using o(2,3) same inv a(3) by (simp add: sys_defs)
  then show ?thesis using run by blast
qed

lemma sys_worker_start_inv:
  assumes cfg: "cfg_ok ok keys slots contents matches fits c" and inv: "sys_inv ok keys contents c s"
  shows "sys_inv ok keys contents c (sys_worker_start c s i zt zs)"
proof -
  obtain seq live ls r where w: "worker_thread_start (cf_hs c) (la_engine (cf_launch c)) zt
      (cf_hash_create c) zs (sy_table_seq s) (la_flow_timeout (cf_launch c)) = (seq, live, ls, r)"
    by (metis prod_cases4)
  have new: "\<forall>name h. cf_hash_create c name = Some h \<longrightarrow> ok h \<and> keys h = Map.empty"
    using cfg by (simp add: cfg_ok_def)
  have "worker_ok ok keys c (case r of None \<Rightarrow> Returned | Some p \<Rightarrow> Running p)"
    using w new
    by (auto simp: worker_thread_start_def parser_flow_table_create_def worker_ok_def table_inv_def
        flow_of_def Let_def split: option.splits if_splits sum.splits)
  then show ?thesis
    using inv w set_update_subset_insert [of "sy_workers s" i]
    by (fastforce simp: sys_worker_start_def sys_defs)
qed

lemma sys_stats_start_inv:
  assumes cfg: "cfg_ok ok keys slots contents matches fits c" and inv: "sys_inv ok keys contents c s"
    and "length uninit = MAX_WORKERS"
  shows "\<exists>s'. sys_stats_start c s uninit now = Some s' \<and> sys_inv ok keys contents c s'"
proof -
  have len: "length (sy_stats s) = length (la_stats (cf_launch c))" using inv by (simp add: sys_defs)
  show ?thesis
    using stats_start_spec [OF cfg_args(1,2) [OF cfg len] assms(3), of now] inv
    by (auto simp: sys_stats_start_def sys_defs)
qed

lemma sys_step_inv:
  assumes cfg: "cfg_ok ok keys slots contents matches fits c"
    and "sys_step c s s'" "sys_inv ok keys contents c s"
  shows "sys_inv ok keys contents c s'"
  using assms(2,3)
proof (induction rule: sys_step_induct)
  case (step_rx s bufs now s')
  then show ?case using sys_rx_inv [OF cfg step_rx.prems step_rx.hyps(3,4), of now] by simp
next
  case (step_worker s i scratch ft clock s')
  then show ?case
    using sys_worker_inv [OF cfg step_worker.prems step_worker.hyps(2,3), of clock] by simp
next
  case (step_tx s nic_tx s')
  then show ?case using sys_tx_inv [OF cfg step_tx.prems step_tx.hyps(3)] by simp
next
  case (step_stats s sl up uc now s')
  then show ?case
    using sys_stats_inv [OF cfg step_stats.prems step_stats.hyps(2-4), of now] by simp
next
  case (step_worker_start i s zt zs)
  then show ?case using sys_worker_start_inv [OF cfg] by blast
next
  case (step_stats_start s uninit now s')
  then show ?case
    using sys_stats_start_inv [OF cfg step_stats_start.prems step_stats_start.hyps(2), of now] by simp
next
  case (step_worker_return s i p)
  then show ?case
    using set_update_subset_insert [of "sy_workers s" i Returned] by (auto simp: sys_defs worker_ok_def)
qed (auto simp: sys_defs)

lemma reachable_inv:
  assumes "cfg_ok ok keys slots contents matches fits c" "sys_reachable c s"
  shows "sys_inv ok keys contents c s"
  using assms(2) by induction (auto intro: sys_start_inv [OF assms(1)] sys_step_inv [OF assms(1)])

section \<open>Totals\<close>

lemma aggregate_totals:
  assumes "\<forall>l \<in> set lcores. l < length t"
  obtains cur where "aggregate t lcores = Some cur"
    "rx_packets cur = counter_total rx_packets lcores t"
    "dropped_packets cur = counter_total dropped_packets lcores t"
    "tx_packets cur = counter_total tx_packets lcores t"
    "forwarded_packets cur = counter_total forwarded_packets lcores t"
    "processed cur = counter_total processed lcores t"
proof -
  have f: "f (foldl add_stats z (map (\<lambda>l. t ! l) lcores)) = f z + counter_total f lcores t"
    if "\<And>a b. f (add_stats a b) = f a + f b" for f :: "core_stats \<Rightarrow> u64" and z
    by (induction lcores arbitrary: z) (simp_all add: counter_total_def that add.assoc)
  have p: "processed (foldl add_stats zero_stats (map (\<lambda>l. t ! l) lcores)) =
      processed zero_stats + counter_total processed lcores t"
    by (rule f) (simp add: processed_def add_stats_def)
  show ?thesis
    by (rule that [OF aggregate_eq [OF assms]])
      (simp_all add: f p add_stats_def, simp_all add: zero_stats_def processed_def)
qed

section \<open>Shutdown\<close>



















section \<open>From start-up to the running system\<close>

text \<open>
  The documented behaviour of the libraries alone: the hash table, the rings and their creation,
  Hyperscan, the rounding, and an enumeration of the enabled lcores.
\<close>

definition libs_ok ::
  "('h \<Rightarrow> bool) \<Rightarrow> ('h \<Rightarrow> flow_key \<rightharpoonup> nat) \<Rightarrow> nat \<Rightarrow> ('r \<Rightarrow> rte_mbuf list) \<Rightarrow>
   (byte list \<Rightarrow> nat \<Rightarrow> byte list \<Rightarrow> bool) \<Rightarrow> ('s \<Rightarrow> 'd \<Rightarrow> bool) \<Rightarrow> 'r platform \<Rightarrow> ('h, 'd, 's, 'r) sys_cfg \<Rightarrow> bool" where
  "libs_ok ok keys slots contents matches fits pf c \<longleftrightarrow>
     platform_ok pf \<and>
     rte_hash_contract (cf_hash c) ok keys slots \<and> rte_ring_contract (cf_ring c) contents \<and>
     hyperscan (cf_hs c) matches fits \<and>
     (\<forall>name h. cf_hash_create c name = Some h \<longrightarrow> ok h \<and> keys h = Map.empty) \<and>
     (\<forall>name size r. pf_ring_create pf name size = Some r \<longrightarrow> contents r = []) \<and>
     mono (cf_rnd c) \<and> cf_rnd c 0 = 0 \<and>
     distinct (cf_lcores c) \<and> set (pf_worker_lcores pf) \<subseteq> set (cf_lcores c) \<and>
     (\<forall>l \<in> set (cf_lcores c). l < pf_max_lcore pf)"

lemma started_cfg_ok:
  assumes "libs_ok ok keys slots contents matches fits pf c" "\<forall>k. length (uninit k) = k"
    and "main_start (cf_hs c) pf uninit argv = Some (Inr (cf_launch c))"
  shows "cfg_ok ok keys slots contents matches fits c"
proof -
  let ?l = "cf_launch c"
  have pf: "platform_ok pf" using assms(1) by (simp add: libs_ok_def)
  have l: "launch_ok ?l" "set (used_lcores ?l) \<subseteq> set (pf_worker_lcores pf)"
    "la_stats ?l = stats_init (pf_max_lcore pf)"
    "setup_io pf (la_nb_mbufs ?l) (la_num_workers ?l) = Inr (la_worker_rings ?l, la_tx_ring ?l)"
    "\<exists>content. dpi_engine_load_rules (cf_hs c) (pf_realloc pf) (pf_calloc_http pf) (pf_calloc_https pf)
       (Some content) zero_engine = (True, la_engine ?l)"
    using start_spec [OF pf assms(2), of "cf_hs c" argv] assms(3) by auto
  have "\<forall>r \<in> set (la_tx_ring ?l # la_worker_rings ?l). contents r = []"
    using assms(1) by (intro setup_io_new [OF l(4)]) (simp add: libs_ok_def)
  moreover have "\<exists>ro c1 c2 content. dpi_engine_load_rules (cf_hs c) ro c1 c2 (Some content) zero_engine =
      (True, la_engine ?l)" using l(5) by blast
  moreover have "length (la_stats ?l) = pf_max_lcore pf" using l(3) by (simp add: stats_init_def)
  ultimately show ?thesis
    using assms(1) l(1,2) unfolding libs_ok_def cfg_ok_def by (metis subset_trans)
qed

lemma system_safe:
  assumes "cfg_ok ok keys slots contents matches fits c" and "sys_reachable c s"
  shows "(\<forall>bufs now. length bufs \<le> BURST_SIZE \<and> (\<forall>p \<in> set bufs. mbuf_ok p) \<longrightarrow>
       sys_rx c s bufs now \<noteq> None) \<and>
    (\<forall>i scratch ft clock. i < sys_workers c \<and> sy_workers s ! i = Running (scratch, ft) \<longrightarrow>
       sys_worker c s i scratch ft clock \<noteq> None) \<and>
    (\<forall>nic_tx. (\<forall>bufs. nic_tx bufs \<le> length bufs) \<longrightarrow> sys_tx c s nic_tx \<noteq> None) \<and>
    (\<forall>sl up uc now. sy_stats_loop s = Running sl \<and> length up = MAX_WORKERS \<and> length uc = MAX_WORKERS \<longrightarrow>
       sys_stats c s sl up uc now \<noteq> None) \<and>
    (\<forall>u now. length u = MAX_WORKERS \<longrightarrow> sys_stats_start c s u now \<noteq> None) \<and>
    mset (sy_received s) = waiting contents (sys_workers c) (sy_rings s) + mset (contents (sy_tx s)) +
      mset (sy_freed s) + mset (sy_tx_freed s) + mset (sy_wire s)"
proof -
  note inv = reachable_inv [OF assms]
  have "sys_rx c s bufs now \<noteq> None"
    if "length bufs \<le> BURST_SIZE" "\<forall>p \<in> set bufs. mbuf_ok p" for bufs now
    using sys_rx_inv [OF assms(1) inv that, of now] by auto
  moreover have "sys_worker c s i scratch ft clock \<noteq> None"
    if "i < sys_workers c" "sy_workers s ! i = Running (scratch, ft)" for i scratch ft clock
    using sys_worker_inv [OF assms(1) inv that, of clock] by auto
  moreover have "sys_tx c s nic_tx \<noteq> None" if "\<forall>bufs. nic_tx bufs \<le> length bufs" for nic_tx
    using sys_tx_inv [OF assms(1) inv that] by auto
  moreover have "sys_stats c s sl up uc now \<noteq> None"
    if "sy_stats_loop s = Running sl" "length up = MAX_WORKERS" "length uc = MAX_WORKERS" for sl up uc now
    using sys_stats_inv [OF assms(1) inv that, of now] by auto
  moreover have "sys_stats_start c s u now \<noteq> None" if "length u = MAX_WORKERS" for u now
    using sys_stats_start_inv [OF assms(1) inv that, of now] by auto
  moreover have "mset (sy_received s) = waiting contents (sys_workers c) (sy_rings s) +
      mset (contents (sy_tx s)) + mset (sy_freed s) + mset (sy_tx_freed s) + mset (sy_wire s)"
    using inv by (simp only: sys_inv_def sys_conserved_def)
  ultimately show ?thesis by blast
qed

section \<open>A small system\<close>

text \<open>The system that the demo command line launches, with a packet received.\<close>

definition demo_cfg :: "(fifo_ring, literal_db) launch \<Rightarrow> (slot_hash, literal_db, unit, fifo_ring) sys_cfg" where
  "demo_cfg l = \<lparr>cf_jhash = (\<lambda>k. 5), cf_hash = slot_ops, cf_hash_create = (\<lambda>name. Some (replicate 1024 None)),
     cf_hs = literal_hs, cf_ring = fifo_ops, cf_lcores = [0, 1, 2, 3, 4, 5, 6], cf_hz = 1000,
     cf_rnd = (\<lambda>x. x), cf_launch = l\<rparr>"

abbreviation (input) demo_cfg_ok :: "(slot_hash, literal_db, unit, fifo_ring) sys_cfg \<Rightarrow> bool" where
  "demo_cfg_ok \<equiv> cfg_ok slot_ok slot_keys FLOW_TABLE_CAPACITY fr_items literal_matches (\<lambda>s d. True)"

abbreviation (input) demo_libs_ok :: "(slot_hash, literal_db, unit, fifo_ring) sys_cfg \<Rightarrow> bool" where
  "demo_libs_ok \<equiv> libs_ok slot_ok slot_keys FLOW_TABLE_CAPACITY fr_items literal_matches (\<lambda>s d. True)
     demo_platform"

lemma demo_system:
  obtains l s where "main_start literal_hs demo_platform (\<lambda>k. replicate k 0) demo_args = Some (Inr l)"
    "demo_libs_ok (demo_cfg l)" "demo_cfg_ok (demo_cfg l)" "sys_workers (demo_cfg l) = 2" "sys_reachable (demo_cfg l) s"
    "sy_received s = [short_packet]" "sy_rx_up s" "\<not> sy_quit s"
proof -
  obtain l where l: "main_start literal_hs demo_platform (\<lambda>k. replicate k 0) demo_args = Some (Inr l)"
    "la_num_workers l = 2"
    by (rule demo_launches)
  have k: "slot_ok (replicate 1024 None) \<and> slot_keys (replicate 1024 None) = Map.empty"
    using empty_table_inv [of 0] flow_of_empty_table [of 0]
    by (simp add: table_inv_def empty_table_def flow_of_def fun_eq_iff)
  have libs: "demo_libs_ok (demo_cfg l)"
    unfolding libs_ok_def
    using k demo_platform_ok slot_hash.rte_hash_contract_axioms fifo.rte_ring_contract_axioms
      literal.hyperscan_axioms
    by (auto simp: demo_cfg_def demo_platform_def mono_def)
  have sel: "cf_hs (demo_cfg l) = literal_hs" "cf_launch (demo_cfg l) = l" by (simp_all add: demo_cfg_def)
  have cfg: "demo_cfg_ok (demo_cfg l)"
    by (rule started_cfg_ok [OF libs, of "\<lambda>k. replicate k 0" demo_args]) (simp_all add: sel l(1))
  have w: "sys_workers (demo_cfg l) = 2" by (simp add: sys_workers_def demo_cfg_def l(2))
  have m: "\<forall>p \<in> set [short_packet]. mbuf_ok p" using demo_facts(5) by simp
  obtain s where s: "sys_rx (demo_cfg l) (sys_start (demo_cfg l)) [short_packet] 9 = Some s"
    using sys_rx_inv [OF cfg sys_start_inv [OF cfg] _ m, of 9] by auto
  have step: "sys_step (demo_cfg l) (sys_start (demo_cfg l)) s"
    by (rule step_rx [OF _ _ _ m s]) (simp_all add: sys_start_def)
  have "sy_received s = [short_packet]" "sy_rx_up s" "\<not> sy_quit s"
    using s by (auto simp: sys_rx_def sys_start_def split: Option.bind_splits)
  then show ?thesis using that l(1) libs cfg w reach_step [OF reach_start step] by blast
qed

section \<open>Properties\<close>

text \<open>
  C14: the printed totals. In every reachable state the sums over the enabled lcores account for all
  packets, modulo \<open>2^64\<close>: received is dropped plus sent plus what is still in the rings plus what the
  TX thread freed, which no counter shows; forwarded is sent plus the TX ring plus what the TX
  thread freed; classified is what the workers have taken.
\<close>

theorem system_counters_balance:
  assumes "cfg_ok ok keys slots contents matches fits c" and "sys_reachable c s"
  shows "\<exists>cur. aggregate (sy_stats s) (cf_lcores c) = Some cur \<and>
    rx_packets cur = dropped_packets cur + tx_packets cur +
      of_nat (size (waiting contents (sys_workers c) (sy_rings s)) + length (contents (sy_tx s)) +
        length (sy_tx_freed s)) \<and>
    forwarded_packets cur = tx_packets cur + of_nat (length (contents (sy_tx s)) + length (sy_tx_freed s)) \<and>
    http_packets cur + https_packets cur + non_dpi_packets cur =
      of_nat (sum_list (map length (sy_taken s)))"
proof -
  note inv = reachable_inv [OF assms]
  have "\<forall>l \<in> set (cf_lcores c). l < length (sy_stats s)"
    using inv cfg_lcores(7) [OF assms(1)] by (simp add: sys_defs)
  then obtain cur where cur: "aggregate (sy_stats s) (cf_lcores c) = Some cur"
    "rx_packets cur = counter_total rx_packets (cf_lcores c) (sy_stats s)"
    "dropped_packets cur = counter_total dropped_packets (cf_lcores c) (sy_stats s)"
    "tx_packets cur = counter_total tx_packets (cf_lcores c) (sy_stats s)"
    "forwarded_packets cur = counter_total forwarded_packets (cf_lcores c) (sy_stats s)"
    "processed cur = counter_total processed (cf_lcores c) (sy_stats s)"
    by (rule aggregate_totals)
  have "size (mset (sy_received s)) = size (waiting contents (sys_workers c) (sy_rings s)) +
      length (contents (sy_tx s)) + length (sy_freed s) + length (sy_tx_freed s) + length (sy_wire s)"
    using inv by (simp add: sys_inv_def sys_conserved_def)
  then show ?thesis
    using cur inv by (simp add: sys_inv_def sys_counted_def processed_def)
qed

theorem system_counters_balance_witness:
  "\<exists>l s cur. demo_cfg_ok (demo_cfg l) \<and> sys_reachable (demo_cfg l) s \<and>
     aggregate (sy_stats s) [0, 1, 2, 3, 4, 5, 6] = Some cur \<and>
     rx_packets cur = dropped_packets cur + tx_packets cur +
       of_nat (size (waiting fr_items 2 (sy_rings s)) + length (fr_items (sy_tx s)) + length (sy_tx_freed s))"
proof (rule demo_system)
  fix l s
  assume a: "demo_cfg_ok (demo_cfg l)" "sys_workers (demo_cfg l) = 2" "sys_reachable (demo_cfg l) s"
  have "cf_lcores (demo_cfg l) = [0, 1, 2, 3, 4, 5, 6]" by (simp add: demo_cfg_def)
  then show ?thesis using system_counters_balance [OF a(1,3)] a by metis
qed

text \<open>
  C17: order. In every reachable state the packets worker \<open>i\<close> has taken, followed by those waiting in
  its ring, are a subsequence of the packets received: a worker sees its packets in arrival order.
  With rebalancing disabled (option \<open>-B\<close>) they all belong to buckets that worker \<open>i\<close> owned at the
  start, so no two workers ever take packets of the same bucket, hence of the same flow.
\<close>

theorem system_keeps_order:
  assumes "cfg_ok ok keys slots contents matches fits c" and "sys_reachable c s" and "i < sys_workers c"
  shows "subseq (sy_taken s ! i @ contents (sy_rings s ! i)) (sy_received s) \<and>
    (\<not> sa_rebalance_enabled (la_stats_args (cf_launch c)) \<longrightarrow>
      (\<forall>p \<in> set (sy_taken s ! i). owner (cf_jhash c) (la_buckets (cf_launch c)) p = i) \<and>
      (\<forall>k p q. k < sys_workers c \<and> p \<in> set (sy_taken s ! i) \<and> q \<in> set (sy_taken s ! k) \<and>
         bucket_of (packet_hash (cf_jhash c) p) = bucket_of (packet_hash (cf_jhash c) q) \<longrightarrow> k = i))"
proof -
  have o: "sys_ordered contents c s" using reachable_inv [OF assms(1,2)] by (simp add: sys_inv_def)
  have mine: "owner (cf_jhash c) (la_buckets (cf_launch c)) p = k"
    if "\<not> sa_rebalance_enabled (la_stats_args (cf_launch c))" "k < sys_workers c" "p \<in> set (sy_taken s ! k)" for k p
    using o that by (simp add: sys_ordered_def)
  have "k = i" if "\<not> sa_rebalance_enabled (la_stats_args (cf_launch c))" "k < sys_workers c"
    "p \<in> set (sy_taken s ! i)" "q \<in> set (sy_taken s ! k)"
    "bucket_of (packet_hash (cf_jhash c) p) = bucket_of (packet_hash (cf_jhash c) q)" for k p q
    using mine [OF that(1) assms(3) that(3)] mine [OF that(1,2,4)] that(5) by (simp add: owner_def)
  then show ?thesis using o assms(3) mine by (auto simp: sys_ordered_def)
qed

theorem system_keeps_order_witness:
  "\<exists>l s. demo_cfg_ok (demo_cfg l) \<and> sys_reachable (demo_cfg l) s \<and>
     subseq (sy_taken s ! 1 @ fr_items (sy_rings s ! 1)) [short_packet]"
proof (rule demo_system)
  fix l s
  assume a: "demo_cfg_ok (demo_cfg l)" "sys_workers (demo_cfg l) = 2" "sys_reachable (demo_cfg l) s"
    "sy_received s = [short_packet]"
  have "1 < sys_workers (demo_cfg l)" using a(2) by simp
  from system_keeps_order [OF a(1,3) this] show ?thesis
    using a by (intro exI [of _ l] exI [of _ s]) simp
qed



end
