(* ===== verification/Isolation.thy ===== *)
theory Isolation
  imports Worker_Properties
begin

text \<open>
  Isolation of flows. A flow that stays within the idle timeout is a machine of its own: what the
  worker does with its packets is a function of these packets alone, whatever other traffic, garbage,
  bursts and sweeps lie between them.
\<close>

section \<open>One flow as a machine\<close>

text \<open>
  A packet of the flow: the update of the flow state, the verdict on the packet, and the cached
  verdict if the packet decides the flow. The outcome is the next state, whether the packet counts as
  not inspected, and its action.
\<close>

definition flow_track ::
  "('h, 'd, 's) worker_env \<Rightarrow> flow_state \<Rightarrow> l2l4_result \<times> u64 \<Rightarrow>
   (flow_state \<times> bool \<times> packet_action) option" where
  "flow_track env st p = do {
     (st1, r) \<leftarrow> flow_state_update st (fst p) (snd p);
     let a = verdict_of env (l2l4_type (fst p)) r;
     Some (if decides r then set_verdict st1 a else st1, ur_no_sni r, a) }"

abbreviation flow_tracks ::
  "('h, 'd, 's) worker_env \<Rightarrow> flow_state \<Rightarrow> (l2l4_result \<times> u64) list \<Rightarrow> flow_state option" where
  "flow_tracks env \<equiv> fold_opt (\<lambda>st p. map_option fst (flow_track env st p))"

text \<open>The flow's own packets among the worker's inputs, as the parser sees them.\<close>

definition own :: "flow_key \<Rightarrow> rte_mbuf \<times> u64 \<times> u64 \<Rightarrow> (l2l4_result \<times> u64) option" where
  "own k p = (case parser_parse_l2_l4 (fst p) of
       Some (Some l) \<Rightarrow> if l2l4_key l = k then Some (l, snd (snd p)) else None
     | _ \<Rightarrow> None)"

definition of_flow :: "flow_key \<Rightarrow> rte_mbuf \<Rightarrow> bool" where
  "of_flow k pkt \<longleftrightarrow> (\<exists>l. parser_parse_l2_l4 pkt = Some (Some l) \<and> l2l4_key l = k)"

abbreviation owns :: "flow_key \<Rightarrow> (rte_mbuf \<times> u64 \<times> u64) list \<Rightarrow> (l2l4_result \<times> u64) list" where
  "owns k \<equiv> List.map_filter (own k)"

text \<open>
  The flow, last seen at \<open>seen\<close>, is never idle for longer than the timeout when the clock is read for
  a sweep.
\<close>

fun alive :: "flow_key \<Rightarrow> u64 \<Rightarrow> u64 \<Rightarrow> (rte_mbuf \<times> u64 \<times> u64) list \<Rightarrow> bool" where
  "alive k timeout seen [] = True"
| "alive k timeout seen (p # ps) =
     (fst (snd p) - seen \<le> timeout \<and>
      alive k timeout (case own k p of Some q \<Rightarrow> snd q | None \<Rightarrow> seen) ps)"

lemma ownD:
  assumes "own k p = Some (l, now)"
  shows "parser_parse_l2_l4 (fst p) = Some (Some l)" "l2l4_key l = k" "snd (snd p) = now"
  using assms by (auto simp: own_def split: option.splits if_splits)

lemma own_None: "own k p = None \<longleftrightarrow> \<not> of_flow k (fst p)"
  by (auto simp: own_def of_flow_def split: option.splits)

lemma own_parsed: "parser_parse_l2_l4 pkt = Some (Some l) \<Longrightarrow>
    own k (pkt, ts, now) = (if l2l4_key l = k then Some (l, now) else None)"
  by (simp add: own_def)

lemma swept_keeps_alive:
  assumes "F k = Some st" "ts - st_last_seen_tsc st \<le> timeout"
    and "if c then swept timeout ts F F1 else F1 = F"
  shows "F1 k = Some st"
proof (cases c)
  case True
  then have "F1 \<subseteq>\<^sub>m F" "F1 k = None \<Longrightarrow> ts - st_last_seen_tsc st > timeout"
    using assms(1,3) by (auto simp: swept_def)
  then have s: "F1 \<subseteq>\<^sub>m F" "F1 k \<noteq> None" using assms(2) by (auto simp: not_less [symmetric])
  then show ?thesis using assms(1) by (metis domI domD map_le_def not_None_eq)
qed (use assms in simp)

text \<open>A packet of the flow moves the machine, every other packet leaves it alone.\<close>

lemma packet_tracks:
  fixes env :: "('h, 'd, 's) worker_env"
  assumes e: "packet_effect F1 l now F2 r" and st: "F1 k = Some st"
  defines "a \<equiv> verdict_of env (l2l4_type l) r"
  shows "l2l4_key l \<noteq> k \<Longrightarrow> after_verdict F2 (l2l4_key l) r a k = Some st"
    and "l2l4_key l = k \<Longrightarrow> \<exists>st'. flow_track env st (l, now) = Some (st', ur_no_sni r, a) \<and>
      after_verdict F2 (l2l4_key l) r a k = Some st'"
  using e st unfolding packet_effect_def
  by (auto simp: after_verdict_def flow_track_def a_def Let_def split: option.split)

lemma worker_packet_other:
  assumes con: "rte_hash_contract (we_hash env) ok keys slots" and safe: "scan_safe env"
    and inv: "worker_inv ok keys env w" and m: "mbuf_ok (fst p)" and room: "length (wk_fwd w) < BURST_SIZE"
    and st: "flow_of keys (wk_ft w) k = Some st"
    and fresh: "fst (snd p) - st_last_seen_tsc st \<le> ft_timeout_cycles (wk_ft w)"
    and other: "own k p = None" and w1: "worker_packet env w p = Some w1"
  shows "worker_inv ok keys env w1" "ft_timeout_cycles (wk_ft w1) = ft_timeout_cycles (wk_ft w)"
    "flow_of keys (wk_ft w1) k = Some st" "filter (of_flow k) (wk_fwd w1) = filter (of_flow k) (wk_fwd w)"
    "length (wk_fwd w1) \<le> Suc (length (wk_fwd w))"
proof -
  obtain pkt ts now where p: "p = (pkt, ts, now)" by (metis prod_cases3)
  have o: "\<not> of_flow k pkt" using other p by (simp add: own_None)
  have "worker_inv ok keys env w1 \<and> ft_timeout_cycles (wk_ft w1) = ft_timeout_cycles (wk_ft w) \<and>
      flow_of keys (wk_ft w1) k = Some st \<and> filter (of_flow k) (wk_fwd w1) = filter (of_flow k) (wk_fwd w) \<and>
      length (wk_fwd w1) \<le> Suc (length (wk_fwd w))"
  proof (cases "parser_parse_l2_l4 pkt = Some None")
    case True
    then have "w1 = account env w pkt TRAFFIC_NON_DPI False ACTION_DROP (wk_ft w)"
      using worker_packet_rejected [OF inv True] w1 p by simp
    then show ?thesis using inv st by (simp add: account_def worker_inv_def)
  next
    case False
    then obtain l where l: "parser_parse_l2_l4 pkt = Some (Some l)"
      using parse_defined [of pkt] by (metis option.exhaust)
    have ne: "l2l4_key l \<noteq> k" using other l p by (auto simp: own_parsed)
    have m': "mbuf_ok pkt" using m p by simp
    obtain ft' r F1 F2 where w: "worker_packet env w (pkt, ts, now) =
        Some (account env w pkt (l2l4_type l) (ur_no_sni r) (verdict_of env (l2l4_type l) r) ft')"
      "table_inv ok keys ft'" "ft_timeout_cycles ft' = ft_timeout_cycles (wk_ft w)"
      "if (ft_call_count (wk_ft w) + 1) mod 256 = 0
       then swept (ft_timeout_cycles (wk_ft w)) ts (flow_of keys (wk_ft w)) F1
       else F1 = flow_of keys (wk_ft w)"
      "packet_effect F1 l now F2 r"
      "flow_of keys ft' = after_verdict F2 (l2l4_key l) r (verdict_of env (l2l4_type l) r)"
      using worker_packet_parsed [OF con inv safe m' l room] by blast
    have "F1 k = Some st" using swept_keeps_alive [OF st _ w(4)] fresh p by simp
    then have "flow_of keys ft' k = Some st"
      unfolding w(6) using packet_tracks(1) [OF w(5) _ ne] by blast
    then show ?thesis using w(1-3) w1 p inv o by (auto simp: account_def worker_inv_def)
  qed
  then show "worker_inv ok keys env w1" "ft_timeout_cycles (wk_ft w1) = ft_timeout_cycles (wk_ft w)"
    "flow_of keys (wk_ft w1) k = Some st" "filter (of_flow k) (wk_fwd w1) = filter (of_flow k) (wk_fwd w)"
    "length (wk_fwd w1) \<le> Suc (length (wk_fwd w))"
    by blast+
qed

lemma worker_packet_own:
  assumes con: "rte_hash_contract (we_hash env) ok keys slots" and safe: "scan_safe env"
    and inv: "worker_inv ok keys env w" and m: "mbuf_ok pkt" and room: "length (wk_fwd w) < BURST_SIZE"
    and st: "flow_of keys (wk_ft w) k = Some st"
    and fresh: "ts - st_last_seen_tsc st \<le> ft_timeout_cycles (wk_ft w)"
    and l: "parser_parse_l2_l4 pkt = Some (Some l)" "l2l4_key l = k"
  obtains ft st' no_sni a where "flow_track env st (l, now) = Some (st', no_sni, a)"
    "worker_packet env w (pkt, ts, now) = Some (account env w pkt (l2l4_type l) no_sni a ft)"
    "table_inv ok keys ft" "ft_timeout_cycles ft = ft_timeout_cycles (wk_ft w)"
    "flow_of keys ft k = Some st'"
proof -
  obtain ft r F1 F2 where w: "worker_packet env w (pkt, ts, now) =
      Some (account env w pkt (l2l4_type l) (ur_no_sni r) (verdict_of env (l2l4_type l) r) ft)"
    "table_inv ok keys ft" "ft_timeout_cycles ft = ft_timeout_cycles (wk_ft w)"
    "if (ft_call_count (wk_ft w) + 1) mod 256 = 0
     then swept (ft_timeout_cycles (wk_ft w)) ts (flow_of keys (wk_ft w)) F1
     else F1 = flow_of keys (wk_ft w)"
    "packet_effect F1 l now F2 r"
    "flow_of keys ft = after_verdict F2 (l2l4_key l) r (verdict_of env (l2l4_type l) r)"
    using worker_packet_parsed [OF con inv safe m l(1) room] by blast
  have "F1 k = Some st" by (rule swept_keeps_alive [OF st fresh w(4)])
  then obtain st' where "flow_track env st (l, now) =
      Some (st', ur_no_sni r, verdict_of env (l2l4_type l) r)" "flow_of keys ft k = Some st'"
    using packet_tracks(2) [OF w(5), of k st env] l(2) unfolding w(6) by blast
  then show ?thesis using w(1-3) by (intro that)
qed

lemma flow_track_seen:
  assumes "flow_track env st (l, now) = Some (st', no_sni, a)" "flow_inv st" "seg_ok l"
  shows "st_last_seen_tsc st' = now"
  using assms flow_state_update_spec [of st l now]
  by (auto simp: flow_track_def set_verdict_def Let_def split: Option.bind_splits)

lemma table_flow_inv:
  "worker_inv ok keys env w \<Longrightarrow> flow_of keys (wk_ft w) k = Some st \<Longrightarrow> flow_inv st"
  by (simp add: worker_inv_def table_inv_def flow_ok_def)

text \<open>The run lemma: after any run the entry of the flow is the machine's state.\<close>

lemma run_tracks:
  assumes "worker_run env w ps w'" "rte_hash_contract (we_hash env) ok keys slots" "scan_safe env"
    and "worker_inv ok keys env w" "\<forall>p \<in> set ps. mbuf_ok (fst p)"
    and "flow_of keys (wk_ft w) k = Some st"
    and "alive k (ft_timeout_cycles (wk_ft w)) (st_last_seen_tsc st) ps"
  shows "worker_inv ok keys env w' \<and> ft_timeout_cycles (wk_ft w') = ft_timeout_cycles (wk_ft w) \<and>
    (\<exists>st'. flow_tracks env st (owns k ps) = Some st' \<and> flow_of keys (wk_ft w') k = Some st')"
  using assms(1,4-7)
proof (induction arbitrary: st rule: worker_run.induct)
  case (run_done w)
  then show ?case by (simp add: map_filter_simps)
next
  case (run_packet w p w1 ps w')
  have fresh: "fst (snd p) - st_last_seen_tsc st \<le> ft_timeout_cycles (wk_ft w)"
    and m: "mbuf_ok (fst p)" "\<forall>q \<in> set ps. mbuf_ok (fst q)"
    using run_packet.prems by simp_all
  show ?case
  proof (cases "own k p")
    case None
    note w1 = worker_packet_other [OF assms(2,3) run_packet.prems(1) m(1) run_packet.hyps(1)
        run_packet.prems(3) fresh None run_packet.hyps(2)]
    show ?thesis
      using run_packet.IH [OF w1(1) m(2) w1(3)] run_packet.prems(4) w1(2) None
      by (simp add: map_filter_simps)
  next
    case (Some q)
    obtain l now where q: "own k p = Some (l, now)" using Some by (cases q) simp
    obtain pkt ts where p: "p = (pkt, ts, now)" using ownD(3) [OF q] by (metis prod.collapse)
    have l: "parser_parse_l2_l4 pkt = Some (Some l)" "l2l4_key l = k" "mbuf_ok pkt"
      "ts - st_last_seen_tsc st \<le> ft_timeout_cycles (wk_ft w)"
      using ownD(1,2) [OF q] p m(1) fresh by simp_all
    obtain ft st1 no_sni a where o: "flow_track env st (l, now) = Some (st1, no_sni, a)"
      "worker_packet env w (pkt, ts, now) = Some (account env w pkt (l2l4_type l) no_sni a ft)"
      "table_inv ok keys ft" "ft_timeout_cycles ft = ft_timeout_cycles (wk_ft w)"
      "flow_of keys ft k = Some st1"
      by (rule worker_packet_own [OF assms(2,3) run_packet.prems(1) l(3) run_packet.hyps(1)
            run_packet.prems(3) l(4) l(1,2)])
    have seen: "st_last_seen_tsc st1 = now"
      using flow_track_seen [OF o(1) table_flow_inv [OF run_packet.prems(1,3)]]
        parsed_ok(1) [OF l(1,3)] by (simp add: l2l4_ok_def)
    have w1: "worker_inv ok keys env w1" "wk_ft w1 = ft"
      using o(2,3) run_packet.hyps(2) run_packet.prems(1) p by (auto simp: account_def worker_inv_def)
    show ?thesis
      using run_packet.IH [OF w1(1) m(2), of st1] run_packet.prems(4) w1(2) o(1,4,5) seen q
      by (simp add: map_filter_simps)
  qed
next
  case (run_flush t w freed ps w')
  let ?w = "w\<lparr>wk_fwd := [], wk_stats := t, wk_freed := freed\<rparr>"
  have "worker_inv ok keys env ?w"
    using run_flush.prems(1) run_flush.hyps(1) by (simp add: worker_inv_def)
  then show ?case using run_flush.IH [of st] run_flush.prems by simp
qed

lemma alive_append:
  "alive k timeout seen (ps @ qs) \<longleftrightarrow> alive k timeout seen ps \<and>
   alive k timeout (fold (\<lambda>p seen. case own k p of Some q \<Rightarrow> snd q | None \<Rightarrow> seen) ps seen) qs"
  by (induction ps arbitrary: seen) auto

text \<open>
  The flow's time stamp in the machine is the clock of its last packet.
\<close>

lemma flow_tracks_seen:
  assumes "flow_tracks env st (owns k ps) = Some st'" "flow_inv st"
    and "\<forall>p \<in> set ps. mbuf_ok (fst p)"
  shows "flow_inv st' \<and> st_last_seen_tsc st' =
    fold (\<lambda>p seen. case own k p of Some q \<Rightarrow> snd q | None \<Rightarrow> seen) ps (st_last_seen_tsc st)"
  using assms
proof (induction ps arbitrary: st)
  case (Cons p ps)
  show ?case
  proof (cases "own k p")
    case None
    then show ?thesis using Cons by (simp add: map_filter_simps)
  next
    case (Some q)
    obtain l now where q: "own k p = Some (l, now)" using Some by (cases q) simp
    have "l2l4_ok l" using parsed_ok(1) [OF ownD(1) [OF q]] Cons.prems(3) by simp
    then have ok: "seg_ok l" by (simp add: l2l4_ok_def)
    obtain st1 no_sni a where t: "flow_track env st (l, now) = Some (st1, no_sni, a)"
      "flow_tracks env st1 (owns k ps) = Some st'"
      using Cons.prems(1) q by (auto simp: map_filter_simps split: Option.bind_splits)
    have "flow_inv st1"
      using t(1) flow_state_update_spec [OF Cons.prems(2) ok, of now] flow_inv_set_verdict
      by (auto simp: flow_track_def Let_def split: Option.bind_splits if_splits)
    then show ?thesis
      using Cons.IH [OF t(2)] Cons.prems(3) flow_track_seen [OF t(1) Cons.prems(2) ok] q by simp
  qed
qed (simp add: map_filter_simps)

text \<open>The packet after a run: it is treated as the machine says.\<close>

lemma run_then_own:
  assumes "worker_run env w ps w'" "rte_hash_contract (we_hash env) ok keys slots" "scan_safe env"
    and "worker_inv ok keys env w" "\<forall>p \<in> set ps. mbuf_ok (fst p)"
    and "flow_of keys (wk_ft w) k = Some st"
    and "alive k (ft_timeout_cycles (wk_ft w)) (st_last_seen_tsc st) (ps @ [(pkt, ts, now)])"
    and "mbuf_ok pkt" "parser_parse_l2_l4 pkt = Some (Some l)" "l2l4_key l = k"
    and "length (wk_fwd w') < BURST_SIZE"
  obtains st1 st2 no_sni a ft where "flow_tracks env st (owns k ps) = Some st1"
    "flow_track env st1 (l, now) = Some (st2, no_sni, a)"
    "worker_packet env w' (pkt, ts, now) = Some (account env w' pkt (l2l4_type l) no_sni a ft)"
    "flow_of keys ft k = Some st2"
proof -
  have al: "alive k (ft_timeout_cycles (wk_ft w)) (st_last_seen_tsc st) ps"
    using assms(7) by (simp add: alive_append)
  obtain st1 where r: "worker_inv ok keys env w'" "ft_timeout_cycles (wk_ft w') = ft_timeout_cycles (wk_ft w)"
    "flow_tracks env st (owns k ps) = Some st1" "flow_of keys (wk_ft w') k = Some st1"
    using run_tracks [OF assms(1-6) al] by blast
  have "ts - st_last_seen_tsc st1 \<le> ft_timeout_cycles (wk_ft w')"
    using flow_tracks_seen [OF r(3) table_flow_inv [OF assms(4,6)] assms(5)] assms(7) r(2)
    by (simp add: alive_append)
  then obtain ft st2 no_sni a where "flow_track env st1 (l, now) = Some (st2, no_sni, a)"
    "worker_packet env w' (pkt, ts, now) = Some (account env w' pkt (l2l4_type l) no_sni a ft)"
    "flow_of keys ft k = Some st2"
    by (rule worker_packet_own [OF assms(2,3) r(1) assms(8,11) r(4) _ assms(9,10)])
  then show ?thesis using r(3) by (intro that)
qed

section \<open>From the first packet on\<close>

text \<open>The first packet of a flow, when the table has room for it, starts the machine.\<close>

lemma worker_packet_first:
  assumes con: "rte_hash_contract (we_hash env) ok keys slots" and safe: "scan_safe env"
    and inv: "worker_inv ok keys env w" and m: "mbuf_ok pkt" and room: "length (wk_fwd w) < BURST_SIZE"
    and none: "flow_of keys (wk_ft w) k = None" and l: "parser_parse_l2_l4 pkt = Some (Some l)" "l2l4_key l = k"
    and w1: "worker_packet env w (pkt, ts, now) = Some w1" "flow_of keys (wk_ft w1) k \<noteq> None"
  obtains st no_sni a ft where "flow_track env (new_flow (l2l4_type l)) (l, now) = Some (st, no_sni, a)"
    "w1 = account env w pkt (l2l4_type l) no_sni a ft" "flow_of keys (wk_ft w1) k = Some st"
    "worker_inv ok keys env w1" "ft_timeout_cycles (wk_ft w1) = ft_timeout_cycles (wk_ft w)"
proof -
  obtain ft r F1 F2 where w: "worker_packet env w (pkt, ts, now) =
      Some (account env w pkt (l2l4_type l) (ur_no_sni r) (verdict_of env (l2l4_type l) r) ft)"
    "table_inv ok keys ft" "ft_timeout_cycles ft = ft_timeout_cycles (wk_ft w)"
    "if (ft_call_count (wk_ft w) + 1) mod 256 = 0
     then swept (ft_timeout_cycles (wk_ft w)) ts (flow_of keys (wk_ft w)) F1
     else F1 = flow_of keys (wk_ft w)"
    "packet_effect F1 l now F2 r"
    "flow_of keys ft = after_verdict F2 (l2l4_key l) r (verdict_of env (l2l4_type l) r)"
    using worker_packet_parsed [OF con inv safe m l(1) room] by blast
  let ?a = "verdict_of env (l2l4_type l) r"
  have acc: "w1 = account env w pkt (l2l4_type l) (ur_no_sni r) ?a ft" using w(1) w1(1) by simp
  then have ft: "wk_ft w1 = ft" by (simp add: account_def)
  have "F1 \<subseteq>\<^sub>m flow_of keys (wk_ft w)" using w(4) by (auto simp: swept_def split: if_splits)
  then have F1: "F1 k = None" using none by (metis domI domIff map_le_def)
  have "F2 \<noteq> F1"
    using w1(2) F1 l(2) unfolding ft w(6) by (auto simp: after_verdict_def split: if_splits)
  then obtain st1 where "flow_state_update (new_flow (l2l4_type l)) l now = Some (st1, r)"
    "F2 = F1(k \<mapsto> st1)"
    using w(5) F1 l(2) by (auto simp: packet_effect_def)
  then obtain st where st: "flow_track env (new_flow (l2l4_type l)) (l, now) = Some (st, ur_no_sni r, ?a)"
    "flow_of keys ft k = Some st"
    unfolding w(6) using l(2) by (simp add: flow_track_def after_verdict_def Let_def)
  have "worker_inv ok keys env w1" using w(2) inv acc by (simp add: account_def worker_inv_def)
  then show ?thesis using that [OF st(1) acc] st(2) w(3) ft by simp
qed

text \<open>
  The inputs \<open>ps\<close> of a worker from the first packet of the flow on, which found room in the table.
\<close>

definition flow_begins ::
  "('h, 'd, 's) worker_env \<Rightarrow> ('h \<Rightarrow> flow_key \<rightharpoonup> nat) \<Rightarrow> flow_key \<Rightarrow> 'h worker_state \<Rightarrow>
   (rte_mbuf \<times> u64 \<times> u64) list \<Rightarrow> 'h worker_state \<Rightarrow> bool" where
  "flow_begins env keys k w ps w' \<longleftrightarrow>
     (case ps of [] \<Rightarrow> w' = w
      | p # qs \<Rightarrow> own k p \<noteq> None \<and> length (wk_fwd w) < BURST_SIZE \<and>
          (\<exists>w1. worker_packet env w p = Some w1 \<and> flow_of keys (wk_ft w1) k \<noteq> None \<and>
             worker_run env w1 qs w'))"

lemma own_type:
  assumes "own k p = Some (l, now)" "mbuf_ok (fst p)"
  shows "classify_port (dst_port k) = Some (l2l4_type l)" "l2l4_type l \<in> {TRAFFIC_HTTP, TRAFFIC_HTTPS}"
  using parsed_ok [OF ownD(1) [OF assms(1)] assms(2)] ownD(2) [OF assms(1)]
  by (auto simp: l2l4_ok_def)

lemma owns_type:
  assumes "(l, now) \<in> set (owns k ps)" "\<forall>p \<in> set ps. mbuf_ok (fst p)"
  shows "classify_port (dst_port k) = Some (l2l4_type l)"
  using assms own_type(1) [of k] by (auto simp: List.map_filter_def)

lemma owns_append: "owns k (ps @ qs) = owns k ps @ owns k qs"
  by (simp add: List.map_filter_def)

lemma fresh_flow_tracks:
  assumes con: "rte_hash_contract (we_hash env) ok keys slots" and safe: "scan_safe env"
    and inv: "worker_inv ok keys env w" and none: "flow_of keys (wk_ft w) k = None"
    and begins: "flow_begins env keys k w ps w'" and m: "\<forall>q \<in> set (ps @ [p]). mbuf_ok (fst q)"
    and alive: "alive k (ft_timeout_cycles (wk_ft w)) (snd (snd (hd (ps @ [p])))) (tl (ps @ [p]))"
    and own: "own k p = Some (l, now)"
    and last: "length (wk_fwd w') < BURST_SIZE" "worker_packet env w' p = Some w''"
      "flow_of keys (wk_ft w'') k \<noteq> None"
  obtains st st' no_sni a ft where "flow_tracks env (new_flow (l2l4_type l)) (owns k ps) = Some st"
    "flow_track env st (l, now) = Some (st', no_sni, a)"
    "w'' = account env w' (fst p) (l2l4_type l) no_sni a ft" "flow_of keys (wk_ft w'') k = Some st'"
proof -
  obtain pkt ts where p: "p = (pkt, ts, now)" using ownD(3) [OF own] by (metis prod.collapse)
  have lp: "parser_parse_l2_l4 pkt = Some (Some l)" "l2l4_key l = k" "mbuf_ok pkt"
    using ownD(1,2) [OF own] m p by simp_all
  show ?thesis
  proof (cases ps)
    case Nil
    then have w': "w' = w" using begins by (simp add: flow_begins_def)
    obtain st' no_sni a ft where "flow_track env (new_flow (l2l4_type l)) (l, now) = Some (st', no_sni, a)"
      "w'' = account env w' pkt (l2l4_type l) no_sni a ft" "flow_of keys (wk_ft w'') k = Some st'"
      using worker_packet_first [OF con safe inv lp(3) _ none lp(1,2), of ts now w''] last p w' by metis
    then show ?thesis using that Nil p by (simp add: map_filter_simps)
  next
    case (Cons p0 qs)
    obtain l0 now0 w1 where b: "own k p0 = Some (l0, now0)" "length (wk_fwd w) < BURST_SIZE"
      "worker_packet env w p0 = Some w1" "flow_of keys (wk_ft w1) k \<noteq> None" "worker_run env w1 qs w'"
      using begins Cons by (auto simp: flow_begins_def)
    obtain pkt0 ts0 where p0: "p0 = (pkt0, ts0, now0)" using ownD(3) [OF b(1)] by (metis prod.collapse)
    have l0: "parser_parse_l2_l4 pkt0 = Some (Some l0)" "l2l4_key l0 = k" "mbuf_ok pkt0" "seg_ok l0"
      using ownD(1,2) [OF b(1)] m p0 Cons parsed_ok(1) [of pkt0 l0] by (simp_all add: l2l4_ok_def)
    have ty: "l2l4_type l0 = l2l4_type l" using own_type(1) [OF b(1)] own_type(1) [OF own] m Cons by simp
    obtain st0 ns0 b0 ft0 where f: "flow_track env (new_flow (l2l4_type l0)) (l0, now0) = Some (st0, ns0, b0)"
      "w1 = account env w pkt0 (l2l4_type l0) ns0 b0 ft0" "flow_of keys (wk_ft w1) k = Some st0"
      "worker_inv ok keys env w1" "ft_timeout_cycles (wk_ft w1) = ft_timeout_cycles (wk_ft w)"
      using worker_packet_first [OF con safe inv l0(3) b(2) none l0(1,2)] b(3,4) p0 by metis
    have "st_last_seen_tsc st0 = now0" using flow_track_seen [OF f(1)] l0(4) by simp
    then have al: "alive k (ft_timeout_cycles (wk_ft w1)) (st_last_seen_tsc st0) (qs @ [(pkt, ts, now)])"
      using alive Cons p p0 f(5) by simp
    have mq: "\<forall>q \<in> set qs. mbuf_ok (fst q)" using m Cons by simp
    obtain st st' no_sni a ft where r: "flow_tracks env st0 (owns k qs) = Some st"
      "flow_track env st (l, now) = Some (st', no_sni, a)"
      "worker_packet env w' (pkt, ts, now) = Some (account env w' pkt (l2l4_type l) no_sni a ft)"
      "flow_of keys ft k = Some st'"
      by (rule run_then_own [OF b(5) con safe f(4) mq f(3) al lp(3,1,2) last(1)])
    have "flow_tracks env (new_flow (l2l4_type l)) (owns k ps) = Some st"
      using r(1) f(1) ty Cons b(1) by (simp add: map_filter_simps)
    moreover have "w'' = account env w' (fst p) (l2l4_type l) no_sni a ft" "flow_of keys (wk_ft w'') k = Some st'"
      using r(3,4) last(2) p by (auto simp: account_def)
    ultimately show ?thesis using that r(2) by blast
  qed
qed

end
