(* ===== verification/Request_Verdicts.thy ===== *)
theory Request_Verdicts
  imports Isolation
begin

text \<open>
  The verdict on a request. Over the machine of one flow, a request or a ClientHello gets exactly the
  verdict the rules give it, from the packet that completes it on, whatever the order in which its
  segments arrive; concrete sessions show it at work.
\<close>

section \<open>When a request settles\<close>

text \<open>
  A byte string \<open>req\<close> settles a flow with the string \<open>str\<close>: no proper prefix of it is answered, and
  every continuation that fits the buffer is answered with \<open>str\<close>.
\<close>

definition settles :: "traffic_type \<Rightarrow> byte list \<Rightarrow> byte list \<Rightarrow> bool" where
  "settles ty req str \<longleftrightarrow> req \<noteq> [] \<and> length req \<le> FLOW_BUF_CAP - 1 \<and>
     (\<forall>q x. q @ x = req \<and> x \<noteq> [] \<longrightarrow> scan_request ty q = (REASSEMBLY_PENDING, None)) \<and>
     (\<forall>rest. length (req @ rest) \<le> FLOW_BUF_CAP - 1 \<longrightarrow>
        scan_request ty (req @ rest) = (REASSEMBLY_READY, Some str))"

lemma waiting_prefix: "q @ x = req \<Longrightarrow> x \<noteq> [] \<Longrightarrow> length req \<le> 4095 \<Longrightarrow>
    give_up_or_wait q = REASSEMBLY_PENDING"
  by (cases x) (auto simp: give_up_or_wait_def)

lemma http_settles:
  assumes "request_ok m uri version hdrs name host"
    and req: "req = request_head m uri version hdrs @ host_line name n host"
    and len: "length req \<le> FLOW_BUF_CAP - 1"
  shows "settles TRAFFIC_HTTP req (take (FLOW_SCAN_BUF_CAP - 1) (ascii ''http://'' @ host @ uri))"
proof -
  have "scan_request TRAFFIC_HTTP q = (REASSEMBLY_PENDING, None)" if "q @ x = req" "x \<noteq> []" for q x
    using http_url_incomplete [OF assms(1), of q x n] waiting_prefix [OF that] that req len
    by (simp add: scan_request_def)
  moreover have "scan_request TRAFFIC_HTTP (req @ rest) =
      (REASSEMBLY_READY, Some (take 511 (ascii ''http://'' @ host @ uri)))" for rest
    using http_url_of_prefix [OF assms(1), of "req @ rest" n rest] req by (simp add: scan_request_def)
  moreover have "req \<noteq> []" unfolding req by (simp add: host_line_def crlf_def)
  ultimately show ?thesis using len by (auto simp: settles_def)
qed

lemma tls_settles:
  assumes "hello_head_ok r h vr sid ciphers compr"
    and "\<forall>x \<in> set before. ext_ok x \<and> fst x \<noteq> 0"
    and "exts = enc_exts before @ enc_ext (0, enc_sni ll host others) @ after"
    and hello: "hello = hello_head r h vr sid ciphers compr @ enc16 (length exts) @ exts"
    and len: "length hello \<le> FLOW_BUF_CAP - 1"
  shows "settles TRAFFIC_HTTPS hello
    (take (FLOW_SCAN_BUF_CAP - 1) (ascii ''HOST://'' @ takeWhile (\<lambda>b. b \<noteq> 0) host))"
proof -
  have l: "length exts < 65536" using len unfolding hello by simp
  have "scan_request TRAFFIC_HTTPS q = (REASSEMBLY_PENDING, None)" if "q @ x = hello" "x \<noteq> []" for q x
    using tls_verdict_incomplete [OF assms(1) l, of q x] waiting_prefix [OF that] that hello len
    by (simp add: scan_request_def)
  moreover have "scan_request TRAFFIC_HTTPS (hello @ rest) = (REASSEMBLY_READY,
      Some (take 511 (ascii ''HOST://'' @ takeWhile (\<lambda>b. b \<noteq> 0) host)))"
    if "length (hello @ rest) \<le> 4095" for rest
    using tls_verdict_sni [OF that assms(1-3), of rest] hello by (simp add: scan_request_def)
  moreover have "hello \<noteq> []" unfolding hello by (simp add: enc16_def)
  ultimately show ?thesis using len by (auto simp: settles_def)
qed

text \<open>
  A packet of the sender's stream \<open>T\<close>: if it has a payload, this is a segment of the stream inside the
  window. A packet without payload, such as a SYN, may have any sequence number.
\<close>

definition part_of :: "(u32 \<Rightarrow> byte) \<Rightarrow> u32 \<Rightarrow> l2l4_result \<Rightarrow> bool" where
  "part_of T base l \<longleftrightarrow> seg_ok l \<and> (l2l4_payload l \<noteq> [] \<longrightarrow> seg_of T base l)"

lemma seg_part: "seg_of T base l \<Longrightarrow> part_of T base l"
  by (simp add: part_of_def seg_of_ok)

lemma flow_state_update_part:
  assumes "flow_inv st" "in_window base st" "\<not> st_verdict_cached st" "part_of T base l"
  shows "\<exists>st' r. flow_state_update st l now = Some (st', r) \<and> flow_inv st' \<and> in_window base st' \<and>
    \<not> st_verdict_cached st' \<and> answer r = scan_request (l2l4_type l) (contig_prefix st') \<and>
    (\<forall>s. stream st' s = (case stream st s of Some b \<Rightarrow> Some b
       | None \<Rightarrow> if covers l s then Some (T s) else None))"
proof (cases "l2l4_payload l = []")
  case True
  let ?l = "l\<lparr>l2l4_seq := base\<rparr>"
  have z: "l2l4_payload_len l = 0" using assms(4) True by (simp add: part_of_def seg_ok_def)
  have "seg_of T base ?l" using True z by (simp add: seg_of_def)
  moreover have "flow_state_update st ?l now = flow_state_update st l now"
    using z by (simp add: flow_state_update_def place_segment_def Let_def)
  moreover have "\<not> covers ?l s" "\<not> covers l s" for s using True by (simp_all add: covers_def)
  ultimately show ?thesis
    using flow_state_update_window [OF assms(1-3), of T ?l now] by (simp cong: option.case_cong)
next
  case False
  then show ?thesis
    using flow_state_update_window [OF assms(1-3), of T l now] assms(4) by (simp add: part_of_def)
qed

text \<open>
  What starts with the segment \<open>l\<close> does not read like a request: no run of the stream from its first
  byte on, as far as the window reaches, is answered.
\<close>

definition silent :: "traffic_type \<Rightarrow> (u32 \<Rightarrow> byte) \<Rightarrow> u32 \<Rightarrow> l2l4_result \<Rightarrow> bool" where
  "silent ty T base l \<longleftrightarrow> (\<forall>j. unat (l2l4_seq l - base) + j \<le> FLOW_BUF_CAP - 1 \<longrightarrow>
     scan_request ty (map (\<lambda>i. T (l2l4_seq l + of_nat i)) [0..<j]) = (REASSEMBLY_PENDING, None))"

text \<open>
  The first byte of the request is there, or none of the segments reads like a request of its own.
\<close>

definition no_decoy ::
  "traffic_type \<Rightarrow> (u32 \<Rightarrow> byte) \<Rightarrow> u32 \<Rightarrow> l2l4_result list \<Rightarrow> bool" where
  "no_decoy ty T base ls \<longleftrightarrow> (\<exists>l \<in> set ls. covers l base) \<or>
     (\<forall>l \<in> set ls. l2l4_payload l \<noteq> [] \<longrightarrow> silent ty T base l)"

lemma no_decoy_covered: "l \<in> set ls \<Longrightarrow> covers l base \<Longrightarrow> no_decoy ty T base ls"
  by (auto simp: no_decoy_def)

text \<open>
  A flow on its way to the verdict \<open>a\<close>: either it has it, or it is open, holds exactly the bytes of
  the segments \<open>ls\<close> and misses a part of the request, or, before the first byte of the request is
  there, may hold bytes of a later part.
\<close>

definition on_track ::
  "(u32 \<Rightarrow> byte) \<Rightarrow> u32 \<Rightarrow> byte list \<Rightarrow> packet_action \<Rightarrow> l2l4_result list \<Rightarrow> flow_state \<Rightarrow> bool" where
  "on_track T base req a ls st \<longleftrightarrow>
     st_verdict_cached st \<and> st_cached_action st = a \<or>
     flow_inv st \<and> in_window base st \<and> \<not> st_verdict_cached st \<and>
       ((\<exists>l \<in> set ls. covers l base) \<longrightarrow> st_contig_len st < length req) \<and>
       (\<forall>s. stream st s = (if \<exists>l \<in> set ls. covers l s then Some (T s) else None))"

lemma on_track_new: "req \<noteq> [] \<Longrightarrow> on_track T base req a [] (new_flow ty)"
  by (simp add: on_track_def)

text \<open>
  The contiguous prefix of a flow whose bytes are those of the stream: it starts at the anchor, and
  the anchor is where one of the segments starts.
\<close>

lemma contig_prefix_run:
  assumes "flow_inv st" and "\<And>s b. stream st s = Some b \<Longrightarrow> b = T s"
  shows "contig_prefix st = map (\<lambda>i. T (st_first_seq st + of_nat i)) [0..<st_contig_len st]"
proof (intro nth_equalityI)
  show "length (contig_prefix st) =
      length (map (\<lambda>i. T (st_first_seq st + of_nat i)) [0..<st_contig_len st])"
    using length_contig_prefix [OF assms(1)] by simp
  fix i
  assume "i < length (contig_prefix st)"
  then have i: "i < st_contig_len st" using length_contig_prefix [OF assms(1)] by simp
  then show "contig_prefix st ! i =
      map (\<lambda>i. T (st_first_seq st + of_nat i)) [0..<st_contig_len st] ! i"
    using contig_prefix_nth [OF assms(1) i] assms(2) by simp
qed

lemma covers_start:
  assumes "covers l s" "\<not> covers l (s - 1)"
  shows "l2l4_seq l = s"
proof (rule ccontr)
  assume "l2l4_seq l \<noteq> s"
  then have "unat (s - l2l4_seq l) \<noteq> 0" by (auto simp: unat_eq_zero)
  moreover have "s - 1 - l2l4_seq l = s - l2l4_seq l - 1" by simp
  ultimately have "unat (s - 1 - l2l4_seq l) < unat (s - l2l4_seq l)"
    by (metis diff_less unat_minus_one less_numeral_extra(1) neq0_conv unat_eq_zero)
  then show False using assms by (simp add: covers_def)
qed

lemma anchor_is_start:
  assumes inv: "flow_inv st" and n: "0 < st_contig_len st"
    and str: "\<And>s. stream st s = (if \<exists>l \<in> set ls. covers l s then Some (T s) else None)"
  obtains l where "l \<in> set ls" "l2l4_seq l = st_first_seq st" "l2l4_payload l \<noteq> []"
proof -
  let ?f = "st_first_seq st"
  have "stream st ?f \<noteq> None" using contig_prefix_nth [OF inv n] by simp
  then obtain l where l: "l \<in> set ls" "covers l ?f" using str [of ?f] by (auto split: if_splits)
  have "?f - 1 - ?f = (- 1 :: u32)" by simp
  then have "unat (?f - 1 - ?f) = 2 ^ 32 - 1" by (simp only: unsigned_minus_1_eq_mask) (simp add: mask_eq_exp_minus_1)
  then have "stream st (?f - 1) = None" by (simp add: stream_def Let_def)
  then have "\<not> covers l (?f - 1)" using str [of "?f - 1"] l(1) by (auto split: if_splits)
  moreover have "l2l4_payload l \<noteq> []" using l(2) by (auto simp: covers_def)
  ultimately show ?thesis using that [OF l(1) covers_start [OF l(2)]] by blast
qed

text \<open>Before the first byte of the request is there, a flow without a decoy is not answered.\<close>

lemma no_decoy_pending:
  assumes set: "settles ty req str" and st: "flow_inv st" "in_window base st"
    and str: "\<And>s. stream st s = (if \<exists>l \<in> set ls. covers l s then Some (T s) else None)"
    and ls: "no_decoy ty T base ls" "\<not> (\<exists>l \<in> set ls. covers l base)"
  shows "scan_request ty (contig_prefix st) = (REASSEMBLY_PENDING, None)"
proof (cases "st_contig_len st = 0")
  case True
  then have "contig_prefix st = []" using length_contig_prefix [OF st(1)] by simp
  moreover have "scan_request ty [] = (REASSEMBLY_PENDING, None)"
    using set unfolding settles_def by (metis append_Nil)
  ultimately show ?thesis by simp
next
  case False
  let ?n = "st_contig_len st"
  have n: "0 < ?n" using False by simp
  obtain l where l: "l \<in> set ls" "l2l4_seq l = st_first_seq st" "l2l4_payload l \<noteq> []"
    by (rule anchor_is_start [OF st(1) n str])
  have "?n \<le> st_hwm st" "st_first_seq_set st" using st(1) n by (auto simp: flow_inv_def)
  then have w: "unat (l2l4_seq l - base) + ?n \<le> 4096 - 1" using st(2) l(2) by (simp add: in_window_def)
  have "silent ty T base l" using ls l(1,3) by (auto simp: no_decoy_def)
  then have "scan_request ty (map (\<lambda>i. T (l2l4_seq l + of_nat i)) [0..<?n]) = (REASSEMBLY_PENDING, None)"
    using w unfolding silent_def by blast
  moreover have "contig_prefix st = map (\<lambda>i. T (l2l4_seq l + of_nat i)) [0..<?n]"
    unfolding l(2) by (rule contig_prefix_run [OF st(1)]) (use str in \<open>auto split: if_splits\<close>)
  ultimately show ?thesis by simp
qed

text \<open>With the first byte there, the prefix is compared with the request.\<close>

lemma prefix_answer:
  assumes set: "settles ty req str"
    and T: "map (\<lambda>i. T (base + of_nat i)) [0..<length req] = req"
    and st: "flow_inv st" "in_window base st" "stream st base \<noteq> None"
    and str: "\<And>s b. stream st s = Some b \<Longrightarrow> b = T s"
  shows "scan_request ty (contig_prefix st) =
    (if st_contig_len st < length req then (REASSEMBLY_PENDING, None) else (REASSEMBLY_READY, Some str))"
proof -
  let ?n = "st_contig_len st" and ?T = "\<lambda>i. T (base + of_nat i)"
  have p: "contig_prefix st = map ?T [0..<?n]"
    using contig_prefix_run [OF st(1) str] anchor_is_base [OF st] by simp
  show ?thesis
  proof (cases "?n < length req")
    case True
    then have "[0..<length req] = [0..<?n] @ [?n..<length req]"
      by (metis le_add_diff_inverse less_imp_le_nat upt_add_eq_append zero_le)
    then have "map ?T [0..<?n] @ map ?T [?n..<length req] = req" using T by (metis map_append)
    then show ?thesis using set True unfolding settles_def p [symmetric] by force
  next
    case False
    then have "[0..<?n] = [0..<length req] @ [length req..<?n]"
      by (metis le_add_diff_inverse not_less upt_add_eq_append zero_le)
    then have c: "contig_prefix st = req @ map ?T [length req..<?n]"
      using p T by (metis map_append)
    have "length (contig_prefix st) \<le> 4095"
      using st(1) by (simp add: length_contig_prefix flow_inv_def)
    then show ?thesis using set False unfolding settles_def c by simp
  qed
qed

lemma track_step:
  fixes env :: "('h, 'd, 's) worker_env"
  assumes set: "settles ty req str" "scan_verdict env ty str = a"
    and T: "map (\<lambda>i. T (base + of_nat i)) [0..<length req] = req"
    and st: "on_track T base req a ls st" and l: "part_of T base l" "l2l4_type l = ty"
    and base: "no_decoy ty T base (l # ls)"
  shows "\<exists>st' no_sni b. flow_track env st (l, now) = Some (st', no_sni, b) \<and>
    on_track T base req a (l # ls) st' \<and> (st_verdict_cached st' \<longrightarrow> b = a)"
proof (cases "st_verdict_cached st")
  case True
  then have "st_cached_action st = a" using st by (simp add: on_track_def)
  then show ?thesis
    using True by (simp add: flow_track_def flow_state_update_cached decides_def on_track_def
        verdict_of_def answer_def)
next
  case False
  then have o: "flow_inv st" "in_window base st"
    "\<And>s. stream st s = (if \<exists>l \<in> set ls. covers l s then Some (T s) else None)"
    using st by (simp_all add: on_track_def)
  obtain st' r where u: "flow_state_update st l now = Some (st', r)" "flow_inv st'" "in_window base st'"
    "\<not> st_verdict_cached st'" "answer r = scan_request ty (contig_prefix st')"
    "\<forall>s. stream st' s = (case stream st s of Some b \<Rightarrow> Some b
       | None \<Rightarrow> if covers l s then Some (T s) else None)"
    using flow_state_update_part [OF o(1,2) False l(1), of now] l(2) by auto
  have str: "stream st' s = (if \<exists>l' \<in> set (l # ls). covers l' s then Some (T s) else None)" for s
    using u(6) o(3) [of s] by (auto split: option.split)
  let ?c = "\<exists>l' \<in> set (l # ls). covers l' base"
  have "answer r = (if ?c \<and> length req \<le> st_contig_len st' then (REASSEMBLY_READY, Some str)
      else (REASSEMBLY_PENDING, None))"
  proof (cases ?c)
    case True
    then have "stream st' base \<noteq> None" using str [of base] by simp
    then show ?thesis
      unfolding u(5) using True str by (subst prefix_answer [OF set(1) T u(2,3)]) (auto split: if_splits)
  qed (use no_decoy_pending [OF set(1) u(2,3) str base] u(5) in auto)
  then consider "answer r = (REASSEMBLY_READY, Some str)"
    | "answer r = (REASSEMBLY_PENDING, None)" "?c \<longrightarrow> st_contig_len st' < length req"
    by (auto split: if_splits)
  then show ?thesis
  proof cases
    case 1
    then show ?thesis
      using u(1) set(2) l(2)
      by (simp add: flow_track_def decides_def verdict_of_def on_track_def Let_def)
        (simp add: answer_def set_verdict_def)
  next
    case 2
    then show ?thesis
      using u(1-4) str l(2)
      by (simp add: flow_track_def decides_def answer_def on_track_def Let_def)
  qed
qed

text \<open>With all of the request there, the flow has its verdict.\<close>

lemma on_track_complete:
  assumes "on_track T base req a ls st" "req \<noteq> []" "length req \<le> FLOW_BUF_CAP - 1"
    and "\<forall>i < length req. \<exists>l \<in> set ls. covers l (base + of_nat i)"
  shows "st_verdict_cached st \<and> st_cached_action st = a"
proof (rule ccontr)
  assume n: "\<not> ?thesis"
  have "\<exists>l \<in> set ls. covers l base" using assms(2,4) by force
  then have o: "flow_inv st" "in_window base st" "\<not> st_verdict_cached st" "st_contig_len st < length req"
    "\<And>s. stream st s = (if \<exists>l \<in> set ls. covers l s then Some (T s) else None)"
    using assms(1) n by (auto simp: on_track_def)
  then show False
    using window_prefix [OF o(1-3,5) _ assms(3,4)] assms(2) by auto
qed

text \<open>The segments before the one with the first byte.\<close>

abbreviation early :: "u32 \<Rightarrow> (l2l4_result \<times> u64) list \<Rightarrow> (l2l4_result \<times> u64) list" where
  "early base \<equiv> takeWhile (\<lambda>q. \<not> covers (fst q) base)"

lemma tracks_all:
  fixes env :: "('h, 'd, 's) worker_env"
  assumes set: "settles ty req str" "scan_verdict env ty str = a"
    and T: "map (\<lambda>i. T (base + of_nat i)) [0..<length req] = req"
    and "on_track T base req a ls st"
    and "(\<exists>l \<in> set ls. covers l base) \<or>
      (\<forall>l \<in> set ls \<union> fst ` set (early base ps). l2l4_payload l \<noteq> [] \<longrightarrow> silent ty T base l)"
    and "\<forall>p \<in> set ps. part_of T base (fst p) \<and> l2l4_type (fst p) = ty"
  shows "\<exists>st'. flow_tracks env st ps = Some st' \<and> on_track T base req a (rev (map fst ps) @ ls) st'"
  using assms(4-6)
proof (induction ps arbitrary: ls st)
  case (Cons p ps)
  obtain l now where p: "p = (l, now)" by (cases p)
  have l: "part_of T base l" "l2l4_type l = ty" using Cons.prems(3) p by auto
  have n: "no_decoy ty T base (l # ls)"
    using Cons.prems(2) p by (cases "covers l base") (auto simp: no_decoy_def)
  have b: "(\<exists>l \<in> set (l # ls). covers l base) \<or> (\<forall>l \<in> set (l # ls) \<union> fst ` set (early base ps).
      l2l4_payload l \<noteq> [] \<longrightarrow> silent ty T base l)"
    using Cons.prems(2) p by (cases "covers l base") auto
  obtain st1 no_sni b where "flow_track env st (l, now) = Some (st1, no_sni, b)"
    "on_track T base req a (l # ls) st1"
    using track_step [OF set T Cons.prems(1) l n, of now] by blast
  then show ?case using Cons.IH [OF _ b, of st1] Cons.prems(3) p by auto
qed simp

lemma early_no_decoy:
  assumes "\<forall>q \<in> set (early base qs). l2l4_payload (fst q) \<noteq> [] \<longrightarrow> silent ty T base (fst q)"
  shows "no_decoy ty T base (rev (map fst qs))"
proof (cases "\<exists>q \<in> set qs. covers (fst q) base")
  case False
  then have e: "early base qs = qs" by simp
  show ?thesis using assms unfolding e by (auto simp: no_decoy_def)
qed (auto simp: no_decoy_def)

lemma early_append: "set (early base qs) \<subseteq> set (early base (qs @ rs))"
  by (induction qs) auto

section \<open>The verdict of the rules\<close>

text \<open>An engine loaded from a rule file with the rules \<open>lines\<close>, and a scratch space for it.\<close>

definition loaded_env ::
  "('h, 'd, 's) worker_env \<Rightarrow> (byte list \<Rightarrow> nat \<Rightarrow> byte list \<Rightarrow> bool) \<Rightarrow>
   ('s \<Rightarrow> 'd \<Rightarrow> bool) \<Rightarrow> rule_line list \<Rightarrow> bool" where
  "loaded_env env matches fits lines \<longleftrightarrow> hyperscan (we_hs env) matches fits \<and>
     (\<exists>ro c1 c2 content. dpi_engine_load_rules (we_hs env) ro c1 c2 (Some content) zero_engine =
          (True, we_engine env) \<and> read_rules ro 0 [] content = Some lines) \<and>
     dpi_engine_alloc_scratch (we_hs env) (we_engine env) = Inr (we_scratch env)"

lemma loaded_scan:
  assumes "loaded_env env matches fits lines" "ty \<in> {TRAFFIC_HTTP, TRAFFIC_HTTPS}"
  shows "\<exists>a. dpi_engine_scan (we_hs env) (we_engine env) (we_scratch env) ty data = Some a \<and>
      (if scan_failed (we_hs env) (we_engine env) (we_scratch env) ty data then a = ACTION_FORWARD
       else a = ACTION_DROP \<longleftrightarrow> drop_rule matches (typed_lines lines ty) data)"
  using assms hyperscan.scan_spec load_rules_ok unfolding loaded_env_def by metis

lemma loaded_safe: "loaded_env env matches fits lines \<Longrightarrow> scan_safe env"
  unfolding scan_safe_def using loaded_scan by (metis option.distinct(1))

lemma loaded_verdict:
  assumes "loaded_env env matches fits lines" "ty \<in> {TRAFFIC_HTTP, TRAFFIC_HTTPS}"
    and "\<not> scan_failed (we_hs env) (we_engine env) (we_scratch env) ty str"
  shows "scan_verdict env ty str = ACTION_DROP \<longleftrightarrow> drop_rule matches (typed_lines lines ty) str"
  using loaded_scan [OF assms(1,2), of str] assms(3) by (auto simp: scan_verdict_def)

text \<open>
  The packets \<open>ps\<close> bring all of the request \<open>req\<close>, which starts at \<open>base\<close> in the sender's stream \<open>T\<close>:
  the flow's own packets among them that have a payload are segments of the stream inside one window
  and together cover the request, in any order. What arrives before the segment with the first byte
  does not read like a request. Packets without payload, the SYN among them, are not restricted.
\<close>

definition completes :: "traffic_type \<Rightarrow> flow_key \<Rightarrow> (u32 \<Rightarrow> byte) \<Rightarrow> u32 \<Rightarrow> byte list \<Rightarrow>
   (rte_mbuf \<times> u64 \<times> u64) list \<Rightarrow> bool" where
  "completes ty k T base req ps \<longleftrightarrow>
     map (\<lambda>i. T (base + of_nat i)) [0..<length req] = req \<and>
     (\<forall>q \<in> set (owns k ps). l2l4_payload (fst q) \<noteq> [] \<longrightarrow> seg_of T base (fst q)) \<and>
     (\<forall>q \<in> set (early base (owns k ps)).
        l2l4_payload (fst q) \<noteq> [] \<longrightarrow> silent ty T base (fst q)) \<and>
     (\<forall>i < length req. \<exists>q \<in> set (owns k ps). covers (fst q) (base + of_nat i))"

lemma owns_ok:
  assumes "q \<in> set (owns k ps)" "\<forall>p \<in> set ps. mbuf_ok (fst p)"
  shows "seg_ok (fst q)" "classify_port (dst_port k) = Some (l2l4_type (fst q))"
proof -
  obtain p where p: "p \<in> set ps" "own k p = Some (fst q, snd q)"
    using assms(1) by (auto simp: List.map_filter_def)
  have m: "mbuf_ok (fst p)" using p(1) assms(2) by blast
  show "seg_ok (fst q)" using parsed_ok(1) [OF ownD(1) [OF p(2)] m] by (simp add: l2l4_ok_def)
  show "classify_port (dst_port k) = Some (l2l4_type (fst q))" by (rule own_type(1) [OF p(2) m])
qed

lemma flow_gets_verdict:
  assumes con: "rte_hash_contract (we_hash env) ok keys slots"
    and load: "loaded_env env matches fits lines"
    and inv: "worker_inv ok keys env w" and none: "flow_of keys (wk_ft w) k = None"
    and begins: "flow_begins env keys k w ps w'" and m: "\<forall>q \<in> set (ps @ [p]). mbuf_ok (fst q)"
    and alive: "alive k (ft_timeout_cycles (wk_ft w)) (snd (snd (hd (ps @ [p])))) (tl (ps @ [p]))"
    and own: "own k p = Some (l, now)"
    and last: "length (wk_fwd w') < BURST_SIZE" "worker_packet env w' p = Some w''"
      "flow_of keys (wk_ft w'') k \<noteq> None"
    and compl: "completes (l2l4_type l) k T base req (ps @ [p])" and set: "settles (l2l4_type l) req str"
    and scan: "\<not> scan_failed (we_hs env) (we_engine env) (we_scratch env) (l2l4_type l) str"
  shows "\<exists>a no_sni ft st. w'' = account env w' (fst p) (l2l4_type l) no_sni a ft \<and>
    (a = ACTION_DROP \<longleftrightarrow> drop_rule matches (typed_lines lines (l2l4_type l)) str) \<and>
    flow_of keys (wk_ft w'') k = Some st \<and> st_verdict_cached st \<and> st_cached_action st = a"
proof -
  let ?ty = "l2l4_type l" and ?ls = "rev (map fst (owns k ps))"
  define a where "a = scan_verdict env ?ty str"
  have mp: "mbuf_ok (fst p)" using m by simp
  have a: "a = ACTION_DROP \<longleftrightarrow> drop_rule matches (typed_lines lines ?ty) str"
    unfolding a_def by (rule loaded_verdict [OF load own_type(2) [OF own mp] scan])
  have e: "owns k (ps @ [p]) = owns k ps @ [(l, now)]" using own by (simp add: List.map_filter_def)
  have T: "map (\<lambda>i. T (base + of_nat i)) [0..<length req] = req"
    and cov: "\<forall>i < length req. \<exists>l' \<in> set (l # ?ls). covers l' (base + of_nat i)"
    and quiet: "\<forall>q \<in> set (early base (owns k ps @ [(l, now)])).
      l2l4_payload (fst q) \<noteq> [] \<longrightarrow> silent ?ty T base (fst q)"
    using compl unfolding completes_def e by auto
  have segs: "part_of T base (fst q) \<and> l2l4_type (fst q) = ?ty" if "q \<in> set (owns k (ps @ [p]))" for q
    using compl that owns_ok [OF that m] own_type(1) [OF own mp] by (auto simp: completes_def part_of_def)
  have base: "no_decoy ?ty T base (l # ?ls)" using early_no_decoy [OF quiet] by simp
  have req: "req \<noteq> []" "length req \<le> 4096 - 1" using set by (simp_all add: settles_def)
  obtain st st' no_sni b ft where r: "flow_tracks env (new_flow ?ty) (owns k ps) = Some st"
    "flow_track env st (l, now) = Some (st', no_sni, b)"
    "w'' = account env w' (fst p) ?ty no_sni b ft" "flow_of keys (wk_ft w'') k = Some st'"
    by (rule fresh_flow_tracks [OF con loaded_safe [OF load] inv none begins m alive own last])
  have "\<forall>l \<in> set [] \<union> fst ` set (early base (owns k ps)). l2l4_payload l \<noteq> [] \<longrightarrow> silent ?ty T base l"
    using quiet early_append [of base "owns k ps" "[(l, now)]"] by auto
  then have "on_track T base req a ?ls st"
    using tracks_all [OF set a_def [symmetric] T on_track_new [OF req(1)], of "owns k ps" ?ty]
      r(1) segs e by auto
  then have s: "on_track T base req a (l # ?ls) st'" "st_verdict_cached st' \<longrightarrow> b = a"
    using track_step [OF set a_def [symmetric] T _ _ refl base, of st now] segs [of "(l, now)"] r(2) e
    by auto
  have "st_verdict_cached st' \<and> st_cached_action st' = a" by (rule on_track_complete [OF s(1) req cov])
  then show ?thesis using s(2) r(3,4) a by auto
qed

section \<open>A session on a concrete worker\<close>

text \<open>
  The first twenty bytes of a byte string in one frame, a frame that does not parse, and the rest of
  the string in a second frame, on the demonstration worker.
\<close>

definition demo_frame :: "byte \<Rightarrow> byte \<Rightarrow> byte \<Rightarrow> byte list \<Rightarrow> rte_mbuf" where
  "demo_frame d0 d1 q payload = \<lparr>mbuf_data = tcp_frame (replicate 12 0) 4 (replicate 8 0) [0, 0]
      [10, 0, 0, 1, 10, 0, 0, 2] [] [0x30, 0x39, d0, d1]
      [0, 0, 3, q, 0, 0, 0, 0] 0 (replicate 7 0) [] payload, mbuf_pkt_len = 54 + of_nat (length payload)\<rparr>"

definition frame_key :: "byte \<Rightarrow> byte \<Rightarrow> flow_key" where
  "frame_key d0 d1 = demo_key\<lparr>dst_port := be16 d0 d1\<rparr>"

definition demo_inputs :: "byte \<Rightarrow> byte \<Rightarrow> byte list \<Rightarrow> (rte_mbuf \<times> u64 \<times> u64) list" where
  "demo_inputs d0 d1 bs = [(demo_frame d0 d1 233 (take 20 bs), 5, 6), (short_packet, 7, 8)]"

definition demo_last :: "byte \<Rightarrow> byte \<Rightarrow> byte list \<Rightarrow> rte_mbuf \<times> u64 \<times> u64" where
  "demo_last d0 d1 bs = (demo_frame d0 d1 253 (drop 20 bs), 9, 10)"

definition demo_cut :: "byte \<Rightarrow> byte \<Rightarrow> traffic_type \<Rightarrow> byte list \<Rightarrow> nat \<Rightarrow> nat \<Rightarrow> l2l4_result" where
  "demo_cut d0 d1 ty bs a m = (cut_segment ty 1001 bs a m)\<lparr>l2l4_key := frame_key d0 d1\<rparr>"

lemma demo_frame_parses:
  assumes "classify_port (be16 d0 d1) = Some ty" "be32 0 0 3 q = 1001 + (of_nat a :: u32)"
    and "payload = take m (drop a bs)"
  shows "parser_parse_l2_l4 (demo_frame d0 d1 q payload) = Some (Some (demo_cut d0 d1 ty bs a m))"
  unfolding demo_frame_def
  by (subst tcp_frame_parses [where k = 0 and j = 0])
    (simp_all add: assms demo_cut_def cut_segment_def demo_segment_def frame_key_def demo_key_def)

lemma demo_frame_ok: "length payload < 65000 \<Longrightarrow> mbuf_ok (demo_frame d0 d1 q payload)"
  by (simp add: mbuf_ok_def demo_frame_def tcp_frame_def)

lemma seg_of_key [simp]: "seg_of T base (l\<lparr>l2l4_key := k\<rparr>) = seg_of T base l"
  by (simp add: seg_of_def)

lemma covers_key [simp]: "covers (l\<lparr>l2l4_key := k\<rparr>) s = covers l s"
  by (simp add: covers_def)

lemma short_packet_rejected: "parser_parse_l2_l4 short_packet = Some None"
  by (simp add: parser_parse_l2_l4_def extract_headers_def short_packet_def)

lemma demo_owns:
  assumes port: "classify_port (be16 d0 d1) = Some ty" and bs: "20 < length bs" "length bs \<le> 4095"
  defines "k \<equiv> frame_key d0 d1"
  shows "own k (demo_frame d0 d1 233 (take 20 bs), 5, 6) = Some (demo_cut d0 d1 ty bs 0 20, 6)"
    and "own k (short_packet, 7, 8) = None"
    and "own k (demo_last d0 d1 bs) = Some (demo_cut d0 d1 ty bs 20 (length bs - 20), 10)"
    and "completes ty k (stream_of 1001 bs) 1001 bs (demo_inputs d0 d1 bs @ [demo_last d0 d1 bs])"
    and "\<forall>q \<in> set (demo_inputs d0 d1 bs @ [demo_last d0 d1 bs]). mbuf_ok (fst q)"
proof -
  have seq: "be32 0 0 3 233 = (1001 :: u32) + of_nat 0" "be32 0 0 3 253 = (1001 :: u32) + of_nat 20"
    by (simp_all add: be32_def)
  show o: "own k (demo_frame d0 d1 233 (take 20 bs), 5, 6) = Some (demo_cut d0 d1 ty bs 0 20, 6)"
    "own k (short_packet, 7, 8) = None"
    "own k (demo_last d0 d1 bs) = Some (demo_cut d0 d1 ty bs 20 (length bs - 20), 10)"
    using demo_frame_parses [OF port seq(1), of "take 20 bs" 20 bs]
      demo_frame_parses [OF port seq(2), of "drop 20 bs" "length bs - 20" bs] short_packet_rejected
    by (simp_all add: own_def demo_last_def demo_cut_def k_def)
  let ?a = "demo_cut d0 d1 ty bs 0 20" and ?b = "demo_cut d0 d1 ty bs 20 (length bs - 20)"
  have os: "owns k (demo_inputs d0 d1 bs @ [demo_last d0 d1 bs]) = [(?a, 6), (?b, 10)]"
    using o by (simp add: demo_inputs_def map_filter_simps)
  have seg: "seg_of (stream_of 1001 bs) 1001 ?a" "seg_of (stream_of 1001 bs) 1001 ?b"
    using bs by (simp_all add: demo_cut_def cut_segment_facts(1))
  have cov: "i < 20 \<Longrightarrow> covers ?a (1001 + of_nat i)"
    "20 \<le> i \<Longrightarrow> i < length bs \<Longrightarrow> covers ?b (1001 + of_nat i)" for i
    using bs cut_segment_facts(3) [of 0 20 bs i ty 1001]
      cut_segment_facts(3) [of 20 "length bs - 20" bs i ty 1001] by (simp_all add: demo_cut_def)
  have "covers ?a 1001" using cov(1) [of 0] by simp
  moreover have "covers ?a (1001 + of_nat i) \<or> covers ?b (1001 + of_nat i)" if "i < length bs" for i
    using cov [of i] that by linarith
  ultimately show "completes ty k (stream_of 1001 bs) 1001 bs (demo_inputs d0 d1 bs @ [demo_last d0 d1 bs])"
    using seg map_stream_of [OF bs(2), of 1001] unfolding completes_def os by simp
  show "\<forall>q \<in> set (demo_inputs d0 d1 bs @ [demo_last d0 d1 bs]). mbuf_ok (fst q)"
    using bs demo_facts(5) demo_frame_ok by (simp add: demo_inputs_def demo_last_def)
qed

lemma first_segment_answer:
  assumes "seg_ok l" "0 < length (l2l4_payload l)" "length (l2l4_payload l) \<le> 4095"
    and "flow_state_update (new_flow (l2l4_type l)) l now = Some (st, r)"
  shows "answer r = scan_request (l2l4_type l) (l2l4_payload l)"
proof -
  let ?st = "(new_flow (l2l4_type l))\<lparr>st_last_seen_tsc := now\<rparr>"
  have st: "flow_inv ?st" "st_hwm ?st = 0" "\<not> st_first_seq_set ?st" "\<not> st_verdict_cached ?st"
    using new_flow_facts(1,3) [of "l2l4_type l"]
    by (simp_all add: new_flow_def) (simp_all add: zero_flow_state_def)
  obtain st1 where "place_segment ?st l = Some st1" "extracted st1 (l2l4_type l) st r"
    using flow_state_update_open [OF new_flow_facts(1) assms(1) new_flow_facts(3), where now = now]
      assms(4) by fastforce
  moreover have "contig_prefix st1 = l2l4_payload l" if "place_segment ?st l = Some st1" for st1
    using first_segment_prefix [OF assms(1-3) st] that by auto
  ultimately show ?thesis by (auto simp: extracted_def)
qed

text \<open>A first packet that is not given up finds room in the empty table.\<close>

lemma empty_table_opens:
  assumes con: "rte_hash_contract (we_hash env) slot_ok slot_keys slots" and env: "we_hash env = slot_ops"
    "scan_safe env" and inv: "worker_inv slot_ok slot_keys env w"
    and w0: "wk_ft w = empty_table timeout" "wk_fwd w = []"
    and l: "parser_parse_l2_l4 pkt = Some (Some l)" "mbuf_ok pkt"
    and u: "flow_state_update (new_flow (l2l4_type l)) l now = Some (st, r)"
      "ur_status r \<noteq> REASSEMBLY_GIVE_UP"
  obtains w1 where "worker_packet env w (pkt, ts, now) = Some w1"
    "flow_of slot_keys (wk_ft w1) (l2l4_key l) \<noteq> None" "length (wk_fwd w1) \<le> 1"
proof -
  have room: "length (wk_fwd w) < 32" using w0(2) by simp
  obtain ft r' F1 F2 ft1 where u1: "worker_packet env w (pkt, ts, now) = Some (account env w pkt
        (l2l4_type l) (ur_no_sni r') (verdict_of env (l2l4_type l) r') ft)"
      "parser_flow_update (we_hash env) (wk_ft w) l ts now = Some (ft1, r')"
      "packet_effect F1 l now F2 r'"
      "flow_of slot_keys ft = after_verdict F2 (l2l4_key l) r' (verdict_of env (l2l4_type l) r')"
    using worker_packet_parsed [OF con inv env(2) l(2,1) room] by blast
  have "r' = r" using empty_table_update [OF u(1), of timeout ts] u1(2) env(1) w0(1) by auto
  then have "flow_of slot_keys ft (l2l4_key l) \<noteq> None"
    using u1(3,4) u(2) by (auto simp: packet_effect_def after_verdict_def split: option.split)
  then show ?thesis using that [OF u1(1)] w0(2) by (simp add: account_def)
qed

lemma empty_table_first:
  assumes con: "rte_hash_contract (we_hash env) slot_ok slot_keys slots" and env: "we_hash env = slot_ops"
    "scan_safe env" and inv: "worker_inv slot_ok slot_keys env w"
    and w0: "wk_ft w = empty_table timeout" "wk_fwd w = []"
    and l: "parser_parse_l2_l4 pkt = Some (Some l)" "mbuf_ok pkt"
    and n: "0 < length (l2l4_payload l)" "length (l2l4_payload l) \<le> 4095"
    and pend: "scan_request (l2l4_type l) (l2l4_payload l) = (REASSEMBLY_PENDING, None)"
  obtains w1 where "worker_packet env w (pkt, ts, now) = Some w1"
    "flow_of slot_keys (wk_ft w1) (l2l4_key l) \<noteq> None" "length (wk_fwd w1) \<le> 1"
proof -
  have seg: "seg_ok l" using parsed_ok(1) [OF l] by (simp add: l2l4_ok_def)
  obtain st r where u: "flow_state_update (new_flow (l2l4_type l)) l now = Some (st, r)"
    using flow_state_update_spec [OF new_flow_facts(1) seg] by blast
  then have "ur_status r \<noteq> REASSEMBLY_GIVE_UP"
    using first_segment_answer [OF seg n u] pend by (simp add: answer_def)
  then show ?thesis using empty_table_opens [OF con env inv w0 l u] that by blast
qed

text \<open>The worker can handle any packets that its buffer has room for.\<close>

lemma worker_run_exists:
  assumes con: "rte_hash_contract (we_hash env) ok keys slots" and safe: "scan_safe env"
    and "worker_inv ok keys env w" "\<forall>p \<in> set ps. mbuf_ok (fst p)"
    and "length (wk_fwd w) + length ps \<le> BURST_SIZE"
  shows "\<exists>w'. worker_run env w ps w' \<and> worker_inv ok keys env w' \<and>
    length (wk_fwd w') \<le> length (wk_fwd w) + length ps"
  using assms(3-5)
proof (induction ps arbitrary: w)
  case Nil
  then show ?case using run_done by auto
next
  case (Cons p ps)
  obtain pkt ts now where p: "p = (pkt, ts, now)" by (metis prod_cases3)
  have m: "mbuf_ok pkt" "length (wk_fwd w) < 32" using Cons.prems(2,3) p by simp_all
  obtain w1 out where w1: "worker_packet env w p = Some w1" "worker_inv ok keys env w1"
    "wk_fwd w1 = wk_fwd w @ picked (\<lambda>x. \<not> was_dropped x) [pkt] [out]"
    using worker_packet_outcome [OF con Cons.prems(1) safe m, of ts now] p by blast
  have fwd: "length (wk_fwd w1) \<le> Suc (length (wk_fwd w))" using w1(3) by (simp add: picked_def)
  then obtain w' where "worker_run env w1 ps w'" "worker_inv ok keys env w'"
    "length (wk_fwd w') \<le> length (wk_fwd w1) + length ps"
    using Cons.IH [OF w1(2)] Cons.prems(2,3) by auto
  then show ?case using run_packet [OF _ w1(1)] m(2) fwd by fastforce
qed

text \<open>
  A session of a flow on a worker with an empty table: a first packet that is not given up, any other
  packets, and a last packet of the flow, within the idle timeout.
\<close>

lemma flow_session:
  assumes con: "rte_hash_contract (we_hash env) slot_ok slot_keys slots" and env: "we_hash env = slot_ops"
    "scan_safe env" and inv: "worker_inv slot_ok slot_keys env w"
    and w0: "wk_ft w = empty_table timeout" "wk_fwd w = []"
    and first: "own k p = Some (l, now)" "flow_state_update (new_flow (l2l4_type l)) l now = Some (st, r)"
      "ur_status r \<noteq> REASSEMBLY_GIVE_UP"
    and last: "own k q = Some (l', now')"
    and m: "\<forall>x \<in> set (p # qs @ [q]). mbuf_ok (fst x)" and len: "length qs < 30"
    and al: "alive k timeout now (qs @ [q])"
  obtains w' w'' where "flow_begins env slot_keys k w (p # qs) w'" "length (wk_fwd w') < BURST_SIZE"
    "worker_packet env w' q = Some w''" "flow_of slot_keys (wk_ft w'') k \<noteq> None"
proof -
  obtain pkt ts where p: "p = (pkt, ts, now)" using ownD(3) [OF first(1)] by (metis prod.collapse)
  obtain pkt' ts' where q: "q = (pkt', ts', now')" using ownD(3) [OF last] by (metis prod.collapse)
  have l: "parser_parse_l2_l4 pkt = Some (Some l)" "l2l4_key l = k" "mbuf_ok pkt"
    using ownD(1,2) [OF first(1)] m p by simp_all
  have l': "mbuf_ok pkt'" "parser_parse_l2_l4 pkt' = Some (Some l')" "l2l4_key l' = k"
    using ownD(1,2) [OF last] m q by simp_all
  have none: "flow_of slot_keys (wk_ft w) k = None" and room: "length (wk_fwd w) < 32"
    using flow_of_empty_table w0 by simp_all
  obtain w1 where w1: "worker_packet env w (pkt, ts, now) = Some w1"
    "flow_of slot_keys (wk_ft w1) k \<noteq> None" "length (wk_fwd w1) \<le> 1"
    using empty_table_opens [OF con env inv w0 l(1,3) first(2,3)] l(2) by metis
  obtain st1 ns1 a1 ft1 where f: "flow_track env (new_flow (l2l4_type l)) (l, now) = Some (st1, ns1, a1)"
    "flow_of slot_keys (wk_ft w1) k = Some st1" "worker_inv slot_ok slot_keys env w1"
    "ft_timeout_cycles (wk_ft w1) = ft_timeout_cycles (wk_ft w)"
    by (rule worker_packet_first [OF con env(2) inv l(3) room none l(1,2) w1(1,2)])
  have "seg_ok l" using parsed_ok(1) [OF l(1,3)] by (simp add: l2l4_ok_def)
  then have seen: "st_last_seen_tsc st1 = now" by (rule flow_track_seen [OF f(1) new_flow_facts(1)])
  have mq: "\<forall>x \<in> set qs. mbuf_ok (fst x)" using m by simp
  obtain w' where w': "worker_run env w1 qs w'" "length (wk_fwd w') \<le> length (wk_fwd w1) + length qs"
    using worker_run_exists [OF con env(2) f(3) mq] w1(3) len by auto
  have fwd: "length (wk_fwd w') < 32" using w'(2) w1(3) len by simp
  have al': "alive k (ft_timeout_cycles (wk_ft w1)) (st_last_seen_tsc st1) (qs @ [(pkt', ts', now')])"
    using al f(4) seen w0(1) q by (simp add: empty_table_def)
  obtain st3 no_sni a ft where "worker_packet env w' (pkt', ts', now') =
       Some (account env w' pkt' (l2l4_type l') no_sni a ft)" "flow_of slot_keys ft k = Some st3"
    by (rule run_then_own [OF w'(1) con env(2) f(3) mq f(2) al' l' fwd])
  moreover have "flow_begins env slot_keys k w (p # qs) w'"
    using first(1) w1(1,2) w'(1) room p by (simp add: flow_begins_def)
  ultimately show ?thesis using that [OF _ fwd] q by (simp add: account_def)
qed

lemma demo_session:
  fixes env :: "(slot_hash, 'd, 's) worker_env"
  assumes env: "we_hash env = slot_ops" "we_lcore env = 1" "scan_safe env"
    and port: "classify_port (be16 d0 d1) = Some ty" and bs: "20 < length bs" and set: "settles ty bs str"
  defines "k \<equiv> frame_key d0 d1"
  obtains w' w'' where "flow_begins env slot_keys k demo_worker (demo_inputs d0 d1 bs) w'"
    "length (wk_fwd w') < BURST_SIZE" "worker_packet env w' (demo_last d0 d1 bs) = Some w''"
    "flow_of slot_keys (wk_ft w'') k \<noteq> None"
proof -
  have con: "rte_hash_contract (we_hash env) slot_ok slot_keys 1024"
    using slot_hash.rte_hash_contract_axioms env(1) by simp
  have inv: "worker_inv slot_ok slot_keys env demo_worker"
    using demo_facts(2) env(2) by (simp add: worker_inv_def demo_env_def)
  have len: "length bs \<le> 4095" using set by (simp add: settles_def)
  note o = demo_owns [OF port bs len, folded k_def]
  let ?l = "demo_cut d0 d1 ty bs 0 20"
  have pl: "l2l4_payload ?l = take 20 bs" "l2l4_type ?l = ty"
    by (simp_all add: demo_cut_def cut_segment_def demo_segment_def)
  have seg: "seg_ok ?l" using len by (simp add: seg_ok_def demo_cut_def cut_segment_def demo_segment_def)
  obtain st r where u: "flow_state_update (new_flow (l2l4_type ?l)) ?l 6 = Some (st, r)"
    using flow_state_update_spec [OF new_flow_facts(1) seg] by blast
  have "scan_request ty (take 20 bs) = (REASSEMBLY_PENDING, None)"
    using set bs unfolding settles_def by (metis append_take_drop_id drop_eq_Nil not_le)
  then have "ur_status r \<noteq> REASSEMBLY_GIVE_UP"
    using first_segment_answer [OF seg _ _ u] bs pl by (simp add: answer_def)
  note u = u this
  have w0: "wk_ft demo_worker = empty_table 100" "wk_fwd demo_worker = []"
    by (simp_all add: demo_worker_def)
  have ps: "demo_inputs d0 d1 bs = (demo_frame d0 d1 233 (take 20 bs), 5, 6) # [(short_packet, 7, 8)]"
    by (simp add: demo_inputs_def)
  have m: "\<forall>x \<in> set ((demo_frame d0 d1 233 (take 20 bs), 5, 6) # [(short_packet, 7, 8)] @ [demo_last d0 d1 bs]).
      mbuf_ok (fst x)"
    using o(5) unfolding ps by simp
  have al: "alive k 100 6 ([(short_packet, 7, 8)] @ [demo_last d0 d1 bs])"
    using o(2) by (simp add: demo_last_def)
  show ?thesis
    by (rule flow_session [OF con env(1,3) inv w0 o(1) u o(3) m _ al]) (simp, rule that [unfolded ps])
qed

text \<open>An engine with one rule, on literal patterns.\<close>

lemma one_rule_env:
  assumes "rule_ok r"
  obtains env :: "(slot_hash, literal_db, unit) worker_env" where
    "we_hash env = slot_ops" "we_lcore env = 1" "we_hs env = literal_hs"
    "loaded_env env literal_matches (\<lambda>s d. True) [r]"
proof -
  let ?f = "concat (map (\<lambda>r. rule_text r @ [10]) [r])"
  have rd: "read_rules (\<lambda>c. True) 0 [] ?f = Some [r]"
    using assms by (intro read_rule_file [OF _ _ refl]) simp_all
  have "\<exists>d'. compile_db literal_hs True [r] ty d = (True, d')" for ty d
    by (cases "typed_lines [r] ty = []") (simp_all add: compile_db_def Let_def literal_hs_def)
  then obtain d1 d2 where "compile_db literal_hs True [r] TRAFFIC_HTTP (g_http_db zero_engine) = (True, d1)"
    "compile_db literal_hs True [r] TRAFFIC_HTTPS (g_https_db zero_engine) = (True, d2)"
    by blast
  then obtain e where e: "dpi_engine_load_rules literal_hs (\<lambda>c. True) True True (Some ?f) zero_engine = (True, e)"
    using rd by (simp add: dpi_engine_load_rules_def Let_def)
  obtain s where s: "dpi_engine_alloc_scratch literal_hs e = Inr s" using literal_scratch by blast
  let ?env = "\<lparr>we_hash = slot_ops, we_hs = literal_hs, we_engine = e, we_scratch = s, we_lcore = 1\<rparr>"
  have "loaded_env ?env literal_matches (\<lambda>s d. True) [r]"
    unfolding loaded_env_def worker_env.select_convs
    using literal.hyperscan_axioms e rd s by blast
  then show ?thesis by (intro that [of ?env]) simp_all
qed

lemma demo_facts_env:
  assumes "we_hash env = slot_ops" "we_lcore env = 1"
  shows "rte_hash_contract (we_hash env) slot_ok slot_keys 1024"
    "worker_inv slot_ok slot_keys env demo_worker" "flow_of slot_keys (wk_ft demo_worker) k = None"
  using slot_hash.rte_hash_contract_axioms demo_facts(2) flow_of_empty_table assms
  by (simp_all add: worker_inv_def demo_env_def demo_worker_def)

lemma demo_alive:
  assumes "classify_port (be16 d0 d1) = Some ty" "20 < length bs" "length bs \<le> 4095"
  defines "ps \<equiv> demo_inputs d0 d1 bs @ [demo_last d0 d1 bs]"
  shows "alive (frame_key d0 d1) (ft_timeout_cycles (wk_ft demo_worker)) (snd (snd (hd ps))) (tl ps)"
  using demo_owns(2) [OF assms(1-3)]
  by (simp add: ps_def demo_inputs_def demo_last_def demo_worker_def empty_table_def)

lemma demo_cut_type [simp]: "l2l4_type (demo_cut d0 d1 ty bs a m) = ty"
  by (simp add: demo_cut_def cut_segment_def)

text \<open>A segment that starts with no method, or not with a handshake record, does not read like a request.\<close>

lemma http_silent:
  assumes "T (l2l4_seq l) \<notin> hd ` set http_methods" "l2l4_seq l \<noteq> base"
  shows "silent TRAFFIC_HTTP T base l"
  unfolding silent_def
proof (intro allI impI)
  fix j
  let ?p = "map (\<lambda>i. T (l2l4_seq l + of_nat i)) [0..<j]"
  assume j: "unat (l2l4_seq l - base) + j \<le> FLOW_BUF_CAP - 1"
  have "unat (l2l4_seq l - base) \<noteq> 0" using assms(2) by (auto simp: unat_eq_zero)
  then have "give_up_or_wait ?p = REASSEMBLY_PENDING" using j by (simp add: give_up_or_wait_def)
  moreover have "\<not> match_at (\<lambda>b. b) m (takeWhile (\<lambda>b. b \<noteq> 0) ?p)" if m: "m \<in> set http_methods" for m
  proof -
    have "m \<noteq> []" using m by (auto simp: http_methods_def ascii_def)
    then obtain x xs where x: "m = x # xs" by (cases m) simp_all
    have "x \<in> hd ` set http_methods" using image_eqI [of x hd m] m x by simp
    then have ne: "x \<noteq> T (l2l4_seq l)" using assms(1) by metis
    show ?thesis
    proof (cases "j = 0")
      case True
      then show ?thesis using x by (simp add: match_at_def)
    next
      case False
      then have "?p = T (l2l4_seq l) # map (\<lambda>i. T (l2l4_seq l + of_nat i)) [Suc 0..<j]"
        by (subst upt_conv_Cons) simp_all
      then show ?thesis using x ne by (simp add: match_at_def del: upt_conv_Cons)
    qed
  qed
  ultimately show "scan_request TRAFFIC_HTTP ?p = (REASSEMBLY_PENDING, None)"
    by (simp add: scan_request_def http_url_def Let_def)
qed

lemma tls_silent:
  assumes "T (l2l4_seq l) \<noteq> 0x16" "l2l4_seq l \<noteq> base"
  shows "silent TRAFFIC_HTTPS T base l"
  unfolding silent_def
proof (intro allI impI)
  fix j
  let ?p = "map (\<lambda>i. T (l2l4_seq l + of_nat i)) [0..<j]"
  assume j: "unat (l2l4_seq l - base) + j \<le> FLOW_BUF_CAP - 1"
  have "unat (l2l4_seq l - base) \<noteq> 0" using assms(2) by (auto simp: unat_eq_zero)
  then have "give_up_or_wait ?p = REASSEMBLY_PENDING" using j by (simp add: give_up_or_wait_def)
  moreover have "tls_hello_start ?p (length ?p) = Some None"
    using assms(1) by (subst tls_hello_start_eq) auto
  then have "tls_verdict ?p = (TLS_SNI_PENDING, [])" by (simp add: tls_verdict_def tls_client_hello_def)
  ultimately show "scan_request TRAFFIC_HTTPS ?p = (REASSEMBLY_PENDING, None)"
    by (simp add: scan_request_def)
qed

text \<open>
  The same byte string with the handshake: a SYN, the second part, a frame that does not parse, and
  the first part last.
\<close>

definition demo_syn :: "byte \<Rightarrow> byte \<Rightarrow> rte_mbuf" where
  "demo_syn d0 d1 = \<lparr>mbuf_data = tcp_frame (replicate 12 0) 4 (replicate 8 0) [0, 0]
      [10, 0, 0, 1, 10, 0, 0, 2] [] [0x30, 0x39, d0, d1]
      [0, 0, 3, 232, 0, 0, 0, 0] 0 (0x02 # replicate 6 0) [] [], mbuf_pkt_len = 54\<rparr>"

definition late_inputs :: "byte \<Rightarrow> byte \<Rightarrow> byte list \<Rightarrow> (rte_mbuf \<times> u64 \<times> u64) list" where
  "late_inputs d0 d1 bs =
     [(demo_syn d0 d1, 5, 6), (demo_frame d0 d1 253 (drop 20 bs), 7, 8), (short_packet, 9, 10)]"

definition late_first :: "byte \<Rightarrow> byte \<Rightarrow> byte list \<Rightarrow> rte_mbuf \<times> u64 \<times> u64" where
  "late_first d0 d1 bs = (demo_frame d0 d1 233 (take 20 bs), 11, 12)"

definition syn_segment :: "byte \<Rightarrow> byte \<Rightarrow> traffic_type \<Rightarrow> l2l4_result" where
  "syn_segment d0 d1 ty = (demo_cut d0 d1 ty [] 0 0)\<lparr>l2l4_seq := 1000\<rparr>"

lemma demo_syn_parses:
  "classify_port (be16 d0 d1) = Some ty \<Longrightarrow>
   parser_parse_l2_l4 (demo_syn d0 d1) = Some (Some (syn_segment d0 d1 ty))"
  unfolding demo_syn_def
  by (subst tcp_frame_parses [where k = 0 and j = 0])
    (simp_all add: syn_segment_def demo_cut_def cut_segment_def demo_segment_def frame_key_def
      demo_key_def be32_def)

lemma late_owns:
  assumes port: "classify_port (be16 d0 d1) = Some ty" and bs: "20 < length bs" "length bs \<le> 4095"
    and quiet: "silent ty (stream_of 1001 bs) 1001 (demo_cut d0 d1 ty bs 20 (length bs - 20))"
  defines "k \<equiv> frame_key d0 d1"
  shows "own k (demo_syn d0 d1, 5, 6) = Some (syn_segment d0 d1 ty, 6)"
    and "own k (demo_frame d0 d1 253 (drop 20 bs), 7, 8) = Some (demo_cut d0 d1 ty bs 20 (length bs - 20), 8)"
    and "own k (short_packet, 9, 10) = None"
    and "own k (late_first d0 d1 bs) = Some (demo_cut d0 d1 ty bs 0 20, 12)"
    and "completes ty k (stream_of 1001 bs) 1001 bs (late_inputs d0 d1 bs @ [late_first d0 d1 bs])"
    and "\<forall>q \<in> set (late_inputs d0 d1 bs @ [late_first d0 d1 bs]). mbuf_ok (fst q)"
proof -
  note d = demo_owns [OF port bs, folded k_def]
  let ?a = "demo_cut d0 d1 ty bs 0 20" and ?b = "demo_cut d0 d1 ty bs 20 (length bs - 20)"
    and ?s = "syn_segment d0 d1 ty"
  have s: "l2l4_payload ?s = []" "l2l4_key ?s = k"
    by (simp_all add: syn_segment_def demo_cut_def cut_segment_def demo_segment_def k_def)
  have f: "parser_parse_l2_l4 (demo_frame d0 d1 233 (take 20 bs)) = Some (Some ?a)" "l2l4_key ?a = k"
    "parser_parse_l2_l4 (demo_frame d0 d1 253 (drop 20 bs)) = Some (Some ?b)" "l2l4_key ?b = k"
    using ownD(1,2) [OF d(1)] ownD(1,2) [OF d(3)] by (simp_all add: demo_last_def)
  show o: "own k (demo_syn d0 d1, 5, 6) = Some (?s, 6)" "own k (demo_frame d0 d1 253 (drop 20 bs), 7, 8) = Some (?b, 8)"
    "own k (short_packet, 9, 10) = None" "own k (late_first d0 d1 bs) = Some (?a, 12)"
    using demo_syn_parses [OF port] s(2) f short_packet_rejected by (simp_all add: own_def late_first_def)
  have os: "owns k (late_inputs d0 d1 bs @ [late_first d0 d1 bs]) = [(?s, 6), (?b, 8), (?a, 12)]"
    using o by (simp add: late_inputs_def map_filter_simps)
  have od: "owns k (demo_inputs d0 d1 bs @ [demo_last d0 d1 bs]) = [(?a, 6), (?b, 10)]"
    using d(1-3) by (simp add: demo_inputs_def map_filter_simps)
  have c: "map (\<lambda>i. stream_of 1001 bs (1001 + of_nat i)) [0..<length bs] = bs"
    "\<forall>l \<in> {?a, ?b}. l2l4_payload l \<noteq> [] \<longrightarrow> seg_of (stream_of 1001 bs) 1001 l"
    "\<forall>i < length bs. covers ?a (1001 + of_nat i) \<or> covers ?b (1001 + of_nat i)"
    using d(4) unfolding completes_def od by simp_all
  have "set (early 1001 [(?s, 6 :: u64), (?b, 8), (?a, 12)]) \<subseteq> {(?s, 6), (?b, 8), (?a, 12)}"
    by (auto dest: set_takeWhileD)
  moreover have "covers ?a 1001"
    using cut_segment_facts(3) [of 0 20 bs 0 ty 1001] bs by (simp add: demo_cut_def)
  ultimately have "\<forall>q \<in> set (early 1001 [(?s, 6 :: u64), (?b, 8), (?a, 12)]).
      l2l4_payload (fst q) \<noteq> [] \<longrightarrow> silent ty (stream_of 1001 bs) 1001 (fst q)"
    using s(1) quiet by auto
  then show "completes ty k (stream_of 1001 bs) 1001 bs (late_inputs d0 d1 bs @ [late_first d0 d1 bs])"
    using c s(1) unfolding completes_def os by auto
  have "mbuf_ok (demo_syn d0 d1)" by (simp add: mbuf_ok_def demo_syn_def tcp_frame_def)
  then show "\<forall>q \<in> set (late_inputs d0 d1 bs @ [late_first d0 d1 bs]). mbuf_ok (fst q)"
    using d(5) by (simp add: late_inputs_def late_first_def demo_inputs_def demo_last_def)
qed

lemma syn_leaves_open:
  obtains st r where "flow_state_update (new_flow ty) (syn_segment d0 d1 ty) now = Some (st, r)"
    "answer r = scan_request ty []"
proof -
  let ?s = "syn_segment d0 d1 ty"
  have s: "seg_ok ?s" "l2l4_type ?s = ty" "l2l4_payload ?s = []" "l2l4_payload_len ?s = 0"
    by (simp_all add: syn_segment_def demo_cut_def cut_segment_def demo_segment_def seg_ok_def)
  obtain st1 st r where "place_segment ((new_flow ty)\<lparr>st_last_seen_tsc := now\<rparr>) ?s = Some st1"
    "flow_state_update (new_flow ty) ?s now = Some (st, r)" "extracted st1 (l2l4_type ?s) st r"
    using flow_state_update_open [OF new_flow_facts(1) s(1) new_flow_facts(3), where now = now] by blast
  moreover have "contig_prefix ((new_flow ty)\<lparr>st_last_seen_tsc := now\<rparr>) = []"
    by (simp add: contig_prefix_def new_flow_def) (simp add: zero_flow_state_def)
  ultimately show ?thesis using that s(2) place_segment_empty [OF s(4)] by (auto simp: extracted_def)
qed

lemma late_session:
  fixes env :: "(slot_hash, 'd, 's) worker_env"
  assumes env: "we_hash env = slot_ops" "we_lcore env = 1" "scan_safe env"
    and port: "classify_port (be16 d0 d1) = Some ty" and bs: "20 < length bs" and set: "settles ty bs str"
    and quiet: "silent ty (stream_of 1001 bs) 1001 (demo_cut d0 d1 ty bs 20 (length bs - 20))"
  defines "k \<equiv> frame_key d0 d1"
  obtains w' w'' where "flow_begins env slot_keys k demo_worker (late_inputs d0 d1 bs) w'"
    "length (wk_fwd w') < BURST_SIZE" "worker_packet env w' (late_first d0 d1 bs) = Some w''"
    "flow_of slot_keys (wk_ft w'') k \<noteq> None"
    "alive k (ft_timeout_cycles (wk_ft demo_worker))
       (snd (snd (hd (late_inputs d0 d1 bs @ [late_first d0 d1 bs])))) (tl (late_inputs d0 d1 bs @ [late_first d0 d1 bs]))"
proof -
  have len: "length bs \<le> 4095" using set by (simp add: settles_def)
  note o = late_owns [OF port bs len quiet, folded k_def]
  let ?s = "syn_segment d0 d1 ty"
    and ?qs = "[(demo_frame d0 d1 253 (drop 20 bs), 7, 8), (short_packet, 9, 10 :: u64)]"
  have ty: "l2l4_type ?s = ty" by (simp add: syn_segment_def demo_cut_def cut_segment_def)
  have "scan_request ty [] = (REASSEMBLY_PENDING, None)"
    using set unfolding settles_def by (metis append_Nil)
  moreover obtain st r where v: "flow_state_update (new_flow ty) ?s 6 = Some (st, r)"
    "answer r = scan_request ty []"
    by (rule syn_leaves_open)
  ultimately have u: "flow_state_update (new_flow (l2l4_type ?s)) ?s 6 = Some (st, r)"
    "ur_status r \<noteq> REASSEMBLY_GIVE_UP"
    unfolding ty by (simp_all add: answer_def)
  have ps: "late_inputs d0 d1 bs = (demo_syn d0 d1, 5, 6) # ?qs" by (simp add: late_inputs_def)
  have m: "\<forall>x \<in> set ((demo_syn d0 d1, 5, 6) # ?qs @ [late_first d0 d1 bs]). mbuf_ok (fst x)"
    using o(6) unfolding ps by simp
  have al: "alive k 100 6 (?qs @ [late_first d0 d1 bs])" using o(2,3) by (simp add: late_first_def)
  then have "alive k (ft_timeout_cycles (wk_ft demo_worker))
       (snd (snd (hd (late_inputs d0 d1 bs @ [late_first d0 d1 bs])))) (tl (late_inputs d0 d1 bs @ [late_first d0 d1 bs]))"
    unfolding ps by (simp add: demo_worker_def empty_table_def)
  note fin = that [unfolded ps, OF _ _ _ _ this [unfolded ps]]
  have w0: "wk_ft demo_worker = empty_table 100" "wk_fwd demo_worker = []" by (simp_all add: demo_worker_def)
  show ?thesis
    by (rule flow_session [OF demo_facts_env(1) [OF env(1,2)] env(1,3) demo_facts_env(2) [OF env(1,2)] w0
          o(1) u o(4) m _ al]) (simp, rule fin)
qed

section \<open>Properties\<close>

text \<open>
  C3: an HTTP request gets the verdict the rules give it, in whatever order its bytes arrive. Start
  with a flow that is not in the table. Its packets, between any other traffic and any number of
  bursts, are packets without payload, such as the SYN of the handshake, and segments that carry the
  request in any order, the last part first if need be, with overlaps and duplicates, inside one
  window of \<open>FLOW_BUF_CAP - 1\<close> bytes. What arrives before the segment with the first byte must not
  itself read like a request: else it is the one that is scanned. The flow is never idle beyond the
  timeout, finds room in the table, and the scan does not fail. Then the packet that completes the
  request line, the header lines and the Host line, and every later packet of the flow, is dropped
  if and only if \<open>http://\<close>, host and URI, cut to the scan buffer, match a DROP rule for HTTP, and the
  flow remembers this verdict.
\<close>

theorem request_gets_its_verdict:
  assumes "rte_hash_contract (we_hash env) ok keys slots" and "loaded_env env matches fits lines"
    and "worker_inv ok keys env w" and "flow_of keys (wk_ft w) k = None"
    and "flow_begins env keys k w ps w'" and "\<forall>q \<in> set (ps @ [p]). mbuf_ok (fst q)"
    and "alive k (ft_timeout_cycles (wk_ft w)) (snd (snd (hd (ps @ [p])))) (tl (ps @ [p]))"
    and "own k p = Some (l, now)" and "l2l4_type l = TRAFFIC_HTTP"
    and "length (wk_fwd w') < BURST_SIZE" and "worker_packet env w' p = Some w''"
    and "flow_of keys (wk_ft w'') k \<noteq> None"
    and "request_ok m uri version hdrs name host"
    and "req = request_head m uri version hdrs @ host_line name n host"
    and "completes TRAFFIC_HTTP k T base req (ps @ [p])" and "length req \<le> FLOW_BUF_CAP - 1"
    and "url = take (FLOW_SCAN_BUF_CAP - 1) (ascii ''http://'' @ host @ uri)"
    and "\<not> scan_failed (we_hs env) (we_engine env) (we_scratch env) TRAFFIC_HTTP url"
  shows "\<exists>a no_sni ft st. w'' = account env w' (fst p) TRAFFIC_HTTP no_sni a ft \<and>
    (a = ACTION_DROP \<longleftrightarrow> drop_rule matches (typed_lines lines TRAFFIC_HTTP) url) \<and>
    flow_of keys (wk_ft w'') k = Some st \<and> st_verdict_cached st \<and> st_cached_action st = a"
proof -
  have "settles TRAFFIC_HTTP req url"
    unfolding assms(17) by (rule http_settles [OF assms(13,14,16)])
  then show ?thesis
    using flow_gets_verdict [OF assms(1-8,10-12)] assms(9,15,18) by simp
qed

text \<open>
  A connection with its SYN, the request cut inside its Host line, the second half before the first
  and garbage between them: the first half, which completes the request, is freed.
\<close>

theorem request_gets_its_verdict_witness:
  "\<exists>(env :: (slot_hash, literal_db, unit) worker_env) w' w'' req.
     req = ascii ''GET / HTTP/1.1'' @ crlf @ ascii ''Host: malware.com'' @ crlf \<and>
     loaded_env env literal_matches (\<lambda>s d. True)
       [\<lparr>rule_type = TRAFFIC_HTTP, rule_pattern = ascii ''malware'', rule_action = ACTION_DROP\<rparr>] \<and>
     flow_begins env slot_keys (frame_key 0 80) demo_worker (late_inputs 0 80 req) w' \<and>
     worker_packet env w' (late_first 0 80 req) = Some w'' \<and>
     wk_freed w'' = wk_freed w' @ [fst (late_first 0 80 req)]"
proof -
  let ?r = "\<lparr>rule_type = TRAFFIC_HTTP, rule_pattern = ascii ''malware'', rule_action = ACTION_DROP\<rparr>"
  let ?m = "ascii ''GET ''" and ?uri = "ascii ''/''" and ?v = "ascii ''HTTP/1.1''"
    and ?name = "ascii ''Host:''" and ?host = "ascii ''malware.com''"
  define req where "req = ascii ''GET / HTTP/1.1'' @ crlf @ ascii ''Host: malware.com'' @ crlf"
  have ok: "request_ok ?m ?uri ?v [] ?name ?host"
    by (simp add: request_ok_def line_ok_def http_methods_def ascii_def)
  have req: "req = request_head ?m ?uri ?v [] @ host_line ?name 1 ?host"
    by (simp add: req_def request_head_def host_line_def ascii_def)
  have len: "length req = 35" by (simp add: req_def ascii_def crlf_def)
  have len': "20 < length req" "length req \<le> 4095" using len by simp_all
  have short: "length req \<le> 4096 - 1" using len by simp
  define url where "url = take (512 - 1) (ascii ''http://'' @ ?host @ ?uri)"
  have "url = ascii ''http://malware.com/''" by (simp add: url_def ascii_def)
  moreover have "literal_matches (ascii ''malware'') n (ascii ''http://malware.com/'')" for n
    unfolding literal_matches_def by (rule exI [of _ 7]) (simp add: ascii_def)
  ultimately have drop: "drop_rule literal_matches (typed_lines [?r] TRAFFIC_HTTP) url"
    by (simp add: drop_rule_def typed_lines_def)
  have port: "classify_port (be16 0 80) = Some TRAFFIC_HTTP" by (simp add: classify_port_def be16_def)
  have "req ! 20 = 58" by (simp add: req_def ascii_def crlf_def)
  then have "stream_of 1001 req 1021 \<notin> hd ` set http_methods"
    using len by (simp add: stream_of_def Let_def http_methods_def ascii_def)
  then have quiet: "silent TRAFFIC_HTTP (stream_of 1001 req) 1001 (demo_cut 0 80 TRAFFIC_HTTP req 20 (length req - 20))"
    by (intro http_silent) (simp_all add: demo_cut_def cut_segment_def demo_segment_def)
  have "rule_ok ?r" by (simp add: rule_ok_def ascii_def)
  then obtain env :: "(slot_hash, literal_db, unit) worker_env" where env: "we_hash env = slot_ops"
    "we_lcore env = 1" "we_hs env = literal_hs" "loaded_env env literal_matches (\<lambda>s d. True) [?r]"
    by (rule one_rule_env)
  obtain w' w'' where s: "flow_begins env slot_keys (frame_key 0 80) demo_worker (late_inputs 0 80 req) w'"
    "length (wk_fwd w') < 32" "worker_packet env w' (late_first 0 80 req) = Some w''"
    "flow_of slot_keys (wk_ft w'') (frame_key 0 80) \<noteq> None"
    "alive (frame_key 0 80) (ft_timeout_cycles (wk_ft demo_worker)) (snd (snd (hd (late_inputs 0 80 req @ [late_first 0 80 req]))))
       (tl (late_inputs 0 80 req @ [late_first 0 80 req]))"
    by (rule late_session [OF env(1,2) loaded_safe [OF env(4)] port len'(1) http_settles [OF ok req short] quiet])
  note o = late_owns [OF port len' quiet] and d = demo_facts_env [OF env(1,2)]
  have "\<exists>a no_sni ft st. w'' = account env w' (fst (late_first 0 80 req)) TRAFFIC_HTTP no_sni a ft \<and>
      (a = ACTION_DROP \<longleftrightarrow> drop_rule literal_matches (typed_lines [?r] TRAFFIC_HTTP) url) \<and>
      flow_of slot_keys (wk_ft w'') (frame_key 0 80) = Some st \<and> st_verdict_cached st \<and>
      st_cached_action st = a"
    by (rule request_gets_its_verdict [OF d(1) env(4) d(2,3) s(1) o(6) s(5) o(4)
          demo_cut_type s(2-4) ok req o(5) short url_def])
      (simp add: env(3) literal_never_fails)
  then have "wk_freed w'' = wk_freed w' @ [fst (late_first 0 80 req)]"
    using drop by (auto simp: account_def)
  then show ?thesis using env(4) s(1,3) req_def by blast
qed

text \<open>
  C4: a ClientHello gets the verdict the rules give its server name, under the same conditions: with
  packets without payload, such as the SYN, among them, and its segments in any order inside one
  window, where what arrives before the first byte does not itself read like a ClientHello. From the
  packet that completes it on, the flow's packets are dropped if and only if \<open>HOST://\<close> and the name
  match a DROP rule for HTTPS.
\<close>

theorem client_hello_gets_its_verdict:
  assumes "rte_hash_contract (we_hash env) ok keys slots" and "loaded_env env matches fits lines"
    and "worker_inv ok keys env w" and "flow_of keys (wk_ft w) k = None"
    and "flow_begins env keys k w ps w'" and "\<forall>q \<in> set (ps @ [p]). mbuf_ok (fst q)"
    and "alive k (ft_timeout_cycles (wk_ft w)) (snd (snd (hd (ps @ [p])))) (tl (ps @ [p]))"
    and "own k p = Some (l, now)" and "l2l4_type l = TRAFFIC_HTTPS"
    and "length (wk_fwd w') < BURST_SIZE" and "worker_packet env w' p = Some w''"
    and "flow_of keys (wk_ft w'') k \<noteq> None"
    and "hello_head_ok r h vr sid ciphers compr" and "\<forall>x \<in> set before. ext_ok x \<and> fst x \<noteq> 0"
    and "exts = enc_exts before @ enc_ext (0, enc_sni ll host others) @ after"
    and "hello = hello_head r h vr sid ciphers compr @ enc16 (length exts) @ exts"
    and "completes TRAFFIC_HTTPS k T base hello (ps @ [p])" and "length hello \<le> FLOW_BUF_CAP - 1"
    and "sni = take (FLOW_SCAN_BUF_CAP - 1) (ascii ''HOST://'' @ takeWhile (\<lambda>b. b \<noteq> 0) host)"
    and "\<not> scan_failed (we_hs env) (we_engine env) (we_scratch env) TRAFFIC_HTTPS sni"
  shows "\<exists>a no_sni ft st. w'' = account env w' (fst p) TRAFFIC_HTTPS no_sni a ft \<and>
    (a = ACTION_DROP \<longleftrightarrow> drop_rule matches (typed_lines lines TRAFFIC_HTTPS) sni) \<and>
    flow_of keys (wk_ft w'') k = Some st \<and> st_verdict_cached st \<and> st_cached_action st = a"
proof -
  have "settles TRAFFIC_HTTPS hello sni"
    unfolding assms(19) by (rule tls_settles [OF assms(13-16,18)])
  then show ?thesis
    using flow_gets_verdict [OF assms(1-8,10-12)] assms(9,17,20) by simp
qed

text \<open>
  A connection with its SYN and a ClientHello in two frames, the one with the blocked name first: the
  frame that completes the ClientHello is freed.
\<close>

theorem client_hello_gets_its_verdict_witness:
  "\<exists>(env :: (slot_hash, literal_db, unit) worker_env) w' w'' hello.
     hello = demo_hello demo_sni \<and>
     loaded_env env literal_matches (\<lambda>s d. True)
       [\<lparr>rule_type = TRAFFIC_HTTPS, rule_pattern = ascii ''gambling'', rule_action = ACTION_DROP\<rparr>] \<and>
     flow_begins env slot_keys (frame_key 1 187) demo_worker (late_inputs 1 187 hello) w' \<and>
     worker_packet env w' (late_first 1 187 hello) = Some w'' \<and>
     wk_freed w'' = wk_freed w' @ [fst (late_first 1 187 hello)]"
proof -
  let ?r = "\<lparr>rule_type = TRAFFIC_HTTPS, rule_pattern = ascii ''gambling'', rule_action = ACTION_DROP\<rparr>"
  let ?host = "ascii ''bad-gambling.net''"
  define hello where "hello = demo_hello demo_sni"
  have h: "hello = hello_head [3, 1, 0, 80] [0, 0, 76] (replicate 34 7) [9, 9] [19, 1] [0] @
      enc16 (length demo_sni) @ demo_sni"
    by (simp add: hello_def demo_hello_def demo_head_def)
  have x: "\<forall>x \<in> set [(10, [0, 2])]. ext_ok x \<and> fst x \<noteq> 0" by (simp add: ext_ok_def)
  have len': "20 < length hello" "length hello \<le> 4095" by (simp_all add: hello_def demo_lengths)
  have short: "length hello \<le> 4096 - 1" using len'(2) by simp
  define sni where "sni = take (512 - 1) (ascii ''HOST://'' @ takeWhile (\<lambda>b. b \<noteq> 0) ?host)"
  have "sni = ascii ''HOST://bad-gambling.net''" by (simp add: sni_def ascii_def)
  moreover have "literal_matches (ascii ''gambling'') n (ascii ''HOST://bad-gambling.net'')" for n
    unfolding literal_matches_def by (rule exI [of _ 11]) (simp add: ascii_def)
  ultimately have drop: "drop_rule literal_matches (typed_lines [?r] TRAFFIC_HTTPS) sni"
    by (simp add: drop_rule_def typed_lines_def)
  have port: "classify_port (be16 1 187) = Some TRAFFIC_HTTPS" by (simp add: classify_port_def be16_def)
  have "hello ! 20 = 7" by (simp add: hello_def demo_hello_def demo_head_def hello_head_def nth_append)
  then have "stream_of 1001 hello 1021 \<noteq> 0x16" using len'(1) by (simp add: stream_of_def Let_def)
  then have quiet: "silent TRAFFIC_HTTPS (stream_of 1001 hello) 1001
      (demo_cut 1 187 TRAFFIC_HTTPS hello 20 (length hello - 20))"
    by (intro tls_silent) (simp_all add: demo_cut_def cut_segment_def demo_segment_def)
  have "rule_ok ?r" by (simp add: rule_ok_def ascii_def)
  then obtain env :: "(slot_hash, literal_db, unit) worker_env" where env: "we_hash env = slot_ops"
    "we_lcore env = 1" "we_hs env = literal_hs" "loaded_env env literal_matches (\<lambda>s d. True) [?r]"
    by (rule one_rule_env)
  obtain w' w'' where s: "flow_begins env slot_keys (frame_key 1 187) demo_worker (late_inputs 1 187 hello) w'"
    "length (wk_fwd w') < 32" "worker_packet env w' (late_first 1 187 hello) = Some w''"
    "flow_of slot_keys (wk_ft w'') (frame_key 1 187) \<noteq> None"
    "alive (frame_key 1 187) (ft_timeout_cycles (wk_ft demo_worker)) (snd (snd (hd (late_inputs 1 187 hello @ [late_first 1 187 hello]))))
       (tl (late_inputs 1 187 hello @ [late_first 1 187 hello]))"
    by (rule late_session [OF env(1,2) loaded_safe [OF env(4)] port len'(1)
          tls_settles [OF demo_head_ok x demo_sni_def h short] quiet])
  note o = late_owns [OF port len' quiet] and d = demo_facts_env [OF env(1,2)]
  have "\<exists>a no_sni ft st. w'' = account env w' (fst (late_first 1 187 hello)) TRAFFIC_HTTPS no_sni a ft \<and>
      (a = ACTION_DROP \<longleftrightarrow> drop_rule literal_matches (typed_lines [?r] TRAFFIC_HTTPS) sni) \<and>
      flow_of slot_keys (wk_ft w'') (frame_key 1 187) = Some st \<and> st_verdict_cached st \<and>
      st_cached_action st = a"
    by (rule client_hello_gets_its_verdict [OF d(1) env(4) d(2,3) s(1) o(6) s(5) o(4)
          demo_cut_type s(2-4) demo_head_ok x demo_sni_def h o(5) short sni_def])
      (simp add: env(3) literal_never_fails)
  then have "wk_freed w'' = wk_freed w' @ [fst (late_first 1 187 hello)]"
    using drop by (auto simp: account_def)
  then show ?thesis using env(4) s(1,3) hello_def by blast
qed

text \<open>
  C8: flows are isolated. Whatever a worker handles from the first packet of a flow on, the next packet
  of the flow gets the action and the counters that the machine of this one flow, started empty and
  fed with the flow's own packets alone, says; and the flow's entry is the machine's state. No other
  flow, no garbage, no sweep and no burst boundary has any influence.
\<close>

theorem flow_isolation:
  assumes "rte_hash_contract (we_hash env) ok keys slots" and "scan_safe env"
    and "worker_inv ok keys env w" and "flow_of keys (wk_ft w) k = None"
    and "flow_begins env keys k w ps w'" and "\<forall>q \<in> set (ps @ [p]). mbuf_ok (fst q)"
    and "alive k (ft_timeout_cycles (wk_ft w)) (snd (snd (hd (ps @ [p])))) (tl (ps @ [p]))"
    and "own k p = Some (l, now)"
    and "length (wk_fwd w') < BURST_SIZE" and "worker_packet env w' p = Some w''"
    and "flow_of keys (wk_ft w'') k \<noteq> None"
  shows "\<exists>st st' no_sni a ft. flow_tracks env (new_flow (l2l4_type l)) (owns k ps) = Some st \<and>
    flow_track env st (l, now) = Some (st', no_sni, a) \<and>
    w'' = account env w' (fst p) (l2l4_type l) no_sni a ft \<and> flow_of keys (wk_ft w'') k = Some st'"
  by (rule fresh_flow_tracks [OF assms]) blast

text \<open>The two halves of a request with garbage between them, on a worker without rules.\<close>

theorem flow_isolation_witness:
  "\<exists>w' w'' st st' no_sni a. let bs = ascii ''GET / HTTP/1.1'' @ crlf @ ascii ''Host: malware.com'' @ crlf in
     flow_begins demo_env slot_keys (frame_key 0 80) demo_worker (demo_inputs 0 80 bs) w' \<and>
     worker_packet demo_env w' (demo_last 0 80 bs) = Some w'' \<and>
     flow_tracks demo_env (new_flow TRAFFIC_HTTP) [(demo_cut 0 80 TRAFFIC_HTTP bs 0 20, 6)] = Some st \<and>
     flow_track demo_env st (demo_cut 0 80 TRAFFIC_HTTP bs 20 15, 10) = Some (st', no_sni, a) \<and>
     flow_of slot_keys (wk_ft w'') (frame_key 0 80) = Some st'"
proof -
  define bs where "bs = ascii ''GET / HTTP/1.1'' @ crlf @ ascii ''Host: malware.com'' @ crlf"
  have ok: "request_ok (ascii ''GET '') (ascii ''/'') (ascii ''HTTP/1.1'') []
      (ascii ''Host:'') (ascii ''malware.com'')"
    by (simp add: request_ok_def line_ok_def http_methods_def ascii_def)
  have req: "bs = request_head (ascii ''GET '') (ascii ''/'') (ascii ''HTTP/1.1'') [] @
      host_line (ascii ''Host:'') 1 (ascii ''malware.com'')"
    by (simp add: bs_def request_head_def host_line_def ascii_def)
  have len: "length bs = 35" by (simp add: bs_def ascii_def crlf_def)
  have len': "20 < length bs" "length bs \<le> 4095" "length bs \<le> 4096 - 1" using len by simp_all
  have port: "classify_port (be16 0 80) = Some TRAFFIC_HTTP" by (simp add: classify_port_def be16_def)
  have env: "we_hash demo_env = slot_ops" "we_lcore demo_env = 1" by (simp_all add: demo_env_def)
  obtain w' w'' where s: "flow_begins demo_env slot_keys (frame_key 0 80) demo_worker (demo_inputs 0 80 bs) w'"
    "length (wk_fwd w') < 32" "worker_packet demo_env w' (demo_last 0 80 bs) = Some w''"
    "flow_of slot_keys (wk_ft w'') (frame_key 0 80) \<noteq> None"
    by (rule demo_session [OF env demo_facts(1) port len'(1) http_settles [OF ok req len'(3)]])
  note o = demo_owns [OF port len'(1,2)] and d = demo_facts_env [OF env]
  have os: "owns (frame_key 0 80) (demo_inputs 0 80 bs) = [(demo_cut 0 80 TRAFFIC_HTTP bs 0 20, 6)]"
    using o(1,2) by (simp add: demo_inputs_def map_filter_simps)
  obtain st st' no_sni a where t: "flow_tracks demo_env (new_flow TRAFFIC_HTTP)
      (owns (frame_key 0 80) (demo_inputs 0 80 bs)) = Some st"
    "flow_track demo_env st (demo_cut 0 80 TRAFFIC_HTTP bs 20 (length bs - 20), 10) = Some (st', no_sni, a)"
    "flow_of slot_keys (wk_ft w'') (frame_key 0 80) = Some st'"
    using flow_isolation [OF d(1) demo_facts(1) d(2,3) s(1) o(5) demo_alive [OF port len'(1,2)] o(3) s(2-4)]
    by auto
  have "flow_track demo_env st (demo_cut 0 80 TRAFFIC_HTTP bs 20 15, 10) = Some (st', no_sni, a)"
    using t(2) len by simp
  then show ?thesis unfolding Let_def bs_def [symmetric] using s(1,3) t(1,3) os by metis
qed

end
