(* ===== verification/Blocking.thy ===== *)
theory Blocking
  imports Pipeline Request_Verdicts
begin

text \<open>
  Isolation and blocking in the running system. While the bucket of a flow stays with its worker, what
  gets past the inspection of the flow's packets is what the machine of this flow lets through, for
  every interleaving of the threads and whatever the other flows do; a flow with the verdict DROP gets
  no packet through any more. Only a round of the statistics thread that finds the bucket idle moves
  it; without rebalancing it never moves.
\<close>

section \<open>What the machine lets through\<close>

fun passes ::
  "('h, 'd, 's) worker_env \<Rightarrow> flow_key \<Rightarrow> flow_state \<Rightarrow> (rte_mbuf \<times> u64 \<times> u64) list \<Rightarrow> rte_mbuf list" where
  "passes env k st [] = []"
| "passes env k st (p # ps) =
     (case own k p of None \<Rightarrow> passes env k st ps
      | Some q \<Rightarrow> (case flow_track env st q of None \<Rightarrow> []
         | Some (st', no_sni, a) \<Rightarrow> (if a = ACTION_DROP then [] else [fst p]) @ passes env k st' ps))"

lemma passes_append:
  "flow_tracks env st (owns k ps) = Some st' \<Longrightarrow>
   passes env k st (ps @ qs) = passes env k st ps @ passes env k st' qs"
  by (induction ps arbitrary: st) (auto simp: map_filter_simps split: option.splits Option.bind_splits)

lemma passes_blocked:
  assumes "st_verdict_cached st" "st_cached_action st = ACTION_DROP"
  shows "passes env k st ps = []"
  using assms
proof (induction ps arbitrary: st)
  case (Cons p ps)
  then show ?case
    by (auto simp: flow_track_def flow_state_update_cached verdict_of_def answer_def decides_def
        split: option.split)
qed simp

lemma passes_own: "set (passes env k st ps) \<subseteq> {pkt. of_flow k pkt}"
proof (induction ps arbitrary: st)
  case (Cons p ps)
  have "of_flow k (fst p)" if "own k p \<noteq> None" using that own_None [of k p] by simp
  then show ?case using Cons.IH by (auto split: option.splits)
qed simp

text \<open>From the packet that completes a blocked request on, the machine lets nothing through.\<close>

lemma passes_until_blocked:
  fixes env :: "('h, 'd, 's) worker_env"
  assumes set: "settles ty req str" "scan_verdict env ty str = ACTION_DROP"
    and T: "map (\<lambda>i. T (base + of_nat i)) [0..<length req] = req"
    and st: "on_track T base req ACTION_DROP ls st" "\<exists>l \<in> set ls. covers l base"
    and own: "own k p = Some (l, now)"
    and segs: "\<forall>q \<in> set (owns k (ps @ [p])). seg_of T base (fst q) \<and> l2l4_type (fst q) = ty"
    and cov: "\<forall>i < length req. \<exists>l \<in> set ls \<union> fst ` set (owns k (ps @ [p])). covers l (base + of_nat i)"
  shows "passes env k st (ps @ p # rest) = passes env k st ps"
proof -
  have e: "owns k (ps @ [p]) = owns k ps @ [(l, now)]" using own by (simp add: List.map_filter_def)
  obtain st1 where t1: "flow_tracks env st (owns k ps) = Some st1"
    "on_track T base req ACTION_DROP (rev (map fst (owns k ps)) @ ls) st1"
    using tracks_all [OF set T st(1), of "owns k ps"] st(2) segs seg_part e by auto
  let ?ls = "rev (map fst (owns k ps)) @ ls"
  have "no_decoy ty T base (l # ?ls)" "part_of T base l" "l2l4_type l = ty"
    using st(2) segs seg_part e by (auto simp: no_decoy_def)
  then obtain st2 no_sni b where t2: "flow_track env st1 (l, now) = Some (st2, no_sni, b)"
    "on_track T base req ACTION_DROP (l # ?ls) st2" "st_verdict_cached st2 \<longrightarrow> b = ACTION_DROP"
    using track_step [OF set T t1(2), of l now] by blast
  have req: "req \<noteq> []" "length req \<le> 4096 - 1" using set(1) by (simp_all add: settles_def)
  have "set ls \<union> fst ` set (owns k (ps @ [p])) = set (l # ?ls)" unfolding e by auto
  then have "\<forall>i < length req. \<exists>l' \<in> set (l # ?ls). covers l' (base + of_nat i)" using cov by simp
  then have "st_verdict_cached st2 \<and> st_cached_action st2 = ACTION_DROP"
    by (rule on_track_complete [OF t2(2) req])
  then have "passes env k st2 rest = []" "b = ACTION_DROP" using passes_blocked t2(3) by blast+
  then have "passes env k st1 (p # rest) = []" using own t2(1) by simp
  then show ?thesis using passes_append [OF t1(1), of "p # rest"] by simp
qed

text \<open>The packets of a burst, on a worker that has the flow.\<close>

lemma burst_passes:
  assumes con: "rte_hash_contract (we_hash env) ok keys slots" and safe: "scan_safe env"
    and "worker_inv ok keys env w" "\<forall>p \<in> set ps. mbuf_ok (fst p)"
    and "length (wk_fwd w) + length ps \<le> BURST_SIZE" "flow_of keys (wk_ft w) k = Some st"
    and "alive k (ft_timeout_cycles (wk_ft w)) (st_last_seen_tsc st) ps"
    and "fold_opt (worker_packet env) w ps = Some w'"
  shows "filter (of_flow k) (wk_fwd w') = filter (of_flow k) (wk_fwd w) @ passes env k st ps \<and>
    worker_run env w ps w'"
  using assms(3-8)
proof (induction ps arbitrary: w st)
  case Nil
  then show ?case by (auto intro: run_done)
next
  case (Cons p ps)
  obtain w1 where w1: "worker_packet env w p = Some w1" "fold_opt (worker_packet env) w1 ps = Some w'"
    using Cons.prems(6) by (auto split: Option.bind_splits)
  have room: "length (wk_fwd w) < 32" and m: "mbuf_ok (fst p)" "\<forall>q \<in> set ps. mbuf_ok (fst q)"
    and fresh: "fst (snd p) - st_last_seen_tsc st \<le> ft_timeout_cycles (wk_ft w)"
    using Cons.prems by simp_all
  show ?case
  proof (cases "own k p")
    case None
    note o = worker_packet_other [OF con safe Cons.prems(1) m(1) room Cons.prems(4) fresh None w1(1)]
    have "filter (of_flow k) (wk_fwd w') = filter (of_flow k) (wk_fwd w1) @ passes env k st ps \<and>
        worker_run env w1 ps w'"
      using Cons.prems(3,5) None o(2,5) by (intro Cons.IH [OF o(1) m(2) _ o(3) _ w1(2)]) simp_all
    then show ?thesis using o(4) None run_packet [OF room w1(1)] by simp
  next
    case (Some q)
    obtain l now where q: "own k p = Some (l, now)" using Some by (cases q) simp
    obtain pkt ts where p: "p = (pkt, ts, now)" using ownD(3) [OF q] by (metis prod.collapse)
    have l: "parser_parse_l2_l4 pkt = Some (Some l)" "l2l4_key l = k" "mbuf_ok pkt"
      "ts - st_last_seen_tsc st \<le> ft_timeout_cycles (wk_ft w)"
      using ownD(1,2) [OF q] p m(1) fresh by simp_all
    obtain ft st1 no_sni a where o: "flow_track env st (l, now) = Some (st1, no_sni, a)"
      "worker_packet env w (pkt, ts, now) = Some (account env w pkt (l2l4_type l) no_sni a ft)"
      "table_inv ok keys ft" "ft_timeout_cycles ft = ft_timeout_cycles (wk_ft w)"
      "flow_of keys ft k = Some st1"
      by (rule worker_packet_own [OF con safe Cons.prems(1) l(3) room Cons.prems(4) l(4) l(1,2)])
    have "seg_ok l" using parsed_ok(1) [OF l(1,3)] by (simp add: l2l4_ok_def)
    then have seen: "st_last_seen_tsc st1 = now"
      by (rule flow_track_seen [OF o(1) table_flow_inv [OF Cons.prems(1,4)]])
    have acc: "w1 = account env w pkt (l2l4_type l) no_sni a ft" using o(2) w1(1) p by simp
    have inv1: "worker_inv ok keys env w1" "wk_ft w1 = ft" "length (wk_fwd w1) \<le> Suc (length (wk_fwd w))"
      using o(3) Cons.prems(1) by (auto simp: acc account_def worker_inv_def)
    have "filter (of_flow k) (wk_fwd w') = filter (of_flow k) (wk_fwd w1) @ passes env k st1 ps \<and>
        worker_run env w1 ps w'"
      using Cons.prems(3,5) q o(4,5) inv1(2,3) seen by (intro Cons.IH [OF inv1(1) m(2) _ _ _ w1(2)]) simp_all
    moreover have "of_flow k pkt" using l(1,2) by (auto simp: of_flow_def)
    ultimately show ?thesis
      using q o(1) p run_packet [OF room w1(1)] by (simp add: acc account_def)
  qed
qed

text \<open>An iteration of the worker's loop.\<close>

lemma iteration_passes:
  assumes con: "rte_hash_contract (we_hash env) ok keys slots" and ring: "rte_ring_contract R contents"
    and safe: "scan_safe env" and inv: "worker_inv ok keys env w"
    and m: "\<forall>p \<in> set (contents inr). mbuf_ok p"
    and it: "worker_iteration env R w inr tx clock = Some (w', inr', tx')"
    and st: "flow_of keys (wk_ft w) k = Some st"
  defines "bufs \<equiv> snd (ring_dequeue_burst R inr BURST_SIZE)"
  defines "ps \<equiv> zip bufs (map clock [0..<length bufs])"
  assumes al: "alive k (ft_timeout_cycles (wk_ft w)) (st_last_seen_tsc st) ps"
  obtains st' fwd where "flow_tracks env st (owns k ps) = Some st'" "flow_of keys (wk_ft w') k = Some st'"
    "ft_timeout_cycles (wk_ft w') = ft_timeout_cycles (wk_ft w)"
    "contents tx' = contents tx @ fwd" "prefix (filter (of_flow k) fwd) (passes env k st ps)"
proof -
  obtain inr2 where d: "ring_dequeue_burst R inr 32 = (inr2, bufs)" by (simp add: bufs_def prod_eq_iff)
  have b: "length bufs \<le> 32" "contents inr = bufs @ contents inr2"
    using rte_ring_contract.dequeue [OF ring d] by auto
  show ?thesis
  proof (cases "bufs = []")
    case True
    then have "w' = w" "tx' = tx" "ps = []" using it d by (simp_all add: worker_iteration_def ps_def)
    then show ?thesis using st by (intro that [of st "[]"]) (simp_all add: map_filter_simps)
  next
    case False
    then obtain w1 where w1: "fold_opt (worker_packet env) (w\<lparr>wk_fwd := []\<rparr>) ps = Some w1"
      "worker_flush env R w1 tx = Some (w', tx')"
      using it d by (auto simp: worker_iteration_def ps_def split: Option.bind_splits)
    have inv0: "worker_inv ok keys env (w\<lparr>wk_fwd := []\<rparr>)" using inv by (simp add: worker_inv_def)
    have mp: "\<forall>p \<in> set ps. mbuf_ok (fst p)" using m b(2) by (auto simp: ps_def dest: set_zip_leftD)
    have "length ps \<le> 32" using b(1) by (simp add: ps_def)
    then have p: "filter (of_flow k) (wk_fwd w1) = passes env k st ps"
      "worker_run env (w\<lparr>wk_fwd := []\<rparr>) ps w1"
      using burst_passes [OF con safe inv0 mp _ _ _ w1(1)] st al by simp_all
    obtain st' where r: "worker_inv ok keys env w1" "ft_timeout_cycles (wk_ft w1) = ft_timeout_cycles (wk_ft w)"
      "flow_tracks env st (owns k ps) = Some st'" "flow_of keys (wk_ft w1) k = Some st'"
      using run_tracks [OF p(2) con safe inv0 mp, of k st] st al by auto
    obtain sent where f: "contents tx' = contents tx @ take sent (wk_fwd w1)" "wk_ft w' = wk_ft w1"
      using flush_spec [OF ring, of env w1 tx] r(1) w1(2) by (auto simp: worker_inv_def)
    have "prefix (filter (of_flow k) (take sent (wk_fwd w1))) (filter (of_flow k) (wk_fwd w1))"
      by (metis append_take_drop_id filter_append prefixI)
    then show ?thesis using that r(2-4) f p(1) by simp
  qed
qed

section \<open>Traces of the system\<close>

text \<open>
  The packets that got past the inspection: on the TX ring, on the wire, or freed by the TX thread.
\<close>

definition passed :: "('r \<Rightarrow> rte_mbuf list) \<Rightarrow> ('h, 's, 'r) sys \<Rightarrow> rte_mbuf multiset" where
  "passed contents s = mset (contents (sy_tx s)) + mset (sy_tx_freed s) + mset (sy_wire s)"

text \<open>
  The worker that owns the bucket of a flow, and a state in which the packets of the flow wait for
  worker \<open>i\<close> only.
\<close>

definition bucket_owner :: "('h, 'd, 's, 'r) sys_cfg \<Rightarrow> flow_key \<Rightarrow> ('h, 's, 'r) sys \<Rightarrow> nat" where
  "bucket_owner c k s = unat (bucket_worker (sy_bt s) ! bucket_of (cf_jhash c k))"

definition steered ::
  "('r \<Rightarrow> rte_mbuf list) \<Rightarrow> ('h, 'd, 's, 'r) sys_cfg \<Rightarrow> flow_key \<Rightarrow> nat \<Rightarrow> ('h, 's, 'r) sys \<Rightarrow> bool" where
  "steered contents c k i s \<longleftrightarrow> bucket_owner c k s = i \<and>
     (\<forall>j < sys_workers c. j \<noteq> i \<longrightarrow> (\<forall>p \<in> set (contents (sy_rings s ! j)). \<not> of_flow k p))"

text \<open>
  The steps of the system, with what worker \<open>i\<close> handles and when: its bursts with their clock readings,
  and all steps in which it takes no packet and the bucket of the flow \<open>k\<close> is not moved.
\<close>

inductive sys_trace ::
  "('h, 'd, 's, 'r) sys_cfg \<Rightarrow> flow_key \<Rightarrow> nat \<Rightarrow> ('h, 's, 'r) sys \<Rightarrow> (rte_mbuf \<times> u64 \<times> u64) list \<Rightarrow>
   ('h, 's, 'r) sys \<Rightarrow> bool" for c k i s where
  trace_start: "sys_trace c k i s [] s"
| trace_worker: "sys_trace c k i s ps s1 \<Longrightarrow> \<not> sy_quit s1 \<Longrightarrow> sy_workers s1 ! i = Running (scratch, ft) \<Longrightarrow>
    sys_worker c s1 i scratch ft clock = Some s2 \<Longrightarrow>
    bufs = snd (ring_dequeue_burst (cf_ring c) (sy_rings s1 ! i) BURST_SIZE) \<Longrightarrow>
    sys_trace c k i s (ps @ zip bufs (map clock [0..<length bufs])) s2"
| trace_other: "sys_trace c k i s ps s1 \<Longrightarrow> sys_step c s1 s2 \<Longrightarrow> sy_taken s2 ! i = sy_taken s1 ! i \<Longrightarrow>
    bucket_owner c k s2 = bucket_owner c k s1 \<Longrightarrow> sys_trace c k i s ps s2"

lemma owner_of_flow: "of_flow k p \<Longrightarrow> owner (cf_jhash c) (sy_bt s) p = bucket_owner c k s"
  by (auto simp: of_flow_def owner_def bucket_owner_def packet_hash_def parser_parse_l2_l4_def)

section \<open>The bucket of a flow\<close>

text \<open>What a burst of the RX thread adds to the rings.\<close>

lemma sys_rx_rings:
  assumes cfg: "cfg_ok ok keys slots contents matches fits c" and inv: "sys_inv ok keys contents c s"
    and b: "length bufs \<le> BURST_SIZE" and run: "sys_rx c s bufs now = Some s'"
  obtains sent where "bucket_worker (sy_bt s') = bucket_worker (sy_bt s)"
    "\<forall>w < sys_workers c. contents (sy_rings s' ! w) = contents (sy_rings s ! w) @
       take (sent w) (filter (\<lambda>p. owner (cf_jhash c) (sy_bt s) p = w) bufs)"
proof -
  let ?n = "sys_workers c" and ?lc = "la_rx_lcore (cf_launch c)" and ?j = "cf_jhash c"
  let ?row = "\<lambda>w. filter (\<lambda>p. owner ?j (sy_bt s) p = w) bufs"
  have ring: "rte_ring_contract (cf_ring c) contents" using cfg by (simp add: cfg_ok_def)
  have wf: "buckets_inv ?n (sy_bt s)" "?n \<le> length (ro_rings (rx_at s))" "?lc < length (ro_stats (rx_at s))"
    using inv cfg_lcores(3,7) [OF cfg] by (simp_all add: sys_defs rx_at_def)
  obtain bt' out sent where o: "rx_iteration ?j (cf_ring c) ?lc ?n bufs now (sy_bt s) (rx_at s) = Some (bt', out)"
    "bucket_worker bt' = bucket_worker (sy_bt s)"
    "\<And>w. w < ?n \<Longrightarrow> sent w \<le> length (?row w) \<and>
       contents (ro_rings out ! w) = contents (ro_rings (rx_at s) ! w) @ take (sent w) (?row w)"
    by (rule rx_iteration_spec [OF ring wf(1) cfg_lcores(2) [OF cfg] b wf(2,3), of ?j now]) blast
  have "sy_bt s' = bt'" "sy_rings s' = ro_rings out" using run o(1) by (auto simp: sys_rx_def)
  then show ?thesis using that [of sent] o(2,3) by (simp add: rx_at_def)
qed

text \<open>A step that leaves the bucket where it is leaves the packets of the flow with its worker.\<close>

lemma steered_step:
  assumes cfg: "cfg_ok ok keys slots contents matches fits c"
    and "sys_step c s s'" "sys_inv ok keys contents c s" "steered contents c k i s"
    and "bucket_owner c k s' = bucket_owner c k s"
  shows "steered contents c k i s'"
  using assms(2-5)
proof (induction rule: sys_step_induct)
  case (step_rx s bufs now s')
  obtain sent where r: "\<forall>w < sys_workers c. contents (sy_rings s' ! w) = contents (sy_rings s ! w) @
       take (sent w) (filter (\<lambda>p. owner (cf_jhash c) (sy_bt s) p = w) bufs)"
    by (rule sys_rx_rings [OF cfg step_rx.prems(1) step_rx.hyps(3,5)])
  have "\<not> of_flow k p" if "p \<in> set (take (sent j) (filter (\<lambda>p. owner (cf_jhash c) (sy_bt s) p = j) bufs))" "j \<noteq> i" for p j
    using in_set_takeD [OF that(1)] that(2) owner_of_flow [of k p c s] step_rx.prems(2) by (auto simp: steered_def)
  then show ?case using r step_rx.prems(2,3) by (auto simp: steered_def)
next
  case (step_worker s j scratch ft clock s')
  obtain ft' r' tx' bufs x dr where o:
    "s' = s\<lparr>sy_workers := (sy_workers s)[j := Running (scratch, ft')],
       sy_stats := (sy_stats s)[la_worker_lcores (cf_launch c) ! j := x], sy_freed := sy_freed s @ dr,
       sy_rings := (sy_rings s)[j := r'], sy_tx := tx', sy_taken := (sy_taken s)[j := sy_taken s ! j @ bufs]\<rparr>"
    "contents (sy_rings s ! j) = bufs @ contents r'"
    using sys_worker_burst [OF cfg step_worker.prems(1) step_worker.hyps(2,3), of clock] step_worker.hyps(4)
    by (metis option.inject)
  have "set (contents (sy_rings s' ! n)) \<subseteq> set (contents (sy_rings s ! n))" if "n < sys_workers c" for n
    using that o step_worker.prems(1) by (cases "n = j") (auto simp: sys_defs)
  then show ?case using step_worker.prems(2,3) unfolding steered_def by blast
next
  case (step_worker_start j s zt zs)
  then show ?case by (simp add: steered_def sys_worker_start_def split: prod.splits)
qed (auto simp: steered_def sys_tx_def sys_stats_def sys_stats_start_def split: Option.bind_splits)

text \<open>A burst of another worker has no packet of the flow.\<close>

lemma other_worker_passes:
  assumes cfg: "cfg_ok ok keys slots contents matches fits c" and inv: "sys_inv ok keys contents c s"
    and st: "steered contents c k i s"
    and j: "j < sys_workers c" "j \<noteq> i" "sy_workers s ! j = Running (scratch, ft)"
    and run: "sys_worker c s j scratch ft clock = Some s'"
  shows "filter_mset (of_flow k) (passed contents s') = filter_mset (of_flow k) (passed contents s)"
    and "n \<noteq> j \<Longrightarrow> sy_workers s' ! n = sy_workers s ! n"
proof -
  obtain ft' r' tx' bufs fwd dr x where o:
    "s' = s\<lparr>sy_workers := (sy_workers s)[j := Running (scratch, ft')],
       sy_stats := (sy_stats s)[la_worker_lcores (cf_launch c) ! j := x], sy_freed := sy_freed s @ dr,
       sy_rings := (sy_rings s)[j := r'], sy_tx := tx', sy_taken := (sy_taken s)[j := sy_taken s ! j @ bufs]\<rparr>"
    "contents (sy_rings s ! j) = bufs @ contents r'"
    "contents tx' = contents (sy_tx s) @ fwd" "mset fwd + mset dr = mset bufs"
    using sys_worker_burst [OF cfg inv j(1,3), of clock] run by (metis option.inject)
  have "\<not> of_flow k p" if "p \<in> set bufs" for p
    using st j(1,2) that o(2) by (auto simp: steered_def)
  then have "\<not> of_flow k p" if "p \<in> set fwd" for p
    using o(4) that by (metis set_mset_mset union_iff)
  then have "filter_mset (of_flow k) (mset fwd) = {#}"
    by (simp add: filter_empty_conv flip: mset_filter)
  then show "filter_mset (of_flow k) (passed contents s') = filter_mset (of_flow k) (passed contents s)"
    using o(1,3) by (simp add: passed_def)
  show "n \<noteq> j \<Longrightarrow> sy_workers s' ! n = sy_workers s ! n" using o(1) by simp
qed

text \<open>Whatever has the flow's table, the TX thread only moves packets on.\<close>

lemma sys_tx_passed:
  assumes cfg: "cfg_ok ok keys slots contents matches fits c" and inv: "sys_inv ok keys contents c s"
    and nic: "\<forall>bufs. nic_tx bufs \<le> length bufs" and run: "sys_tx c s nic_tx = Some s'"
  shows "passed contents s' = passed contents s" "sy_workers s' = sy_workers s"
proof -
  let ?lc = "la_tx_lcore (cf_launch c)"
  have ring: "rte_ring_contract (cf_ring c) contents" using cfg by (simp add: cfg_ok_def)
  have lc: "?lc < length (sy_stats s)"
    using inv cfg_lcores(7) [OF cfg cfg_lcores(4) [OF cfg]] by (simp add: sys_defs)
  obtain tx' t' bufs where o: "tx_iteration (cf_ring c) nic_tx ?lc (sy_tx s) (sy_stats s) (sy_wire s)
      (sy_tx_freed s) = Some (tx', t', sy_wire s @ take (nic_tx bufs) bufs,
        sy_tx_freed s @ drop (nic_tx bufs) bufs)"
    "contents (sy_tx s) = bufs @ contents tx'"
    by (rule tx_iteration_spec [OF ring nic lc, of "sy_tx s" "sy_wire s" "sy_tx_freed s"])
  show "passed contents s' = passed contents s" "sy_workers s' = sy_workers s"
    using run o take_drop_mset [of "nic_tx bufs" bufs]
    by (auto simp: sys_tx_def passed_def ac_simps)
qed

text \<open>The steps in which worker \<open>i\<close> takes no packet.\<close>

definition thread_kept :: "'x thread \<Rightarrow> 'x thread \<Rightarrow> bool" where
  "thread_kept th th' \<longleftrightarrow> (case th of Starting \<Rightarrow> True | Running x \<Rightarrow> th' = th \<or> th' = Returned
     | Returned \<Rightarrow> th' = Returned)"

lemma thread_kept_refl [simp]: "thread_kept th th"
  by (simp add: thread_kept_def split: thread.split)

lemma other_step_passed:
  fixes c :: "('h, 'd, 's, 'r) sys_cfg"
  assumes cfg: "cfg_ok ok keys slots contents matches fits c"
    and "sys_step c s s'" "sys_inv ok keys contents c s" "i < sys_workers c"
    and "sy_taken s' ! i = sy_taken s ! i" "steered contents c k i s"
  shows "filter_mset (of_flow k) (passed contents s') = filter_mset (of_flow k) (passed contents s) \<and>
    thread_kept (sy_workers s ! i) (sy_workers s' ! i)"
  using assms(2-6)
proof (induction rule: sys_step_induct)
  case (step_worker s j scratch ft clock s')
  show ?case
  proof (cases "j = i")
    case False
    note o = other_worker_passes [OF cfg step_worker.prems(1,4) step_worker.hyps(2) False step_worker.hyps(3,4)]
    show ?thesis using o(1) o(2) [of i] False by simp
  next
    case True
    obtain ring where ring: "rd (sy_rings s) j = Some ring" "ring = sy_rings s ! j"
      using step_worker.prems(1) step_worker.hyps(2) by (simp add: sys_defs mem_simps)
    obtain ring' bufs where d: "ring_dequeue_burst (cf_ring c) ring 32 = (ring', bufs)" by (metis surj_pair)
    have "bufs = []"
      using step_worker.hyps(2,4) step_worker.prems(1,3) ring(1) d True
      by (auto simp: sys_worker_def sys_defs split: Option.bind_splits)
    moreover have "i < length (sy_workers s)" using step_worker.prems(1,2) by (simp add: sys_defs)
    ultimately show ?thesis
      using step_worker.hyps(3,4) ring(1) d True
      by (auto simp: sys_worker_def worker_iteration_def worker_at_def passed_def)
  qed
next
  case (step_tx s nic_tx s')
  note o = sys_tx_passed [OF cfg step_tx.prems(1) step_tx.hyps(3,4)]
  show ?case using o by simp
next
  case (step_rx s bufs now s')
  then show ?case by (auto simp: sys_rx_def passed_def split: Option.bind_splits)
next
  case (step_stats s sl up uc now s')
  then show ?case by (auto simp: sys_stats_def passed_def split: Option.bind_splits)
next
  case (step_stats_start s uninit now s')
  then show ?case by (auto simp: sys_stats_start_def passed_def split: Option.bind_splits)
next
  case (step_worker_start j s zt zs)
  obtain seq live ls r where "worker_thread_start (cf_hs c) (la_engine (cf_launch c)) zt
      (cf_hash_create c) zs (sy_table_seq s) (la_flow_timeout (cf_launch c)) = (seq, live, ls, r)"
    by (metis prod_cases4)
  moreover have "thread_kept Starting th" for th :: "('s option \<times> 'h flow_table) thread"
    by (simp add: thread_kept_def)
  ultimately show ?case
    using step_worker_start.hyps(2)
    by (cases "j = i") (simp_all add: sys_worker_start_def passed_def)
next
  case (step_worker_return s j p)
  then show ?case
    by (cases "j = i") (simp_all add: passed_def thread_kept_def sys_defs)
qed (simp_all add: passed_def)

lemma worker_facts:
  assumes cfg: "cfg_ok ok keys slots contents matches fits c" and inv: "sys_inv ok keys contents c s"
    and i: "i < sys_workers c" and th: "sy_workers s ! i = Running (scratch, ft)"
  defines "env \<equiv> env_of c i scratch"
  shows "rte_hash_contract (we_hash env) ok keys slots" "rte_ring_contract (cf_ring c) contents"
    "scan_safe env" "worker_inv ok keys env (worker_at s ft)"
    "rd (sy_rings s) i = Some (sy_rings s ! i)"
proof -
  show "rte_hash_contract (we_hash env) ok keys slots" "rte_ring_contract (cf_ring c) contents"
    using cfg by (simp_all add: cfg_ok_def env_def env_of_def)
  have len: "length (sy_rings s) = sys_workers c" "length (sy_workers s) = sys_workers c"
    "la_worker_lcores (cf_launch c) ! i < length (sy_stats s)"
    using inv cfg_lcores(7) [OF cfg cfg_lcores(5) [OF cfg i]] by (simp_all add: sys_defs)
  have "worker_ok ok keys c (Running (scratch, ft))"
    using inv th i len(2) by (metis nth_mem sys_inv_def sys_wf_def)
  then have ft: "table_inv ok keys ft"
    "dpi_engine_alloc_scratch (we_hs env) (we_engine env) = Inr (we_scratch env)"
    by (simp_all add: worker_ok_def env_def env_of_def)
  show "scan_safe env" using cfg loaded_scan_safe [OF _ _ ft(2)] by (auto simp: cfg_ok_def env_def env_of_def)
  show "worker_inv ok keys env (worker_at s ft)"
    using ft(1) len(3) by (simp add: worker_inv_def worker_at_def env_def env_of_def)
  show "rd (sy_rings s) i = Some (sy_rings s ! i)" using i len(1) by (simp add: mem_simps)
qed

text \<open>
  The state of the flow at the end of a trace: the worker still runs and its entry is the machine's
  state, or it has returned.
\<close>

definition flow_at ::
  "('h \<Rightarrow> flow_key \<rightharpoonup> nat) \<Rightarrow> flow_key \<Rightarrow> nat \<Rightarrow> 's option \<Rightarrow> u64 \<Rightarrow> flow_state \<Rightarrow>
   ('h, 's, 'r) sys \<Rightarrow> bool" where
  "flow_at keys k i scratch timeout st s \<longleftrightarrow>
     (case sy_workers s ! i of
        Starting \<Rightarrow> False
      | Running (scratch', ft) \<Rightarrow> scratch' = scratch \<and> flow_of keys ft k = Some st \<and>
          ft_timeout_cycles ft = timeout
      | Returned \<Rightarrow> True)"

lemma own_step_passes:
  fixes c :: "('h, 'd, 's, 'r) sys_cfg"
  assumes cfg: "cfg_ok ok keys slots contents matches fits c" and inv: "sys_inv ok keys contents c s"
    and i: "i < sys_workers c" and th: "sy_workers s ! i = Running (scratch, ft)"
    and st: "flow_of keys ft k = Some st" and run: "sys_worker c s i scratch ft clock = Some s'"
  defines "bufs \<equiv> snd (ring_dequeue_burst (cf_ring c) (sy_rings s ! i) BURST_SIZE)"
  defines "qs \<equiv> zip bufs (map clock [0..<length bufs])" and "env \<equiv> env_of c i scratch"
  assumes al: "alive k (ft_timeout_cycles ft) (st_last_seen_tsc st) qs"
  obtains st' M where "sys_inv ok keys contents c s'" "\<forall>p \<in> set qs. mbuf_ok (fst p)"
    "flow_tracks env st (owns k qs) = Some st'" "flow_at keys k i scratch (ft_timeout_cycles ft) st' s'"
    "M \<subseteq># mset (passes env k st qs)"
    "filter_mset (of_flow k) (passed contents s') = filter_mset (of_flow k) (passed contents s) + M"
proof -
  note wf = worker_facts [OF cfg inv i th, folded env_def]
  obtain w' r' tx' where w: "worker_iteration env (cf_ring c) (worker_at s ft) (sy_rings s ! i)
      (sy_tx s) clock = Some (w', r', tx')"
    "sy_tx s' = tx'" "sy_tx_freed s' = sy_tx_freed s" "sy_wire s' = sy_wire s"
    "sy_workers s' = (sy_workers s)[i := Running (scratch, wk_ft w')]"
    using run wf(5) by (auto simp: sys_worker_def env_def split: Option.bind_splits)
  have m: "\<forall>p \<in> set (contents (sy_rings s ! i)). mbuf_ok p" by (rule ordered_mbuf_ok [OF inv i])
  have at: "flow_of keys (wk_ft (worker_at s ft)) k = Some st"
    "ft_timeout_cycles (wk_ft (worker_at s ft)) = ft_timeout_cycles ft" using st by (simp_all add: worker_at_def)
  obtain st' fwd where p: "flow_tracks env st (owns k qs) = Some st'" "flow_of keys (wk_ft w') k = Some st'"
    "ft_timeout_cycles (wk_ft w') = ft_timeout_cycles ft" "contents tx' = contents (sy_tx s) @ fwd"
    "prefix (filter (of_flow k) fwd) (passes env k st qs)"
    using iteration_passes [OF wf(1-4) m w(1) at(1)] al at(2) unfolding qs_def bufs_def by metis
  have inv': "sys_inv ok keys contents c s'" using sys_worker_inv [OF cfg inv i th, of clock] run by auto
  have mq: "\<forall>p \<in> set qs. mbuf_ok (fst p)"
    using m rte_ring_contract.dequeue [OF wf(2), of "sy_rings s ! i" 32]
    by (auto dest!: set_zip_leftD simp: prod_eq_iff qs_def bufs_def)
  have "i < length (sy_workers s)" using inv i by (simp add: sys_defs)
  then have fa: "flow_at keys k i scratch (ft_timeout_cycles ft) st' s'" using w(5) p(2,3) by (simp add: flow_at_def)
  have "passed contents s' = passed contents s + mset fwd" using w(2-4) p(4) by (simp add: passed_def)
  then have "filter_mset (of_flow k) (passed contents s') =
      filter_mset (of_flow k) (passed contents s) + mset (filter (of_flow k) fwd)" by simp
  moreover have "mset (filter (of_flow k) fwd) \<subseteq># mset (passes env k st qs)"
    using p(5) by (auto simp: prefix_def)
  ultimately show ?thesis using that inv' mq p(1) fa by blast
qed

lemma trace_passes:
  fixes c :: "('h, 'd, 's, 'r) sys_cfg"
  assumes cfg: "cfg_ok ok keys slots contents matches fits c"
    and i: "i < sys_workers c"
  assumes "sys_trace c k i s ps s'" "sys_inv ok keys contents c s"
    "flow_at keys k i scratch timeout st s" "flow_inv st" "alive k timeout (st_last_seen_tsc st) ps"
    "steered contents c k i s"
  defines "env \<equiv> env_of c i scratch"
  shows "sys_inv ok keys contents c s' \<and> steered contents c k i s' \<and> (\<forall>p \<in> set ps. mbuf_ok (fst p)) \<and>
    (\<exists>st'. flow_tracks env st (owns k ps) = Some st' \<and> flow_at keys k i scratch timeout st' s') \<and>
    (\<exists>M. M \<subseteq># mset (passes env k st ps) \<and>
       filter_mset (of_flow k) (passed contents s') = filter_mset (of_flow k) (passed contents s) + M)"
  using assms(3-8)
proof (induction rule: sys_trace.induct)
  case trace_start
  then show ?case by (auto simp: map_filter_simps)
next
  case (trace_other ps s1 s2)
  then have IH: "sys_inv ok keys contents c s1" and st1: "steered contents c k i s1" by blast+
  note o = other_step_passed [OF cfg trace_other.hyps(2) IH i trace_other.hyps(3) st1]
  have "flow_at keys k i scratch timeout st' s2" if "flow_at keys k i scratch timeout st' s1" for st'
    using that o by (auto simp: flow_at_def thread_kept_def split: thread.splits)
  then show ?case
    using trace_other.IH [OF trace_other.prems] o sys_step_inv [OF cfg trace_other.hyps(2) IH]
      steered_step [OF cfg trace_other.hyps(2) IH st1 trace_other.hyps(4)] by auto
next
  case (trace_worker ps s1 scratch' ft clock s2 bufs)
  let ?qs = "zip bufs (map clock [0..<length bufs])"
  have al: "alive k timeout (st_last_seen_tsc st) ps" using trace_worker.prems(4) by (simp add: alive_append)
  obtain st1 M where IH: "sys_inv ok keys contents c s1" "\<forall>p \<in> set ps. mbuf_ok (fst p)"
    "flow_tracks env st (owns k ps) = Some st1" "flow_at keys k i scratch timeout st1 s1"
    "M \<subseteq># mset (passes env k st ps)"
    "filter_mset (of_flow k) (passed contents s1) = filter_mset (of_flow k) (passed contents s) + M"
    "steered contents c k i s1"
    using trace_worker.IH [OF trace_worker.prems(1-3) al trace_worker.prems(5)] by blast
  have "bucket_owner c k s2 = bucket_owner c k s1"
    using trace_worker.hyps(4) by (auto simp: sys_worker_def bucket_owner_def split: Option.bind_splits)
  then have st2: "steered contents c k i s2"
    by (rule steered_step [OF cfg step_worker [OF trace_worker.hyps(2) i trace_worker.hyps(3,4)] IH(1,7)])
  have f: "scratch' = scratch" "flow_of keys ft k = Some st1" "ft_timeout_cycles ft = timeout"
    using IH(4) trace_worker.hyps(3) by (simp_all add: flow_at_def)
  have alq: "alive k (ft_timeout_cycles ft) (st_last_seen_tsc st1) ?qs"
    using trace_worker.prems(4) flow_tracks_seen [OF IH(3) trace_worker.prems(3) IH(2)] f(3)
    by (simp add: alive_append)
  obtain st2 M' where p: "sys_inv ok keys contents c s2" "\<forall>p \<in> set ?qs. mbuf_ok (fst p)"
    "flow_tracks env st1 (owns k ?qs) = Some st2" "flow_at keys k i scratch timeout st2 s2"
    "M' \<subseteq># mset (passes env k st1 ?qs)"
    "filter_mset (of_flow k) (passed contents s2) = filter_mset (of_flow k) (passed contents s1) + M'"
    using own_step_passes [OF cfg IH(1) i trace_worker.hyps(3) f(2) trace_worker.hyps(4)] alq
    unfolding trace_worker.hyps(5) f(1,3) env_def by metis
  have "flow_tracks env st (owns k (ps @ ?qs)) = Some st2"
    using IH(3) p(3) by (simp add: owns_append fold_opt_append)
  moreover have "M + M' \<subseteq># mset (passes env k st (ps @ ?qs))"
    using IH(5) p(5) by (simp add: passes_append [OF IH(3)] subset_mset.add_mono)
  moreover have "filter_mset (of_flow k) (passed contents s2) =
      filter_mset (of_flow k) (passed contents s) + (M + M')"
    using IH(6) p(6) by (simp add: ac_simps)
  moreover have "\<forall>p \<in> set (ps @ ?qs). mbuf_ok (fst p)" using IH(2) p(2) by auto
  ultimately show ?case using p(1,4) st2 by blast
qed

text \<open>Every execution has a trace.\<close>

lemma step_takes:
  assumes "sys_step c s s'"
  shows "sy_taken s' ! i = sy_taken s ! i \<or>
    (\<exists>scratch ft clock. \<not> sy_quit s \<and> sy_workers s ! i = Running (scratch, ft) \<and>
       sys_worker c s i scratch ft clock = Some s')"
  using assms
proof (induction rule: sys_step_induct)
  case (step_worker s j scratch ft clock s')
  show ?case
  proof (cases "j = i")
    case True
    then show ?thesis using step_worker by blast
  next
    case False
    then show ?thesis using step_worker.hyps(4) by (auto simp: sys_worker_def split: Option.bind_splits)
  qed
next
  case (step_worker_start j s zt zs)
  then show ?case by (simp add: sys_worker_start_def split: prod.split)
qed (auto simp: sys_rx_def sys_tx_def sys_stats_def sys_stats_start_def split: Option.bind_splits)

lemma trace_step:
  assumes "sys_trace c k i s ps s1" "sys_step c s1 s2" "bucket_owner c k s2 = bucket_owner c k s1"
  shows "\<exists>qs. sys_trace c k i s (ps @ qs) s2"
  using step_takes [OF assms(2), of i] trace_other [OF assms(1,2) _ assms(3)] trace_worker [OF assms(1) _ _ _ refl]
  by (metis append_Nil2)

lemma trace_exists:
  assumes "(\<lambda>s1 s2. sys_step c s1 s2 \<and> bucket_owner c k s2 = bucket_owner c k s1)\<^sup>*\<^sup>* s s'"
  shows "\<exists>ps. sys_trace c k i s ps s'"
  using assms
proof induction
  case base
  then show ?case by (auto intro: trace_start)
next
  case (step s1 s2)
  then show ?case using trace_step by blast
qed

text \<open>Without rebalancing every reachable state is steered and no step moves a bucket.\<close>

definition flow_owner :: "('h, 'd, 's, 'r) sys_cfg \<Rightarrow> flow_key \<Rightarrow> nat" where
  "flow_owner c k = bucket_owner c k (sys_start c)"

lemma bucket_owner_less: "sys_inv ok keys contents c s \<Longrightarrow> bucket_owner c k s < sys_workers c"
  by (auto simp: sys_defs buckets_inv_def bucket_owner_def)

lemma disabled_steered:
  assumes "sys_inv ok keys contents c s" "\<not> sa_rebalance_enabled (la_stats_args (cf_launch c))"
  shows "steered contents c k (flow_owner c k) s"
proof -
  have bt: "bucket_worker (sy_bt s) = bucket_worker (la_buckets (cf_launch c))" using assms by (simp add: sys_defs)
  then have o: "bucket_owner c k s = flow_owner c k" by (simp add: bucket_owner_def flow_owner_def sys_start_def)
  have "\<not> of_flow k p" if "j < sys_workers c" "j \<noteq> flow_owner c k" "p \<in> set (contents (sy_rings s ! j))" for j p
  proof
    assume "of_flow k p"
    moreover have "owner (cf_jhash c) (la_buckets (cf_launch c)) p = j" using assms that by (auto simp: sys_defs)
    ultimately show False using owner_of_flow [of k p c s] o that(2) bt by (simp add: owner_def)
  qed
  then show ?thesis using o by (simp add: steered_def)
qed

lemma system_passes:
  assumes "cfg_ok ok keys slots contents matches fits c" and "sys_reachable c s"
    and "steered contents c k i s"
    and th: "sy_workers s ! i = Running (scratch, ft)" and st: "flow_of keys ft k = Some st"
    and "sys_trace c k i s ps s'"
    and "alive k (ft_timeout_cycles ft) (st_last_seen_tsc st) ps"
  defines "env \<equiv> env_of c i scratch"
  obtains st' M where "flow_tracks env st (owns k ps) = Some st'"
    "flow_at keys k i scratch (ft_timeout_cycles ft) st' s'" "\<forall>p \<in> set ps. mbuf_ok (fst p)"
    "M \<subseteq># mset (passes env k st ps)"
    "filter_mset (of_flow k) (passed contents s') = filter_mset (of_flow k) (passed contents s) + M"
    "steered contents c k i s'"
proof -
  note inv = reachable_inv [OF assms(1,2)]
  have i: "i < sys_workers c" using assms(3) bucket_owner_less [OF inv] by (auto simp: steered_def)
  have fi: "flow_inv st"
    using table_flow_inv [OF worker_facts(4) [OF assms(1) inv i th]] st by (simp add: worker_at_def)
  have "flow_at keys k i scratch (ft_timeout_cycles ft) st s" using th st by (simp add: flow_at_def)
  from trace_passes [OF assms(1) i assms(6) inv this fi assms(7,3)] show ?thesis
    using that unfolding env_def by blast
qed

section \<open>A blocked flow in a small system\<close>

lemma rx_enqueue_idle:
  "\<forall>w \<in> set ws. w < length dest \<and> dest ! w = [] \<Longrightarrow> fold_opt (rx_enqueue R lcore dest) s ws = Some s"
  by (induction ws) (simp_all add: rx_enqueue_def mem_simps)

lemma rx_single:
  assumes inv: "buckets_inv n bt" "n \<le> MAX_WORKERS" and lc: "lcore < length (ro_stats s)"
    and r: "n \<le> length (ro_rings s)" and w_def: "w = owner j bt p"
    and room: "length (fr_items (ro_rings s ! w)) < fr_capacity (ro_rings s ! w)"
  shows "\<exists>t. rx_iteration j fifo_ops lcore n [p] now bt s = Some (bt\<lparr>bucket_last_seen_tsc :=
      (bucket_last_seen_tsc bt)[bucket_of (packet_hash j p) := now]\<rparr>, s\<lparr>ro_stats := t, ro_rings := (ro_rings s)[w :=
    (ro_rings s ! w)\<lparr>fr_items := fr_items (ro_rings s ! w) @ [p]\<rparr>]\<rparr>) \<and> (\<forall>l. l \<noteq> lcore \<longrightarrow> t ! l = ro_stats s ! l)"
proof -
  have w: "w < n" unfolding w_def by (rule owner_less [OF inv(1)])
  let ?dest = "(replicate 4 [])[w := [p]]"
  have sel: "parser_bucket_select_worker bt (packet_hash j p) now = Some (bt\<lparr>bucket_last_seen_tsc :=
      (bucket_last_seen_tsc bt)[bucket_of (packet_hash j p) := now]\<rparr>, w)"
    using select_spec [OF inv(1)] by (simp add: w_def owner_def)
  obtain t where t: "stats_add_rx (ro_stats s) lcore (of_nat (length [p])) (ucast (mbuf_pkt_len p)) = Some t"
    "\<forall>l. l \<noteq> lcore \<longrightarrow> t ! l = ro_stats s ! l"
    using lc by (simp add: stats_add_rx_def on_core_in)
  have scan: "fold_opt (rx_packet j now) \<lparr>rx_bt = bt, rx_dest = replicate 4 [], rx_sum_bytes = 0\<rparr> [p] =
      Some \<lparr>rx_bt = bt\<lparr>bucket_last_seen_tsc := (bucket_last_seen_tsc bt)[bucket_of (packet_hash j p) := now]\<rparr>,
        rx_dest = ?dest, rx_sum_bytes = ucast (mbuf_pkt_len p)\<rparr>"
    using w inv(2) sel by (simp add: rx_packet_def rss_hash_eq mem_simps Let_def)
  let ?s = "s\<lparr>ro_stats := t\<rparr>"
  let ?s' = "?s\<lparr>ro_rings := (ro_rings s)[w := (ro_rings s ! w)\<lparr>fr_items := fr_items (ro_rings s ! w) @ [p]\<rparr>]\<rparr>"
  have "rx_enqueue fifo_ops lcore ?dest ?s w = Some ?s'"
    using w inv(2) r room by (simp add: rx_enqueue_def mem_simps fifo_ops_def Let_def count_n_def)
  moreover have "[0..<n] = [0..<w] @ w # [Suc w..<n]"
    using w by (metis le_add_diff_inverse less_imp_le_nat upt_add_eq_append upt_conv_Cons zero_le)
  moreover have "fold_opt (rx_enqueue fifo_ops lcore ?dest) ?s [0..<w] = Some ?s"
    "fold_opt (rx_enqueue fifo_ops lcore ?dest) ?s' [Suc w..<n] = Some ?s'"
    using w inv(2) by (auto intro!: rx_enqueue_idle)
  ultimately have "fold_opt (rx_enqueue fifo_ops lcore ?dest) ?s [0..<n] = Some ?s'"
    by (simp add: fold_opt_append)
  then show ?thesis using scan t by (auto simp: rx_iteration_def)
qed

lemma sys_rx_single:
  assumes cfg: "cfg_ok ok keys slots fr_items matches fits c" and inv: "sys_inv ok keys fr_items c s"
    and c: "cf_ring c = fifo_ops" and i: "bucket_owner c k s = i"
    and s: "\<not> sy_quit s" "sy_rx_up s" and p: "mbuf_ok p" "of_flow k p"
    and room: "length (fr_items (sy_rings s ! i)) < fr_capacity (sy_rings s ! i)"
  obtains s' where "sys_step c s s'" "\<not> sy_quit s'" "sy_rx_up s'" "sy_workers s' = sy_workers s"
    "sy_taken s' = sy_taken s" "passed fr_items s' = passed fr_items s"
    "sy_rings s' = (sy_rings s)[i := (sy_rings s ! i)\<lparr>fr_items := fr_items (sy_rings s ! i) @ [p]\<rparr>]"
    "bucket_owner c k s' = bucket_owner c k s"
    "sy_bt s' = (sy_bt s)\<lparr>bucket_last_seen_tsc := (bucket_last_seen_tsc (sy_bt s))[bucket_of (cf_jhash c k) := now]\<rparr>"
    "sy_stats_loop s' = sy_stats_loop s" "sy_tx s' = sy_tx s"
    "\<forall>l. l \<noteq> la_rx_lcore (cf_launch c) \<longrightarrow> sy_stats s' ! l = sy_stats s ! l"
proof -
  let ?n = "sys_workers c" and ?lc = "la_rx_lcore (cf_launch c)" and ?j = "cf_jhash c"
  have wf: "buckets_inv ?n (sy_bt s)" "?n \<le> length (ro_rings (rx_at s))" "?lc < length (ro_stats (rx_at s))"
    using inv cfg_lcores(3,7) [OF cfg] by (simp_all add: sys_defs rx_at_def)
  have o: "owner ?j (sy_bt s) p = i" using owner_of_flow [OF p(2), of c s] i by simp
  let ?bt = "(sy_bt s)\<lparr>bucket_last_seen_tsc := (bucket_last_seen_tsc (sy_bt s))[bucket_of (?j k) := now]\<rparr>"
  have h: "packet_hash ?j p = ?j k"
    using p(2) by (auto simp: of_flow_def packet_hash_def parser_parse_l2_l4_def)
  obtain t where rx: "rx_iteration ?j fifo_ops ?lc ?n [p] now (sy_bt s) (rx_at s) = Some (?bt, (rx_at s)\<lparr>ro_stats := t,
      ro_rings := (sy_rings s)[i := (sy_rings s ! i)\<lparr>fr_items := fr_items (sy_rings s ! i) @ [p]\<rparr>]\<rparr>)"
    "\<forall>l. l \<noteq> ?lc \<longrightarrow> t ! l = sy_stats s ! l"
    using rx_single [OF wf(1) cfg_lcores(2) [OF cfg] wf(3,2) o [symmetric], of now] room
    by (auto simp: rx_at_def h)
  define s' where "s' = s\<lparr>sy_bt := ?bt, sy_rings := (sy_rings s)[i := (sy_rings s ! i)\<lparr>fr_items :=
      fr_items (sy_rings s ! i) @ [p]\<rparr>], sy_stats := t, sy_received := sy_received s @ [p]\<rparr>"
  have run: "sys_rx c s [p] now = Some s'"
    using rx c(1) by (simp add: sys_rx_def s'_def rx_at_def)
  have "sys_step c s s'" by (rule step_rx [OF s _ _ run]) (simp_all add: p(1))
  then show ?thesis using s rx(2) by (intro that [of s']) (simp_all add: s'_def passed_def bucket_owner_def)
qed

text \<open>A worker that starts, with an empty table.\<close>

lemma sys_worker_starts:
  assumes "cf_hs c = literal_hs" "cf_hash_create c = (\<lambda>name. Some (replicate FLOW_TABLE_CAPACITY None))"
    and "i < sys_workers c" "sy_workers s ! i = Starting"
  obtains seq scratch where "sys_step c s (s\<lparr>sy_table_seq := seq, sy_workers := (sy_workers s)[i :=
      Running (scratch, empty_table (la_flow_timeout (cf_launch c)))]\<rparr>)"
proof -
  obtain scratch where sc: "dpi_engine_alloc_scratch literal_hs (la_engine (cf_launch c)) = Inr scratch"
    using literal_scratch by blast
  obtain seq live ls where "worker_thread_start (cf_hs c) (la_engine (cf_launch c)) True (cf_hash_create c) True
      (sy_table_seq s) (la_flow_timeout (cf_launch c)) =
      (seq, live, ls, Some (scratch, empty_table (la_flow_timeout (cf_launch c))))"
    using sc assms(1,2)
    by (simp add: worker_thread_start_def parser_flow_table_create_def empty_table_def Let_def)
  then have "sys_worker_start c s i True True = s\<lparr>sy_table_seq := seq, sy_workers := (sy_workers s)[i :=
      Running (scratch, empty_table (la_flow_timeout (cf_launch c)))]\<rparr>"
    by (simp add: sys_worker_start_def)
  then show ?thesis using that step_worker_start [OF assms(3,4), of True True] by metis
qed

text \<open>The worker handles the first packet of the flow.\<close>

lemma sys_first_packet:
  assumes cfg: "cfg_ok slot_ok slot_keys slots fr_items matches fits c" and inv: "sys_inv slot_ok slot_keys fr_items c s"
    and c: "cf_hash c = slot_ops" "cf_ring c = fifo_ops" and quit: "\<not> sy_quit s"
    and i: "i < sys_workers c" and th: "sy_workers s ! i = Running (scratch, empty_table timeout)"
    and ring: "fr_items (sy_rings s ! i) = [pkt]" and l: "parser_parse_l2_l4 pkt = Some (Some l)" "mbuf_ok pkt"
    and n: "0 < length (l2l4_payload l)" "length (l2l4_payload l) \<le> 4095"
    and pend: "scan_request (l2l4_type l) (l2l4_payload l) = (REASSEMBLY_PENDING, None)"
  obtains s' ft st where "sys_step c s s'" "\<not> sy_quit s'" "sy_rx_up s' = sy_rx_up s"
    "sy_workers s' ! i = Running (scratch, ft)" "ft_timeout_cycles ft = timeout"
    "flow_of slot_keys ft (l2l4_key l) = Some st"
    "flow_tracks (env_of c i scratch) (new_flow (l2l4_type l)) [(l, 6)] = Some st" "st_last_seen_tsc st = 6"
    "sy_rings s' = (sy_rings s)[i := (sy_rings s ! i)\<lparr>fr_items := []\<rparr>]" "sy_bt s' = sy_bt s"
proof -
  let ?e = "env_of c i scratch" and ?w = "worker_at s (empty_table timeout)"
  note wf = worker_facts [OF cfg inv i th]
  have w0: "wk_ft ?w = empty_table timeout" "wk_fwd ?w = []" "we_hash ?e = slot_ops"
    "length (wk_fwd ?w) < 32" "?w\<lparr>wk_fwd := []\<rparr> = ?w"
    using c(1) by (simp_all add: worker_at_def env_of_def)
  obtain w1 where w1: "worker_packet ?e ?w (pkt, 5, 6) = Some w1"
    "flow_of slot_keys (wk_ft w1) (l2l4_key l) \<noteq> None"
    by (rule empty_table_first [OF wf(1) w0(3) wf(3,4) w0(1,2) l n pend])
  have none: "flow_of slot_keys (wk_ft ?w) (l2l4_key l) = None"
    using flow_of_empty_table by (simp add: w0(1))
  obtain st ns a ft where f: "flow_track ?e (new_flow (l2l4_type l)) (l, 6) = Some (st, ns, a)"
    "flow_of slot_keys (wk_ft w1) (l2l4_key l) = Some st" "worker_inv slot_ok slot_keys ?e w1"
    "ft_timeout_cycles (wk_ft w1) = ft_timeout_cycles (wk_ft ?w)"
    by (rule worker_packet_first [OF wf(1,3,4) l(2) w0(4) none l(1) refl w1])
  obtain w2 tx' where fl: "worker_flush ?e fifo_ops w1 (sy_tx s) = Some (w2, tx')" "wk_ft w2 = wk_ft w1"
    using flush_spec [OF wf(2), of ?e w1 "sy_tx s"] f(3) c(2) by (auto simp: worker_inv_def)
  let ?r = "(sy_rings s ! i)\<lparr>fr_items := []\<rparr>"
  have "worker_iteration ?e fifo_ops ?w (sy_rings s ! i) (sy_tx s) (\<lambda>_. (5, 6)) = Some (w2, ?r, tx')"
    unfolding worker_iteration_def using ring w0(5) w1(1) fl(1) by (simp add: fifo_ops_def)
  then obtain s' where s': "sys_worker c s i scratch (empty_table timeout) (\<lambda>_. (5, 6)) = Some s'"
    "\<not> sy_quit s'" "sy_rx_up s' = sy_rx_up s" "sy_workers s' = (sy_workers s)[i := Running (scratch, wk_ft w2)]"
    "sy_rings s' = (sy_rings s)[i := ?r]" "sy_bt s' = sy_bt s"
    using wf(5) c(2) quit by (simp add: sys_worker_def)
  have "i < length (sy_workers s)" using inv i by (simp add: sys_defs)
  moreover have "st_last_seen_tsc st = 6"
    using flow_track_seen [OF f(1) new_flow_facts(1)] parsed_ok(1) [OF l] by (simp add: l2l4_ok_def)
  ultimately show ?thesis
    using that [OF step_worker [OF quit i th s'(1)] s'(2,3)] s'(4-6) f fl(2) w0(1)
    by (simp add: empty_table_def)
qed

definition block_bytes :: "byte list" where
  "block_bytes = ascii ''GET / HTTP/1.1'' @ crlf @ ascii ''Host: malware.com'' @ crlf"

abbreviation block_key :: flow_key where "block_key \<equiv> frame_key 0 80"

text \<open>
  A small system, with rebalancing: a worker has received the first half of a request for a blocked
  host, and then receives the second.
\<close>

lemma block_facts:
  "request_ok (ascii ''GET '') (ascii ''/'') (ascii ''HTTP/1.1'') [] (ascii ''Host:'') (ascii ''malware.com'')"
  "block_bytes = request_head (ascii ''GET '') (ascii ''/'') (ascii ''HTTP/1.1'') [] @
     host_line (ascii ''Host:'') 1 (ascii ''malware.com'')"
  "length block_bytes = 35" "classify_port (be16 0 80) = Some TRAFFIC_HTTP"
  by (simp_all add: request_ok_def line_ok_def http_methods_def ascii_def block_bytes_def request_head_def
      host_line_def crlf_def classify_port_def be16_def)

lemma block_system:
  obtains l where "demo_cfg_ok (demo_cfg l)" "sys_workers (demo_cfg l) = 2"
    "dpi_engine_load_rules literal_hs (\<lambda>c. True) True True (Some (rule_text demo_rule @ [10])) zero_engine =
       (True, la_engine l)" "la_flow_timeout l = 1500"
    "la_worker_rings l = replicate 2 \<lparr>fr_capacity = 1023, fr_items = []\<rparr>"
proof -
  obtain l where l: "main_start literal_hs demo_platform (\<lambda>k. replicate k 0) demo_args = Some (Inr l)"
    "la_num_workers l = 2" "dpi_engine_load_rules literal_hs (\<lambda>c. True) True True
       (Some (rule_text demo_rule @ [10])) zero_engine = (True, la_engine l)"
    "la_worker_rings l = replicate 2 \<lparr>fr_capacity = 1023, fr_items = []\<rparr>" "la_flow_timeout l = 1500"
    by (rule demo_launches)
  obtain l' s where l': "main_start literal_hs demo_platform (\<lambda>k. replicate k 0) demo_args = Some (Inr l')"
    "demo_cfg_ok (demo_cfg l')" "sys_workers (demo_cfg l') = 2"
    by (rule demo_system)
  then show ?thesis using that [of l] l by simp
qed

lemma block_state:
  obtains l s scratch ft st where "demo_cfg_ok (demo_cfg l)" "sys_reachable (demo_cfg l) s"
    "steered fr_items (demo_cfg l) block_key (flow_owner (demo_cfg l) block_key) s"
    "sy_workers s ! flow_owner (demo_cfg l) block_key = Running (scratch, ft)"
    "flow_of slot_keys ft block_key = Some st"
    "loaded_env (env_of (demo_cfg l) (flow_owner (demo_cfg l) block_key) scratch) literal_matches (\<lambda>s d. True) [demo_rule]"
    "flow_tracks (env_of (demo_cfg l) (flow_owner (demo_cfg l) block_key) scratch) (new_flow TRAFFIC_HTTP)
       [(demo_cut 0 80 TRAFFIC_HTTP block_bytes 0 20, 6)] = Some st"
    "ft_timeout_cycles ft = 1500" "st_last_seen_tsc st = 6" "\<not> sy_quit s" "sy_rx_up s"
    "sy_rings s ! flow_owner (demo_cfg l) block_key = \<lparr>fr_capacity = 1023, fr_items = []\<rparr>"
proof -
  obtain l where l: "demo_cfg_ok (demo_cfg l)" "sys_workers (demo_cfg l) = 2"
    "dpi_engine_load_rules literal_hs (\<lambda>c. True) True True (Some (rule_text demo_rule @ [10])) zero_engine =
       (True, la_engine l)" "la_flow_timeout l = 1500"
    "la_worker_rings l = replicate 2 \<lparr>fr_capacity = 1023, fr_items = []\<rparr>"
    by (rule block_system)
  let ?c = "demo_cfg l" and ?l0 = "demo_cut 0 80 TRAFFIC_HTTP block_bytes 0 20"
    and ?f1 = "demo_frame 0 80 233 (take 20 block_bytes)"
  define i where "i = flow_owner ?c block_key"
  have c: "cf_hash ?c = slot_ops" "cf_ring ?c = fifo_ops" "cf_hs ?c = literal_hs" "cf_launch ?c = l"
    "cf_hash_create ?c = (\<lambda>name. Some (replicate 1024 None))" by (simp_all add: demo_cfg_def)
  have i: "i < sys_workers ?c"
    unfolding i_def flow_owner_def by (rule bucket_owner_less [OF sys_start_inv [OF l(1)]])
  have len: "20 < length block_bytes" "length block_bytes \<le> 4095" using block_facts(3) by simp_all
  note o = demo_owns [OF block_facts(4) len]
  have f1: "parser_parse_l2_l4 ?f1 = Some (Some ?l0)" "l2l4_key ?l0 = block_key" "mbuf_ok ?f1" "of_flow block_key ?f1"
    using ownD(1,2) [OF o(1)] o(5) by (auto simp: of_flow_def demo_inputs_def)
  note inv = reachable_inv [OF l(1)]
  have start: "length (sy_workers (sys_start ?c)) = sys_workers ?c" "sy_workers (sys_start ?c) ! i = Starting"
    "\<not> sy_quit (sys_start ?c)" "sy_rx_up (sys_start ?c)"
    "sy_rings (sys_start ?c) ! i = \<lparr>fr_capacity = 1023, fr_items = []\<rparr>"
    "length (sy_rings (sys_start ?c)) = sys_workers ?c"
    using i l(2,5) c(4) by (simp_all add: sys_start_def nth_replicate)
  have st0: "steered fr_items ?c block_key i (sys_start ?c)"
    using l(2,5) c(4) by (simp add: steered_def i_def flow_owner_def) (simp add: sys_start_def nth_replicate)
  obtain s1 scratch where s1: "sys_step ?c (sys_start ?c) s1" "sy_rings s1 = sy_rings (sys_start ?c)"
    "sy_quit s1 = sy_quit (sys_start ?c)" "sy_rx_up s1 = sy_rx_up (sys_start ?c)"
    "sy_workers s1 ! i = Running (scratch, empty_table 1500)" "sy_bt s1 = sy_bt (sys_start ?c)"
    by (rule sys_worker_starts [OF c(3,5) i start(2)]) (use that l(4) c(4) start(1) i in \<open>auto simp: sys_start_def\<close>)
  have r1: "sys_reachable ?c s1" by (rule reach_step [OF reach_start s1(1)])
  have st1: "steered fr_items ?c block_key i s1"
    by (rule steered_step [OF l(1) s1(1) inv [OF reach_start] st0]) (simp add: bucket_owner_def s1(6))
  then have b1: "bucket_owner ?c block_key s1 = i" by (simp add: steered_def)
  have pre: "\<not> sy_quit s1" "sy_rx_up s1" "length (fr_items (sy_rings s1 ! i)) < fr_capacity (sy_rings s1 ! i)"
    using s1(2-4) start(3-5) by simp_all
  obtain s2 where s2: "sys_step ?c s1 s2" "\<not> sy_quit s2" "sy_rx_up s2" "sy_workers s2 = sy_workers s1"
    "sy_rings s2 = (sy_rings s1)[i := (sy_rings s1 ! i)\<lparr>fr_items := fr_items (sy_rings s1 ! i) @ [?f1]\<rparr>]"
    "bucket_owner ?c block_key s2 = bucket_owner ?c block_key s1"
    by (rule sys_rx_single [OF l(1) inv [OF r1] c(2) b1 pre(1,2) f1(3,4) pre(3)])
  have r2: "sys_reachable ?c s2" by (rule reach_step [OF r1 s2(1)])
  have st2: "steered fr_items ?c block_key i s2" by (rule steered_step [OF l(1) s2(1) inv [OF r1] st1 s2(6)])
  have ring: "sy_rings s2 ! i = \<lparr>fr_capacity = 1023, fr_items = [?f1]\<rparr>" "i < length (sy_rings s2)"
    using s2(5) s1(2) start(5,6) i by simp_all
  have pl: "l2l4_payload ?l0 = take 20 block_bytes" by (simp add: demo_cut_def cut_segment_def demo_segment_def)
  have short: "length block_bytes \<le> 4096 - 1" using len(2) by simp
  have "scan_request TRAFFIC_HTTP (take 20 block_bytes) = (REASSEMBLY_PENDING, None)"
    using http_settles [OF block_facts(1,2) short] len(1) unfolding settles_def
    by (metis append_take_drop_id drop_eq_Nil not_le)
  then have pend: "scan_request (l2l4_type ?l0) (l2l4_payload ?l0) = (REASSEMBLY_PENDING, None)" by (simp add: pl)
  have n: "0 < length (l2l4_payload ?l0)" "length (l2l4_payload ?l0) \<le> 4095" using pl len by simp_all
  have th: "sy_workers s2 ! i = Running (scratch, empty_table 1500)" using s2(4) s1(5) by simp
  have it: "fr_items (sy_rings s2 ! i) = [?f1]" using ring(1) by simp
  obtain s3 ft st where s3: "sys_step ?c s2 s3" "\<not> sy_quit s3" "sy_rx_up s3 = sy_rx_up s2"
    "sy_workers s3 ! i = Running (scratch, ft)" "ft_timeout_cycles ft = 1500"
    "flow_of slot_keys ft (l2l4_key ?l0) = Some st"
    "flow_tracks (env_of ?c i scratch) (new_flow (l2l4_type ?l0)) [(?l0, 6)] = Some st" "st_last_seen_tsc st = 6"
    "sy_rings s3 = (sy_rings s2)[i := (sy_rings s2 ! i)\<lparr>fr_items := []\<rparr>]" "sy_bt s3 = sy_bt s2"
    by (rule sys_first_packet [OF l(1) inv [OF r2] c(1,2) s2(2) i th it f1(1,3) n pend])
  have r3: "sys_reachable ?c s3" by (rule reach_step [OF r2 s3(1)])
  have st3: "steered fr_items ?c block_key i s3"
    by (rule steered_step [OF l(1) s3(1) inv [OF r2] st2]) (simp add: bucket_owner_def s3(10))
  have "worker_ok slot_ok slot_keys ?c (Running (scratch, ft))"
    using inv [OF r3] s3(4) i by (metis nth_mem sys_inv_def sys_wf_def)
  then have load: "loaded_env (env_of ?c i scratch) literal_matches (\<lambda>s d. True) [demo_rule]"
    unfolding loaded_env_def using literal.hyperscan_axioms l(3) demo_read c(3,4)
    by (auto simp: worker_ok_def env_of_def)
  show ?thesis
    using that [OF l(1) r3, folded i_def, OF st3 s3(4) _ load] s3(2-3,5-9) f1(2) s2(3) ring by simp
qed

text \<open>A further packet of the flow arrives and is handled.\<close>

lemma block_round:
  fixes k :: flow_key
  assumes cfg: "demo_cfg_ok (demo_cfg l)" and r: "sys_reachable (demo_cfg l) s"
    and steer: "steered fr_items (demo_cfg l) k i s"
    and th: "sy_workers s ! i = Running (scratch, ft)" and s: "\<not> sy_quit s" "sy_rx_up s"
    and ring: "sy_rings s ! i = \<lparr>fr_capacity = 1023, fr_items = []\<rparr>" and p: "mbuf_ok p" "of_flow k p"
  obtains s' ft' where "sys_trace (demo_cfg l) k i s [(p, ts, now)] s'" "sys_reachable (demo_cfg l) s'"
    "sy_workers s' ! i = Running (scratch, ft')" "\<not> sy_quit s'" "sy_rx_up s'"
    "sy_rings s' ! i = \<lparr>fr_capacity = 1023, fr_items = []\<rparr>"
proof -
  let ?c = "demo_cfg l"
  have c: "cf_ring ?c = fifo_ops" by (simp add: demo_cfg_def)
  note inv = reachable_inv [OF cfg r]
  have b: "bucket_owner ?c k s = i" using steer by (simp add: steered_def)
  then have i: "i < sys_workers ?c" using bucket_owner_less [OF inv] by auto
  obtain s1 where s1: "sys_step ?c s s1" "\<not> sy_quit s1" "sy_rx_up s1" "sy_workers s1 = sy_workers s"
    "sy_taken s1 = sy_taken s"
    "sy_rings s1 = (sy_rings s)[i := (sy_rings s ! i)\<lparr>fr_items := fr_items (sy_rings s ! i) @ [p]\<rparr>]"
    "bucket_owner ?c k s1 = bucket_owner ?c k s"
    by (rule sys_rx_single [OF cfg inv c b s p]) (use ring in simp)
  have r1: "sys_reachable ?c s1" by (rule reach_step [OF r s1(1)])
  have th1: "sy_workers s1 ! i = Running (scratch, ft)" using s1(4) th by simp
  have t1: "sys_trace ?c k i s [] s1" using s1(5,7) by (intro trace_other [OF trace_start s1(1)]) simp_all
  have "i < length (sy_rings s)" "i < length (sy_workers s1)"
    using inv reachable_inv [OF cfg r1] i by (simp_all add: sys_defs)
  then have ring1: "sy_rings s1 ! i = \<lparr>fr_capacity = 1023, fr_items = [p]\<rparr>" "i < length (sy_rings s1)"
    "i < length (sy_workers s1)"
    using s1(6) ring by simp_all
  obtain s' where s': "sys_worker ?c s1 i scratch ft (\<lambda>_. (ts, now)) = Some s'"
    using sys_worker_inv [OF cfg reachable_inv [OF cfg r1] i th1] by blast
  have bufs: "[p] = snd (ring_dequeue_burst (cf_ring ?c) (sy_rings s1 ! i) 32)"
    using ring1(1) c by (simp add: fifo_ops_def)
  have tr: "sys_trace ?c k i s [(p, ts, now)] s'" using trace_worker [OF t1 s1(2) th1 s' bufs] by simp
  have r': "sys_reachable ?c s'" by (rule reach_step [OF r1 step_worker [OF s1(2) i th1 s']])
  obtain ft' where "sy_workers s' ! i = Running (scratch, ft')" "\<not> sy_quit s'" "sy_rx_up s'"
    "sy_rings s' ! i = \<lparr>fr_capacity = 1023, fr_items = []\<rparr>"
    using s' ring1 c s1(2,3)
    by (auto simp: sys_worker_def mem_simps worker_iteration_def fifo_ops_def split: Option.bind_splits)
  then show ?thesis using that tr r' by blast
qed

lemma block_owns:
  "own block_key (demo_last 0 80 block_bytes) = Some (demo_cut 0 80 TRAFFIC_HTTP block_bytes 20 15, 10)"
  "completes TRAFFIC_HTTP block_key (stream_of 1001 block_bytes) 1001 block_bytes
     (demo_inputs 0 80 block_bytes @ [demo_last 0 80 block_bytes])"
  "owns block_key (demo_inputs 0 80 block_bytes) = [(demo_cut 0 80 TRAFFIC_HTTP block_bytes 0 20, 6)]"
  "mbuf_ok (fst (demo_last 0 80 block_bytes))" "\<forall>q \<in> set (demo_inputs 0 80 block_bytes). mbuf_ok (fst q)"
proof -
  have len: "20 < length block_bytes" "length block_bytes \<le> 4095" using block_facts(3) by simp_all
  note o = demo_owns [OF block_facts(4) len]
  show "own block_key (demo_last 0 80 block_bytes) = Some (demo_cut 0 80 TRAFFIC_HTTP block_bytes 20 15, 10)"
    using o(3) block_facts(3) by simp
  show "owns block_key (demo_inputs 0 80 block_bytes) = [(demo_cut 0 80 TRAFFIC_HTTP block_bytes 0 20, 6)]"
    using o(1,2) by (simp add: demo_inputs_def map_filter_simps)
  show "completes TRAFFIC_HTTP block_key (stream_of 1001 block_bytes) 1001 block_bytes
     (demo_inputs 0 80 block_bytes @ [demo_last 0 80 block_bytes])" by (rule o(4))
  show "mbuf_ok (fst (demo_last 0 80 block_bytes))" "\<forall>q \<in> set (demo_inputs 0 80 block_bytes). mbuf_ok (fst q)"
    using o(5) by simp_all
qed

lemma block_frame:
  "mbuf_ok (demo_frame 0 80 253 (drop 20 block_bytes))"
  "of_flow block_key (demo_frame 0 80 253 (drop 20 block_bytes))"
  using block_owns(4) ownD(1,2) [OF block_owns(1)] by (auto simp: of_flow_def demo_last_def)

lemma block_url:
  defines "url \<equiv> take (FLOW_SCAN_BUF_CAP - 1) (ascii ''http://'' @ ascii ''malware.com'' @ ascii ''/'')"
  shows "settles TRAFFIC_HTTP block_bytes url"
    "drop_rule literal_matches (typed_lines [demo_rule] TRAFFIC_HTTP) url"
proof -
  have "length block_bytes \<le> 4096 - 1" using block_facts(3) by simp
  then show "settles TRAFFIC_HTTP block_bytes url" unfolding url_def by (rule http_settles [OF block_facts(1,2)])
  have "literal_matches (ascii ''malware'') n (ascii ''http://malware.com/'')" for n
    unfolding literal_matches_def by (rule exI [of _ 7]) (simp add: ascii_def)
  moreover have "url = ascii ''http://malware.com/''" by (simp add: url_def ascii_def)
  ultimately show "drop_rule literal_matches (typed_lines [demo_rule] TRAFFIC_HTTP) url"
    by (simp add: drop_rule_def typed_lines_def demo_rule_def)
qed

lemma block_segments:
  defines "T \<equiv> stream_of 1001 block_bytes" and "ls \<equiv> [demo_cut 0 80 TRAFFIC_HTTP block_bytes 0 20,
    demo_cut 0 80 TRAFFIC_HTTP block_bytes 20 15]"
  shows "map (\<lambda>i. T (1001 + of_nat i)) [0..<length block_bytes] = block_bytes"
    "\<forall>l \<in> set ls. seg_of T 1001 l \<and> l2l4_type l = TRAFFIC_HTTP" "covers (hd ls) 1001"
    "\<forall>i < length block_bytes. \<exists>l \<in> set ls. covers l (1001 + of_nat i)"
proof -
  have len: "20 \<le> length block_bytes" "length block_bytes \<le> 4095" using block_facts(3) by simp_all
  show "covers (hd ls) 1001"
    using cut_segment_facts(3) [of 0 20 block_bytes 0 TRAFFIC_HTTP 1001] len by (simp add: ls_def demo_cut_def)
  have seg: "seg_of T 1001 (demo_cut 0 80 TRAFFIC_HTTP block_bytes a m)" if "a + m \<le> length block_bytes" for a m
    using cut_segment_facts(1) [OF that len(2), of 1001] by (simp add: demo_cut_def T_def)
  show "\<forall>l \<in> set ls. seg_of T 1001 l \<and> l2l4_type l = TRAFFIC_HTTP"
    using seg [of 0 20] seg [of 20 15] len(1) block_facts(3) by (simp add: ls_def)
qed (use block_owns(2) in \<open>simp_all add: completes_def owns_append block_owns(1,3) map_filter_simps T_def ls_def\<close>)

lemma block_verdict:
  fixes env :: "(slot_hash, literal_db, unit) worker_env"
  assumes load: "loaded_env env literal_matches fits [demo_rule]" "we_hs env = literal_hs"
    and st: "flow_tracks env (new_flow TRAFFIC_HTTP) [(demo_cut 0 80 TRAFFIC_HTTP block_bytes 0 20, 6)] = Some st"
      "flow_tracks env st (owns block_key [demo_last 0 80 block_bytes]) = Some st'"
  shows "st_verdict_cached st'" "st_cached_action st' = ACTION_DROP" "st_last_seen_tsc st' = 10"
proof -
  let ?a = "demo_cut 0 80 TRAFFIC_HTTP block_bytes 0 20" and ?b = "demo_cut 0 80 TRAFFIC_HTTP block_bytes 20 15"
  note s = block_segments
  have v: "scan_verdict env TRAFFIC_HTTP (take 511 (ascii ''http://'' @ ascii ''malware.com'' @ ascii ''/'')) = ACTION_DROP"
    using loaded_verdict [OF load(1), of TRAFFIC_HTTP] block_url(2) load(2) literal_never_fails by simp
  have set: "settles TRAFFIC_HTTP block_bytes (take 511 (ascii ''http://'' @ ascii ''malware.com'' @ ascii ''/''))"
    using block_url(1) by simp
  have req: "block_bytes \<noteq> []" "length block_bytes \<le> 4096 - 1" using block_facts(3) by auto
  have b: "owns block_key [demo_last 0 80 block_bytes] = [(?b, 10)]" by (simp add: map_filter_simps block_owns(1))
  have "flow_tracks env (new_flow TRAFFIC_HTTP) [(?a, 6), (?b, 10)] = Some st'"
    using st unfolding b by (auto split: Option.bind_splits)
  moreover have "\<exists>st'. flow_tracks env (new_flow TRAFFIC_HTTP) [(?a, 6), (?b, 10)] = Some st' \<and>
      on_track (stream_of 1001 block_bytes) 1001 block_bytes ACTION_DROP (rev (map fst [(?a, 6 :: u64), (?b, 10)]) @ []) st'"
    by (rule tracks_all [OF set v s(1) on_track_new [OF req(1)]]) (use s(2,3) seg_part in simp_all)
  ultimately have "on_track (stream_of 1001 block_bytes) 1001 block_bytes ACTION_DROP [?b, ?a] st'" by simp
  moreover have "\<forall>i < length block_bytes. \<exists>l \<in> set [?b, ?a]. covers l (1001 + of_nat i)" using s(4) by auto
  ultimately have "st_verdict_cached st' \<and> st_cached_action st' = ACTION_DROP" by (rule on_track_complete [OF _ req])
  then show "st_verdict_cached st'" "st_cached_action st' = ACTION_DROP" by simp_all
  have "flow_inv st"
    using flow_tracks_seen [OF st(1) [folded block_owns(3)] new_flow_facts(1) block_owns(5)] by blast
  then show "st_last_seen_tsc st' = 10"
    using flow_tracks_seen [OF st(2)] block_owns(4) by (simp add: block_owns(1))
qed

lemma block_trace:
  obtains l s s' scratch ft ft' st where "demo_cfg_ok (demo_cfg l)" "sys_reachable (demo_cfg l) s"
    "steered fr_items (demo_cfg l) block_key (flow_owner (demo_cfg l) block_key) s"
    "sy_workers s ! flow_owner (demo_cfg l) block_key = Running (scratch, ft)"
    "flow_of slot_keys ft block_key = Some st"
    "loaded_env (env_of (demo_cfg l) (flow_owner (demo_cfg l) block_key) scratch) literal_matches (\<lambda>s d. True) [demo_rule]"
    "flow_tracks (env_of (demo_cfg l) (flow_owner (demo_cfg l) block_key) scratch) (new_flow TRAFFIC_HTTP)
       [(demo_cut 0 80 TRAFFIC_HTTP block_bytes 0 20, 6)] = Some st"
    "sys_trace (demo_cfg l) block_key (flow_owner (demo_cfg l) block_key) s [demo_last 0 80 block_bytes] s'"
    "alive block_key (ft_timeout_cycles ft) (st_last_seen_tsc st) [demo_last 0 80 block_bytes]"
    "ft_timeout_cycles ft = 1500" "sys_reachable (demo_cfg l) s'" "\<not> sy_quit s'" "sy_rx_up s'"
    "sy_workers s' ! flow_owner (demo_cfg l) block_key = Running (scratch, ft')"
    "sy_rings s' ! flow_owner (demo_cfg l) block_key = \<lparr>fr_capacity = 1023, fr_items = []\<rparr>"
    "steered fr_items (demo_cfg l) block_key (flow_owner (demo_cfg l) block_key) s'"
proof -
  obtain l s scratch ft st where b: "demo_cfg_ok (demo_cfg l)" "sys_reachable (demo_cfg l) s"
    "steered fr_items (demo_cfg l) block_key (flow_owner (demo_cfg l) block_key) s"
    "sy_workers s ! flow_owner (demo_cfg l) block_key = Running (scratch, ft)"
    "flow_of slot_keys ft block_key = Some st"
    "loaded_env (env_of (demo_cfg l) (flow_owner (demo_cfg l) block_key) scratch) literal_matches (\<lambda>s d. True) [demo_rule]"
    "flow_tracks (env_of (demo_cfg l) (flow_owner (demo_cfg l) block_key) scratch) (new_flow TRAFFIC_HTTP)
       [(demo_cut 0 80 TRAFFIC_HTTP block_bytes 0 20, 6)] = Some st"
    "ft_timeout_cycles ft = 1500" "st_last_seen_tsc st = 6" "\<not> sy_quit s" "sy_rx_up s"
    "sy_rings s ! flow_owner (demo_cfg l) block_key = \<lparr>fr_capacity = 1023, fr_items = []\<rparr>"
    by (rule block_state)
  obtain s' ft' where t: "sys_trace (demo_cfg l) block_key (flow_owner (demo_cfg l) block_key) s
      [(demo_frame 0 80 253 (drop 20 block_bytes), 9, 10)] s'" "sys_reachable (demo_cfg l) s'"
    "sy_workers s' ! flow_owner (demo_cfg l) block_key = Running (scratch, ft')" "\<not> sy_quit s'" "sy_rx_up s'"
    "sy_rings s' ! flow_owner (demo_cfg l) block_key = \<lparr>fr_capacity = 1023, fr_items = []\<rparr>"
    by (rule block_round [OF b(1-4,10-12) block_frame])
  have "steered fr_items (demo_cfg l) block_key (flow_owner (demo_cfg l) block_key) s'"
    by (rule system_passes [OF b(1-5) t(1)]) (use b(8,9) in simp_all)
  then show ?thesis using b(8,9) t by (intro that [OF b(1-7)]) (simp_all add: demo_last_def)
qed

section \<open>Properties\<close>

text \<open>
  C5: isolation in the running system. Take any reachable state in which a flow is in the table of the
  worker that owns its bucket and no other worker has packets of the flow waiting. Then, for every
  interleaving of the threads that leaves the bucket with this worker, with any packets of any other
  flows and whatever the card, the rings and the clock do, the packets of this flow that get past the
  inspection are among those that the machine of this flow, fed with the flow's own packets alone,
  lets through. It is enough that the flow is not idle beyond the timeout.
\<close>

theorem system_isolates_flows:
  assumes "cfg_ok ok keys slots contents matches fits c" and "sys_reachable c s"
    and "steered contents c k i s"
    and "sy_workers s ! i = Running (scratch, ft)" and "flow_of keys ft k = Some st"
    and "sys_trace c k i s ps s'"
    and "alive k (ft_timeout_cycles ft) (st_last_seen_tsc st) ps"
  shows "\<exists>M. M \<subseteq># mset (passes (env_of c i scratch) k st ps) \<and>
    filter_mset (of_flow k) (passed contents s') = filter_mset (of_flow k) (passed contents s) + M"
  by (rule system_passes [OF assms]) blast

text \<open>The second half of a request for a blocked host arrives at the worker that has the first.\<close>

theorem system_isolates_flows_witness:
  "\<exists>l s s' scratch st M. demo_cfg_ok (demo_cfg l) \<and> sys_reachable (demo_cfg l) s \<and>
     sys_trace (demo_cfg l) block_key (flow_owner (demo_cfg l) block_key) s [demo_last 0 80 block_bytes] s' \<and>
     M \<subseteq># mset (passes (env_of (demo_cfg l) (flow_owner (demo_cfg l) block_key) scratch) block_key st
       [demo_last 0 80 block_bytes]) \<and>
     filter_mset (of_flow block_key) (passed fr_items s') = filter_mset (of_flow block_key) (passed fr_items s) + M"
proof (rule block_trace)
  fix l s s' scratch ft ft' st
  assume a: "demo_cfg_ok (demo_cfg l)" "sys_reachable (demo_cfg l) s"
    "steered fr_items (demo_cfg l) block_key (flow_owner (demo_cfg l) block_key) s"
    "sy_workers s ! flow_owner (demo_cfg l) block_key = Running (scratch, ft)"
    "flow_of slot_keys ft block_key = Some st"
    "sys_trace (demo_cfg l) block_key (flow_owner (demo_cfg l) block_key) s [demo_last 0 80 block_bytes] s'"
    "alive block_key (ft_timeout_cycles ft) (st_last_seen_tsc st) [demo_last 0 80 block_bytes]"
  then show ?thesis using system_isolates_flows [OF a] by blast
qed

text \<open>
  C6: a blocked flow stays blocked. In the same situation, if the flow's verdict is DROP, then no packet
  of the flow gets past the inspection any more: the packets of the flow on the TX ring, on the wire
  and freed by the TX thread stay the same for ever.
\<close>

theorem system_blocks_flow:
  assumes "cfg_ok ok keys slots contents matches fits c" and "sys_reachable c s"
    and "steered contents c k i s"
    and "sy_workers s ! i = Running (scratch, ft)" and "flow_of keys ft k = Some st"
    and "st_verdict_cached st" and "st_cached_action st = ACTION_DROP"
    and "sys_trace c k i s ps s'"
    and "alive k (ft_timeout_cycles ft) (st_last_seen_tsc st) ps"
  shows "filter_mset (of_flow k) (passed contents s') = filter_mset (of_flow k) (passed contents s)"
  using system_passes [OF assms(1-5,8,9)] passes_blocked [OF assms(6,7)] by (metis add.right_neutral
      mset.simps(1) subset_mset.le_zero_eq)

text \<open>Once the blocked request is complete, a further packet of the flow does not get through.\<close>

theorem system_blocks_flow_witness:
  "\<exists>l s s' p. demo_cfg_ok (demo_cfg l) \<and> sys_reachable (demo_cfg l) s \<and> of_flow block_key (fst p) \<and>
     sys_trace (demo_cfg l) block_key (flow_owner (demo_cfg l) block_key) s [p] s' \<and>
     filter_mset (of_flow block_key) (passed fr_items s') = filter_mset (of_flow block_key) (passed fr_items s)"
proof (rule block_trace)
  fix l s s' scratch ft ft' st
  let ?c = "demo_cfg l" and ?i = "flow_owner (demo_cfg l) block_key" and ?p = "demo_frame 0 80 253 (drop 20 block_bytes)"
  assume a: "demo_cfg_ok ?c" "sys_reachable ?c s" "steered fr_items ?c block_key ?i s"
    "sy_workers s ! ?i = Running (scratch, ft)" "flow_of slot_keys ft block_key = Some st"
    "loaded_env (env_of ?c ?i scratch) literal_matches (\<lambda>s d. True) [demo_rule]"
    "flow_tracks (env_of ?c ?i scratch) (new_flow TRAFFIC_HTTP) [(demo_cut 0 80 TRAFFIC_HTTP block_bytes 0 20, 6)] = Some st"
    "sys_trace ?c block_key ?i s [demo_last 0 80 block_bytes] s'"
    "alive block_key (ft_timeout_cycles ft) (st_last_seen_tsc st) [demo_last 0 80 block_bytes]"
    "ft_timeout_cycles ft = 1500" "sys_reachable ?c s'" "\<not> sy_quit s'" "sy_rx_up s'"
    "sy_workers s' ! ?i = Running (scratch, ft')" "sy_rings s' ! ?i = \<lparr>fr_capacity = 1023, fr_items = []\<rparr>"
    "steered fr_items ?c block_key ?i s'"
  obtain st' where st': "flow_of slot_keys ft' block_key = Some st'" "ft_timeout_cycles ft' = 1500"
    "flow_tracks (env_of ?c ?i scratch) st (owns block_key [demo_last 0 80 block_bytes]) = Some st'"
    by (rule system_passes [OF a(1-5,8,9)]) (use a(10,14) in \<open>auto simp: flow_at_def\<close>)
  have "we_hs (env_of ?c ?i scratch) = literal_hs" by (simp add: env_of_def demo_cfg_def)
  note v = block_verdict [OF a(6) this a(7) st'(3)]
  have p: "mbuf_ok ?p" "of_flow block_key ?p" by (rule block_frame)+
  obtain s'' where s'': "sys_trace ?c block_key ?i s' [(?p, 11, 12)] s''"
    by (rule block_round [OF a(1,11,16,14,12,13,15) p])
  have al: "alive block_key (ft_timeout_cycles ft') (st_last_seen_tsc st') [(?p, 11, 12)]"
    using st'(2) v(3) by simp
  show ?thesis
    using system_blocks_flow [OF a(1,11,16,14) st'(1) v(1,2) s'' al] a(1,11) s'' p(2)
    by (intro exI [of _ l] exI [of _ s'] exI [of _ s''] exI [of _ "(?p, 11, 12)"]) simp
qed

text \<open>
  C2: a blocked request in the running system. The flow has received the packets \<open>qs\<close>, the first of
  them with the first byte of a request; later the worker handles \<open>ps\<close>, then \<open>p\<close>, which completes the
  request, then anything. If \<open>http://\<close>, host and URI match a DROP rule, then of the packets from \<open>p\<close> on
  none of this flow gets past the inspection: what gets past is among what the machine lets through
  of \<open>ps\<close>.
\<close>

theorem system_blocks_request:
  assumes "cfg_ok ok keys slots contents matches fits c" and "sys_reachable c s"
    and "steered contents c k i s"
    and "sy_workers s ! i = Running (scratch, ft)" and "flow_of keys ft k = Some st"
    and "env = env_of c i scratch" and "loaded_env env matches fits lines"
    and "flow_tracks env (new_flow TRAFFIC_HTTP) qs = Some st" and "classify_port (dst_port k) = Some TRAFFIC_HTTP"
    and "sys_trace c k i s (ps @ p # rest) s'"
    and "alive k (ft_timeout_cycles ft) (st_last_seen_tsc st) (ps @ p # rest)"
    and "request_ok m uri version hdrs name host"
    and "req = request_head m uri version hdrs @ host_line name n host" and "length req \<le> FLOW_BUF_CAP - 1"
    and "map (\<lambda>i. T (base + of_nat i)) [0..<length req] = req"
    and "qs \<noteq> []" and "covers (fst (hd qs)) base"
    and "\<forall>q \<in> set qs. seg_of T base (fst q) \<and> l2l4_type (fst q) = TRAFFIC_HTTP"
    and "\<forall>q \<in> set (owns k (ps @ [p])). seg_of T base (fst q)"
    and "\<forall>i < length req. \<exists>q \<in> set (qs @ owns k (ps @ [p])). covers (fst q) (base + of_nat i)"
    and "own k p \<noteq> None" and "url = take (FLOW_SCAN_BUF_CAP - 1) (ascii ''http://'' @ host @ uri)"
    and "\<not> scan_failed (we_hs env) (we_engine env) (we_scratch env) TRAFFIC_HTTP url"
    and "drop_rule matches (typed_lines lines TRAFFIC_HTTP) url"
  shows "\<exists>M. M \<subseteq># mset (passes env k st ps) \<and>
    filter_mset (of_flow k) (passed contents s') = filter_mset (of_flow k) (passed contents s) + M"
proof -
  obtain l now where own: "own k p = Some (l, now)" using assms(21) by (metis not_None_eq surj_pair)
  obtain M where M: "M \<subseteq># mset (passes env k st (ps @ p # rest))" "\<forall>q \<in> set (ps @ p # rest). mbuf_ok (fst q)"
    "filter_mset (of_flow k) (passed contents s') = filter_mset (of_flow k) (passed contents s) + M"
    using system_passes [OF assms(1-5,10,11)] unfolding assms(6) by metis
  have set: "settles TRAFFIC_HTTP req url" unfolding assms(22) by (rule http_settles [OF assms(12-14)])
  have v: "scan_verdict env TRAFFIC_HTTP url = ACTION_DROP"
    using loaded_verdict [OF assms(7) _ assms(23)] assms(24) by simp
  have req: "req \<noteq> []" using set by (simp add: settles_def)
  have early: "early base qs = []" using assms(16,17) by (cases qs) auto
  have track: "on_track T base req ACTION_DROP (rev (map fst qs)) st"
    using tracks_all [OF set v assms(15) on_track_new [OF req], of qs TRAFFIC_HTTP] early assms(8,18) seg_part by auto
  have base: "\<exists>l \<in> set (rev (map fst qs)). covers l base" using assms(16,17) by (cases qs) auto
  have "l2l4_type (fst q) = TRAFFIC_HTTP" if "q \<in> set (owns k (ps @ [p]))" for q
    using owns_type [of "fst q" "snd q" k "ps @ [p]"] that M(2) assms(9) by simp
  then have segs: "\<forall>q \<in> set (owns k (ps @ [p])). seg_of T base (fst q) \<and> l2l4_type (fst q) = TRAFFIC_HTTP"
    using assms(19) by blast
  have cov: "\<forall>i < length req. \<exists>l \<in> set (rev (map fst qs)) \<union> fst ` set (owns k (ps @ [p])).
      covers l (base + of_nat i)"
    using assms(20) by (fastforce simp: image_iff)
  show ?thesis
    using M(1,3) passes_until_blocked [OF set v assms(15) track base own segs cov, of rest] by auto
qed

text \<open>The second half completes the request: nothing of the flow is added to what has passed.\<close>

theorem system_blocks_request_witness:
  "\<exists>l s s'. demo_cfg_ok (demo_cfg l) \<and> sys_reachable (demo_cfg l) s \<and>
     sys_trace (demo_cfg l) block_key (flow_owner (demo_cfg l) block_key) s [demo_last 0 80 block_bytes] s' \<and>
     filter_mset (of_flow block_key) (passed fr_items s') = filter_mset (of_flow block_key) (passed fr_items s)"
proof (rule block_trace)
  fix l s s' scratch ft ft' st
  let ?c = "demo_cfg l" and ?i = "flow_owner (demo_cfg l) block_key" and ?p = "demo_last 0 80 block_bytes"
    and ?T = "stream_of 1001 block_bytes" and ?a = "demo_cut 0 80 TRAFFIC_HTTP block_bytes 0 20"
  assume a: "demo_cfg_ok ?c" "sys_reachable ?c s" "steered fr_items ?c block_key ?i s"
    "sy_workers s ! ?i = Running (scratch, ft)" "flow_of slot_keys ft block_key = Some st"
    "loaded_env (env_of ?c ?i scratch) literal_matches (\<lambda>s d. True) [demo_rule]"
    "flow_tracks (env_of ?c ?i scratch) (new_flow TRAFFIC_HTTP) [(?a, 6)] = Some st"
    "sys_trace ?c block_key ?i s [?p] s'" "alive block_key (ft_timeout_cycles ft) (st_last_seen_tsc st) [?p]"
  have port: "classify_port (dst_port block_key) = Some TRAFFIC_HTTP"
    using block_facts(4) by (simp add: frame_key_def)
  have len: "length block_bytes \<le> 4096 - 1" using block_facts(3) by simp
  have tr: "sys_trace ?c block_key ?i s ([] @ ?p # []) s'"
    "alive block_key (ft_timeout_cycles ft) (st_last_seen_tsc st) ([] @ ?p # [])" using a(8,9) by simp_all
  have q: "[(?a, 6)] \<noteq> []" "covers (fst (hd [(?a, 6 :: u64)])) 1001"
    "\<forall>q \<in> set [(?a, 6 :: u64)]. seg_of ?T 1001 (fst q) \<and> l2l4_type (fst q) = TRAFFIC_HTTP"
    "\<forall>q \<in> set (owns block_key ([] @ [?p])). seg_of ?T 1001 (fst q)" "own block_key ?p \<noteq> None"
    using block_segments(2,3) block_owns(1) by (simp_all add: map_filter_simps)
  have cov: "\<forall>i < length block_bytes. \<exists>q \<in> set ([(?a, 6)] @ owns block_key ([] @ [?p])). covers (fst q) (1001 + of_nat i)"
    using block_segments(4) block_owns(1) by (auto simp: map_filter_simps)
  have nf: "\<not> scan_failed (we_hs (env_of ?c ?i scratch)) (we_engine (env_of ?c ?i scratch))
      (we_scratch (env_of ?c ?i scratch)) TRAFFIC_HTTP url" for url
    by (simp add: env_of_def demo_cfg_def literal_never_fails)
  have "\<exists>M. M \<subseteq># mset (passes (env_of ?c ?i scratch) block_key st []) \<and>
      filter_mset (of_flow block_key) (passed fr_items s') = filter_mset (of_flow block_key) (passed fr_items s) + M"
    by (rule system_blocks_request [OF a(1-5) refl a(6,7) port tr block_facts(1,2) len block_segments(1)
          q(1-4) cov q(5) refl nf block_url(2)])
  then show ?thesis using a(1,2,8) by auto
qed

end
