(* ===== verification/Moved_Flows.thy ===== *)
theory Moved_Flows
  imports Blocking
begin

text \<open>
  What rebalancing means for a flow in the running system: which step can move its bucket to another
  worker, and what happens to a blocked flow that is moved. This theory has no code of its own.
\<close>

section \<open>The steps that move a bucket\<close>

lemma sys_stats_keeps_active:
  assumes cfg: "cfg_ok ok keys slots contents matches fits c" and inv: "sys_inv ok keys contents c s"
    and sl: "sy_stats_loop s = Running sl" and u: "length up = MAX_WORKERS" "length uc = MAX_WORKERS"
    and run: "sys_stats c s sl up uc now = Some s'"
    and moved: "bucket_owner c k s' \<noteq> bucket_owner c k s"
  shows "sa_rebalance_enabled (la_stats_args (cf_launch c))"
    and "unat (bucket_last_seen_tsc (sy_bt s) ! bucket_of (cf_jhash c k)) +
      unat (idle_threshold_cycles (cf_hz c)) < unat now"
proof -
  let ?a = "la_stats_args (cf_launch c)"
  have len: "length (sy_stats s) = length (la_stats (cf_launch c))" "length (sl_worker_prev sl) = 4"
    using inv sl by (simp_all add: sys_defs)
  note a = cfg_args [OF cfg len(1)]
  have r: "mono (cf_rnd c)" "cf_rnd c 0 = 0" using cfg by (simp_all add: cfg_ok_def)
  have bt: "buckets_inv (sa_num_workers ?a) (sy_bt s)" using inv a(3) by (simp add: sys_defs)
  obtain sl' bt' rep where o: "stats_tick (cf_rnd c) ?a (cf_lcores c) (cf_hz c) up uc
      (sy_stats s) sl (sy_bt s) now = Some (sl', bt', rep)"
    "case tr_moved rep of None \<Rightarrow> bt' = sy_bt s
     | Some (m, from, to) \<Rightarrow> sa_rebalance_enabled ?a \<and>
         parser_bucket_rebalance (sy_bt s) from to now (idle_threshold_cycles (cf_hz c)) = Some (bt', m)"
    using stats_tick_spec [OF r a(1,2) len(2) u bt, of "cf_hz c" now] by (fastforce split: option.splits)
  have "sy_bt s' = bt'" using run o(1) by (auto simp: sys_stats_def)
  then have ne: "bucket_worker bt' ! bucket_of (cf_jhash c k) \<noteq> bucket_worker (sy_bt s) ! bucket_of (cf_jhash c k)"
    using moved by (auto simp: bucket_owner_def)
  then obtain m src dst where p: "sa_rebalance_enabled ?a"
    "parser_bucket_rebalance (sy_bt s) src dst now (idle_threshold_cycles (cf_hz c)) = Some (bt', m)"
    using o(2) by (cases "tr_moved rep") auto
  show "sa_rebalance_enabled ?a" by (rule p(1))
  show "unat (bucket_last_seen_tsc (sy_bt s) ! bucket_of (cf_jhash c k)) +
      unat (idle_threshold_cycles (cf_hz c)) < unat now"
    using rebalance_active_stays [OF bt p(2), of "bucket_of (cf_jhash c k)"] ne by fastforce
qed

lemma step_moves_bucket:
  assumes cfg: "cfg_ok ok keys slots contents matches fits c"
    and "sys_step c s s'" "sys_inv ok keys contents c s" "bucket_owner c k s' \<noteq> bucket_owner c k s"
  shows "sa_rebalance_enabled (la_stats_args (cf_launch c)) \<and>
    (\<exists>sl up uc now. sys_stats c s sl up uc now = Some s' \<and>
       unat (bucket_last_seen_tsc (sy_bt s) ! bucket_of (cf_jhash c k)) +
         unat (idle_threshold_cycles (cf_hz c)) < unat now)"
  using assms(2-4)
proof (induction rule: sys_step_induct)
  case (step_stats s sl up uc now s')
  then show ?case using sys_stats_keeps_active [OF cfg] by blast
next
  case (step_rx s bufs now s')
  have "bucket_worker (sy_bt s') = bucket_worker (sy_bt s)"
    by (rule sys_rx_rings [OF cfg step_rx.prems(1) step_rx.hyps(3,5)])
  then show ?case using step_rx.prems(2) by (simp add: bucket_owner_def)
next
  case (step_worker_start j s zt zs)
  then show ?case by (simp add: bucket_owner_def sys_worker_start_def split: prod.splits)
qed (auto simp: bucket_owner_def sys_worker_def sys_tx_def sys_stats_start_def split: Option.bind_splits)

section \<open>Single packets\<close>

text \<open>The first packet of a flow on an empty table.\<close>

lemma empty_table_packet:
  assumes con: "rte_hash_contract (we_hash env) slot_ok slot_keys slots" and env: "we_hash env = slot_ops"
    "scan_safe env" and inv: "worker_inv slot_ok slot_keys env w"
    and w0: "wk_ft w = empty_table timeout" "wk_fwd w = []"
    and l: "parser_parse_l2_l4 pkt = Some (Some l)" "mbuf_ok pkt"
    and n: "0 < length (l2l4_payload l)" "length (l2l4_payload l) \<le> 4095"
    and scan: "scan_request (l2l4_type l) (l2l4_payload l) = (status, out)"
      "status = REASSEMBLY_READY \<and> out \<noteq> None \<or> status = REASSEMBLY_PENDING"
  obtains ft st no_sni a where "worker_packet env w (pkt, ts, now) = Some (account env w pkt (l2l4_type l) no_sni a ft)"
    "flow_of slot_keys ft (l2l4_key l) = Some st" "st_last_seen_tsc st = now" "ft_timeout_cycles ft = timeout"
    "status = REASSEMBLY_PENDING \<Longrightarrow> a = ACTION_FORWARD"
    "status = REASSEMBLY_READY \<Longrightarrow> st_verdict_cached st \<and> st_cached_action st = a \<and>
       a = scan_verdict env (l2l4_type l) (the out)"
proof -
  have seg: "seg_ok l" using parsed_ok(1) [OF l] by (simp add: l2l4_ok_def)
  have room: "length (wk_fwd w) < 32" using w0(2) by simp
  obtain ft r F1 F2 ft1 where u1: "worker_packet env w (pkt, ts, now) = Some (account env w pkt
        (l2l4_type l) (ur_no_sni r) (verdict_of env (l2l4_type l) r) ft)"
      "parser_flow_update (we_hash env) (wk_ft w) l ts now = Some (ft1, r)"
      "packet_effect F1 l now F2 r"
      "flow_of slot_keys ft = after_verdict F2 (l2l4_key l) r (verdict_of env (l2l4_type l) r)"
    using worker_packet_parsed [OF con inv env(2) l(2,1) room] by blast
  obtain st r' where u: "flow_state_update (new_flow (l2l4_type l)) l now = Some (st, r')"
    using flow_state_update_spec [OF new_flow_facts(1) seg] by blast
  have "r' = r" using empty_table_update [OF u, of timeout ts] u1(2) env(1) w0(1) by auto
  then have a: "answer r = (status, out)" using first_segment_answer [OF seg n u] scan(1) by simp
  then have s: "ur_status r = status" by (simp add: answer_def)
  obtain st1 where "F2 (l2l4_key l) = Some st1"
    using u1(3) s scan(2) by (auto simp: packet_effect_def only_status_def)
  then obtain st2 where st2: "flow_of slot_keys ft (l2l4_key l) = Some st2"
    "status = REASSEMBLY_READY \<Longrightarrow> st_verdict_cached st2 \<and>
       st_cached_action st2 = verdict_of env (l2l4_type l) r"
    using u1(4) s scan(2) by (cases status) (auto simp: after_verdict_def decides_def set_verdict_def)
  have none: "flow_of slot_keys (wk_ft w) (l2l4_key l) = None" using flow_of_empty_table by (simp add: w0(1))
  have ft: "wk_ft (account env w pkt ty ns a ft) = ft" for ty ns a by (simp add: account_def)
  obtain st3 ns b ft' where f: "flow_track env (new_flow (l2l4_type l)) (l, now) = Some (st3, ns, b)"
    "flow_of slot_keys ft (l2l4_key l) = Some st3" "ft_timeout_cycles ft = ft_timeout_cycles (wk_ft w)"
    using worker_packet_first [OF con env(2) inv l(2) room none l(1) refl u1(1)] st2(1) unfolding ft by blast
  have "st_last_seen_tsc st2 = now" using flow_track_seen [OF f(1) new_flow_facts(1) seg] f(2) st2(1) by simp
  then show ?thesis
    using that [OF u1(1) st2(1)] st2(2) a s scan(2) f(3) w0(1)
    by (auto simp: verdict_of_def answer_def decides_def empty_table_def split: option.splits)
qed

text \<open>A worker that finds one packet handles it.\<close>

lemma sys_worker_one:
  fixes c :: "('h, 'd, 's, fifo_ring) sys_cfg"
  assumes cfg: "cfg_ok ok keys slots fr_items matches fits c" and inv: "sys_inv ok keys fr_items c s"
    and c: "cf_ring c = fifo_ops" and quit: "\<not> sy_quit s"
    and i: "i < sys_workers c" and th: "sy_workers s ! i = Running (scratch, ft)"
    and ring: "fr_items (sy_rings s ! i) = [pkt]"
    and tx: "length (fr_items (sy_tx s)) < fr_capacity (sy_tx s)"
    and wp: "worker_packet (env_of c i scratch) (worker_at s ft) (pkt, ts, now) =
      Some (account (env_of c i scratch) (worker_at s ft) pkt ty no_sni a ft')"
  defines "lc \<equiv> la_worker_lcores (cf_launch c) ! i"
  obtains s' where "sys_step c s s'" "sy_quit s' = sy_quit s" "sy_rx_up s' = sy_rx_up s"
    "sy_workers s' = (sy_workers s)[i := Running (scratch, ft')]" "sy_bt s' = sy_bt s"
    "sy_stats_loop s' = sy_stats_loop s" "sy_rings s' = (sy_rings s)[i := (sy_rings s ! i)\<lparr>fr_items := []\<rparr>]"
    "passed fr_items s' = passed fr_items s + (if a = ACTION_DROP then {#} else {#pkt#})"
    "a = ACTION_DROP \<longrightarrow> sy_tx s' = sy_tx s"
    "processed (sy_stats s' ! lc) = processed (sy_stats s ! lc) + 1"
    "\<forall>l. l \<noteq> lc \<longrightarrow> sy_stats s' ! l = sy_stats s ! l"
proof -
  let ?e = "env_of c i scratch" and ?w = "worker_at s ft" and ?r = "(sy_rings s ! i)\<lparr>fr_items := []\<rparr>"
  let ?w1 = "account ?e ?w pkt ty no_sni a ft'"
  note wf = worker_facts [OF cfg inv i th]
  have lcs: "lc < length (sy_stats s)" "we_lcore ?e = lc"
    using inv cfg_lcores(7) [OF cfg cfg_lcores(5) [OF cfg i]] by (simp_all add: sys_defs lc_def env_of_def)
  have w0: "wk_fwd ?w = []" "?w\<lparr>wk_fwd := []\<rparr> = ?w" "wk_stats ?w = sy_stats s" by (simp_all add: worker_at_def)
  obtain w2 tx' where fl: "worker_flush ?e fifo_ops ?w1 (sy_tx s) = Some (w2, tx')" "wk_ft w2 = ft'"
    "fr_items tx' = fr_items (sy_tx s) @ (if a = ACTION_DROP then [] else [pkt])"
    "a = ACTION_DROP \<longrightarrow> tx' = sy_tx s"
  proof (cases a)
    case ACTION_DROP
    then have "worker_flush ?e fifo_ops ?w1 (sy_tx s) = Some (?w1, sy_tx s)"
      using w0(1) by (simp add: worker_flush_def account_def)
    then show ?thesis using ACTION_DROP by (intro that [of ?w1 "sy_tx s"]) (simp_all add: account_def)
  next
    case ACTION_FORWARD
    then have fwd: "wk_fwd ?w1 = [pkt]" "wk_ft ?w1 = ft'" "lc < length (wk_stats ?w1)"
      using w0 lcs(1) by (simp_all add: account_def)
    have sent: "ring_enqueue_burst fifo_ops (sy_tx s) [pkt] = ((sy_tx s)\<lparr>fr_items := fr_items (sy_tx s) @ [pkt]\<rparr>, 1)"
      using tx by (simp add: fifo_ops_def Let_def)
    then obtain t where f: "worker_flush ?e fifo_ops ?w1 (sy_tx s) =
        Some (?w1\<lparr>wk_stats := t, wk_freed := wk_freed ?w1 @ drop 1 [pkt]\<rparr>, (sy_tx s)\<lparr>fr_items := fr_items (sy_tx s) @ [pkt]\<rparr>)"
      unfolding worker_flush_def fwd(1) lcs(2)
      by (auto simp: count_n_def stats_count_forwarded_def on_core_in [OF fwd(3)])
    show ?thesis by (rule that [OF f]) (use ACTION_FORWARD fwd(2) in simp_all)
  qed
  have "worker_iteration ?e fifo_ops ?w (sy_rings s ! i) (sy_tx s) (\<lambda>_. (ts, now)) = Some (w2, ?r, tx')"
    unfolding worker_iteration_def using ring w0(2) wp fl(1) by (simp add: fifo_ops_def)
  then obtain s' where s': "sys_worker c s i scratch ft (\<lambda>_. (ts, now)) = Some s'"
    "sy_workers s' = (sy_workers s)[i := Running (scratch, ft')]" "sy_rings s' = (sy_rings s)[i := ?r]"
    "sy_tx s' = tx'" "sy_quit s' = sy_quit s" "sy_rx_up s' = sy_rx_up s" "sy_bt s' = sy_bt s"
    "sy_stats_loop s' = sy_stats_loop s" "sy_tx_freed s' = sy_tx_freed s" "sy_wire s' = sy_wire s"
    using wf(5) c fl(2) by (simp add: sys_worker_def)
  obtain ft2 r' tx2 bufs fwd dr x where b:
    "sys_worker c s i scratch ft (\<lambda>_. (ts, now)) = Some (s\<lparr>sy_workers := (sy_workers s)[i := Running (scratch, ft2)],
       sy_stats := (sy_stats s)[lc := x], sy_freed := sy_freed s @ dr, sy_rings := (sy_rings s)[i := r'],
       sy_tx := tx2, sy_taken := (sy_taken s)[i := sy_taken s ! i @ bufs]\<rparr>)"
    "fr_items (sy_rings s ! i) = bufs @ fr_items r'"
    "burst_counted (length bufs) (length (fwd :: rte_mbuf list)) (length dr) (sy_stats s ! lc) x"
    unfolding lc_def by (rule sys_worker_burst [OF cfg inv i th, of "\<lambda>_. (ts, now)"])
  then have b4: "sy_rings s' = (sy_rings s)[i := r']" "sy_stats s' = (sy_stats s)[lc := x]" using s'(1) by simp_all
  have "i < length (sy_rings s)" using inv i by (simp add: sys_defs)
  then have "r' = ?r" using b4(1) s'(3) by (metis nth_list_update_eq)
  then have "length bufs = 1" using b(2) ring by auto
  then have "processed x = processed (sy_stats s ! lc) + 1" using b(3) by (simp add: burst_counted_def)
  then show ?thesis
    using that [OF step_worker [OF quit i th s'(1)]] s'(2-10) b4(2) lcs(1) fl(3,4) by (simp add: passed_def)
qed

text \<open>A further packet of a flow whose verdict is DROP.\<close>

lemma blocked_packet:
  assumes con: "rte_hash_contract (we_hash env) ok keys slots" and safe: "scan_safe env"
    and inv: "worker_inv ok keys env w" and m: "mbuf_ok pkt" and w0: "wk_fwd w = []"
    and st: "flow_of keys (wk_ft w) k = Some st" "st_verdict_cached st" "st_cached_action st = ACTION_DROP"
    and fresh: "ts - st_last_seen_tsc st \<le> ft_timeout_cycles (wk_ft w)"
    and l: "parser_parse_l2_l4 pkt = Some (Some l)" "l2l4_key l = k"
  obtains ft no_sni where
    "worker_packet env w (pkt, ts, now) = Some (account env w pkt (l2l4_type l) no_sni ACTION_DROP ft)"
    "flow_of keys ft k = Some (st\<lparr>st_last_seen_tsc := now\<rparr>)" "ft_timeout_cycles ft = ft_timeout_cycles (wk_ft w)"
proof -
  have room: "length (wk_fwd w) < 32" using w0 by simp
  obtain ft st' no_sni a where o: "flow_track env st (l, now) = Some (st', no_sni, a)"
    "worker_packet env w (pkt, ts, now) = Some (account env w pkt (l2l4_type l) no_sni a ft)"
    "flow_of keys ft k = Some st'" "ft_timeout_cycles ft = ft_timeout_cycles (wk_ft w)"
    by (rule worker_packet_own [OF con safe inv m room st(1) fresh l])
  have "st' = st\<lparr>st_last_seen_tsc := now\<rparr> \<and> a = ACTION_DROP"
    using o(1) st(2,3) by (auto simp: flow_track_def flow_state_update_cached verdict_of_def answer_def decides_def)
  then show ?thesis using that o(2-4) by blast
qed

lemma tail_waits: "scan_request TRAFFIC_HTTP (drop 20 block_bytes) = (REASSEMBLY_PENDING, None)"
  by (simp add: scan_request_def http_url_def block_bytes_def ascii_def crlf_def give_up_or_wait_def)

section \<open>A blocked flow that is moved\<close>

text \<open>
  Two workers, a clock of 1000 ticks a second, rebalancing on. The flow's bucket 5 belongs to worker 1.
\<close>

definition small_launch :: "(fifo_ring, literal_db) launch \<Rightarrow> bool" where
  "small_launch l \<longleftrightarrow> demo_cfg_ok (demo_cfg l) \<and> la_num_workers l = 2 \<and> la_flow_timeout l = 1500 \<and>
     dpi_engine_load_rules literal_hs (\<lambda>c. True) True True (Some (rule_text demo_rule @ [10])) zero_engine =
       (True, la_engine l) \<and>
     la_worker_rings l = replicate 2 \<lparr>fr_capacity = 1023, fr_items = []\<rparr> \<and>
     la_tx_ring l = \<lparr>fr_capacity = 1023, fr_items = []\<rparr> \<and>
     la_rx_lcore l = 1 \<and> la_worker_lcores l = [2, 3, 0, 0] \<and> parser_bucket_table_init 2 = Some (la_buckets l) \<and>
     la_stats_args l = \<lparr>sa_num_workers = 2, sa_worker_lcores = [2, 3, 0, 0], sa_rebalance_enabled = True\<rparr> \<and>
     la_stats l = stats_init 128"

lemma small_launch_exists: "\<exists>l. small_launch l"
proof -
  obtain l where l: "main_start literal_hs demo_platform (\<lambda>k. replicate k 0) demo_args = Some (Inr l)"
    "la_num_workers l = 2" "used_lcores l = [1, 2, 3, 4, 5]" "dpi_engine_load_rules literal_hs (\<lambda>c. True) True True
       (Some (rule_text demo_rule @ [10])) zero_engine = (True, la_engine l)"
    "la_worker_rings l = replicate 2 \<lparr>fr_capacity = 1023, fr_items = []\<rparr>"
    "la_tx_ring l = \<lparr>fr_capacity = 1023, fr_items = []\<rparr>" "la_flow_timeout l = 1500"
    "la_worker_lcores l = [2, 3, 0, 0]" "parser_bucket_table_init 2 = Some (la_buckets l)"
    "la_stats_args l = \<lparr>sa_num_workers = 2, sa_worker_lcores = [2, 3, 0, 0], sa_rebalance_enabled = True\<rparr>"
    "la_stats l = stats_init 128"
    by (rule demo_launches)
  obtain l' s where "main_start literal_hs demo_platform (\<lambda>k. replicate k 0) demo_args = Some (Inr l')"
    "demo_cfg_ok (demo_cfg l')"
    by (rule demo_system)
  then have "demo_cfg_ok (demo_cfg l)" using l(1) by simp
  moreover have "la_rx_lcore l = 1" using l(3) by (simp add: used_lcores_def)
  ultimately show ?thesis using l unfolding small_launch_def by blast
qed

lemma demo_cfg_sel [simp]:
  "cf_jhash (demo_cfg l) = (\<lambda>k. 5)" "cf_hash (demo_cfg l) = slot_ops" "cf_hs (demo_cfg l) = literal_hs"
  "cf_hash_create (demo_cfg l) = (\<lambda>name. Some (replicate 1024 None))" "cf_ring (demo_cfg l) = fifo_ops"
  "cf_lcores (demo_cfg l) = [0, 1, 2, 3, 4, 5, 6]" "cf_hz (demo_cfg l) = 1000" "cf_rnd (demo_cfg l) = (\<lambda>x. x)"
  "cf_launch (demo_cfg l) = l" "sys_workers (demo_cfg l) = la_num_workers l" "bucket_of 5 = 5"
  by (simp_all add: demo_cfg_def sys_workers_def bucket_of_def)

definition whole_frame :: rte_mbuf where "whole_frame = demo_frame 0 80 233 block_bytes"
definition tail_frame :: rte_mbuf where "tail_frame = demo_frame 0 80 253 (drop 20 block_bytes)"

lemma whole_frame_parses:
  obtains l where "parser_parse_l2_l4 whole_frame = Some (Some l)" "l2l4_key l = block_key"
    "l2l4_type l = TRAFFIC_HTTP" "l2l4_payload l = block_bytes" "mbuf_ok whole_frame" "of_flow block_key whole_frame"
proof -
  let ?l = "demo_cut 0 80 TRAFFIC_HTTP block_bytes 0 35"
  have "parser_parse_l2_l4 whole_frame = Some (Some ?l)" "mbuf_ok whole_frame"
    using demo_frame_parses [OF block_facts(4), of 233 0 block_bytes 35 block_bytes] block_facts(3)
    by (simp_all add: be32_def whole_frame_def demo_frame_ok)
  moreover have "l2l4_key ?l = block_key" "l2l4_type ?l = TRAFFIC_HTTP" "l2l4_payload ?l = block_bytes"
    using block_facts(3) by (simp_all add: demo_cut_def cut_segment_def demo_segment_def)
  ultimately show ?thesis using that [of ?l] by (auto simp: of_flow_def)
qed

lemma tail_frame_parses:
  obtains l where "parser_parse_l2_l4 tail_frame = Some (Some l)" "l2l4_key l = block_key"
    "l2l4_type l = TRAFFIC_HTTP" "l2l4_payload l = drop 20 block_bytes"
  using demo_frame_parses [OF block_facts(4), of 253 20 "drop 20 block_bytes" 15 block_bytes] block_facts(3)
  by (intro that [of "demo_cut 0 80 TRAFFIC_HTTP block_bytes 20 15"])
    (simp_all add: be32_def tail_frame_def demo_cut_def cut_segment_def demo_segment_def)

text \<open>
  The state after \<open>n\<close> packets of the flow: worker 1 has seen the blocked request and drops; nothing
  has passed. The statistics thread has started at 4, the last packet came in at 5.
\<close>

definition blocked_run :: "(fifo_ring, literal_db) launch \<Rightarrow> nat \<Rightarrow> (slot_hash, unit, fifo_ring) sys \<Rightarrow> bool" where
  "blocked_run l n s \<longleftrightarrow> sys_reachable (demo_cfg l) s \<and> \<not> sy_quit s \<and> sy_rx_up s \<and>
     sy_rings s = replicate 2 \<lparr>fr_capacity = 1023, fr_items = []\<rparr> \<and>
     sy_tx s = \<lparr>fr_capacity = 1023, fr_items = []\<rparr> \<and> passed fr_items s = {#} \<and>
     sy_bt s = (la_buckets l)\<lparr>bucket_last_seen_tsc := (replicate 256 0)[5 := 5]\<rparr> \<and>
     (\<exists>sc0 sc1 ft st. sy_workers s = [Running (sc0, empty_table 1500), Running (sc1, ft)] \<and>
        ft_timeout_cycles ft = 1500 \<and> flow_of slot_keys ft block_key = Some st \<and> st_verdict_cached st \<and>
        st_cached_action st = ACTION_DROP \<and> st_last_seen_tsc st = 6) \<and>
     (\<exists>sl. sy_stats_loop s = Running sl \<and> sl_worker_prev sl = replicate 4 0 \<and> sl_last_tsc sl = 4) \<and>
     processed (sy_stats s ! 2) = 0 \<and> processed (sy_stats s ! 3) = of_nat n"

lemma bucket_5:
  assumes "small_launch l"
  shows "length (bucket_worker (la_buckets l)) = 256" "bucket_worker (la_buckets l) ! 5 = 1"
    "bucket_last_seen_tsc (la_buckets l) = replicate 256 0"
    "bucket_worker (la_buckets l) = map (\<lambda>b. of_nat (b mod 2)) [0..<256]"
proof -
  have "la_buckets l = \<lparr>bucket_worker = map (\<lambda>b. of_nat (b mod 2)) [0..<256], bucket_last_seen_tsc = replicate 256 0\<rparr>"
    using assms by (simp add: small_launch_def parser_bucket_table_init_def)
  then show "length (bucket_worker (la_buckets l)) = 256" "bucket_worker (la_buckets l) ! 5 = 1"
    "bucket_last_seen_tsc (la_buckets l) = replicate 256 0"
    "bucket_worker (la_buckets l) = map (\<lambda>b. of_nat (b mod 2)) [0..<256]" by simp_all
qed

text \<open>
  A packet of the flow comes in at \<open>stamp\<close> and the worker that owns the bucket handles it.
\<close>

lemma small_round:
  assumes l: "small_launch l" and r: "sys_reachable (demo_cfg l) s" and up: "\<not> sy_quit s" "sy_rx_up s"
    and own: "bucket_owner (demo_cfg l) block_key s = i" and th: "sy_workers s ! i = Running (sc, ft)"
    and rings: "sy_rings s = replicate 2 \<lparr>fr_capacity = 1023, fr_items = []\<rparr>"
    and tx: "sy_tx s = \<lparr>fr_capacity = 1023, fr_items = []\<rparr>" and p: "mbuf_ok pkt" "of_flow block_key pkt"
    and handled: "\<And>w. rte_hash_contract (we_hash (env_of (demo_cfg l) i sc)) slot_ok slot_keys FLOW_TABLE_CAPACITY \<Longrightarrow>
      scan_safe (env_of (demo_cfg l) i sc) \<Longrightarrow> worker_inv slot_ok slot_keys (env_of (demo_cfg l) i sc) w \<Longrightarrow>
      wk_ft w = ft \<Longrightarrow> wk_fwd w = [] \<Longrightarrow> \<exists>ty ns ft'. Q ft' \<and>
        worker_packet (env_of (demo_cfg l) i sc) w (pkt, ts, now) = Some (account (env_of (demo_cfg l) i sc) w pkt ty ns a ft')"
  obtains s' ft' where "sys_reachable (demo_cfg l) s'" "\<not> sy_quit s'" "sy_rx_up s'" "Q ft'"
    "sy_workers s' = (sy_workers s)[i := Running (sc, ft')]" "sy_rings s' = sy_rings s"
    "a = ACTION_DROP \<longrightarrow> sy_tx s' = sy_tx s" "sy_stats_loop s' = sy_stats_loop s"
    "passed fr_items s' = passed fr_items s + (if a = ACTION_DROP then {#} else {#pkt#})"
    "sy_bt s' = (sy_bt s)\<lparr>bucket_last_seen_tsc := (bucket_last_seen_tsc (sy_bt s))[5 := stamp]\<rparr>"
    "processed (sy_stats s' ! (2 + i)) = processed (sy_stats s ! (2 + i)) + 1"
    "\<forall>l. l \<noteq> 1 \<and> l \<noteq> 2 + i \<longrightarrow> sy_stats s' ! l = sy_stats s ! l"
    "(sys_step (demo_cfg l))\<^sup>*\<^sup>* s s'"
proof -
  let ?c = "demo_cfg l" and ?e = "env_of (demo_cfg l) i sc"
  have cfg: "demo_cfg_ok ?c" and lc: "la_num_workers l = 2" "la_worker_lcores l = [2, 3, 0, 0]" "la_rx_lcore l = 1"
    using l by (simp_all add: small_launch_def)
  note inv = reachable_inv [OF cfg]
  have i: "i < sys_workers ?c" using bucket_owner_less [OF inv [OF r]] own by auto
  then have i2: "i < 2" and lci: "la_worker_lcores (cf_launch ?c) ! i = 2 + i"
    using lc by (auto simp: numeral_2_eq_2 less_Suc_eq)
  have room: "length (fr_items (sy_rings s ! i)) < fr_capacity (sy_rings s ! i)" using rings i2 by simp
  obtain s1 where s1: "sys_step ?c s s1" "\<not> sy_quit s1" "sy_rx_up s1" "sy_workers s1 = sy_workers s"
    "passed fr_items s1 = passed fr_items s"
    "sy_rings s1 = (sy_rings s)[i := (sy_rings s ! i)\<lparr>fr_items := fr_items (sy_rings s ! i) @ [pkt]\<rparr>]"
    "sy_bt s1 = (sy_bt s)\<lparr>bucket_last_seen_tsc := (bucket_last_seen_tsc (sy_bt s))[bucket_of (cf_jhash ?c block_key) := stamp]\<rparr>"
    "sy_stats_loop s1 = sy_stats_loop s" "sy_tx s1 = sy_tx s"
    "\<forall>l. l \<noteq> la_rx_lcore (cf_launch ?c) \<longrightarrow> sy_stats s1 ! l = sy_stats s ! l"
    by (rule sys_rx_single [OF cfg inv [OF r] demo_cfg_sel(5) own up p room])
  have r1: "sys_reachable ?c s1" by (rule reach_step [OF r s1(1)])
  have h: "sy_workers s1 ! i = Running (sc, ft)" "fr_items (sy_rings s1 ! i) = [pkt]"
    "length (fr_items (sy_tx s1)) < fr_capacity (sy_tx s1)"
    using s1 th rings tx i2 by simp_all
  note wf = worker_facts [OF cfg inv [OF r1] i h(1)]
  obtain ty ns ft' where w: "Q ft'"
    "worker_packet ?e (worker_at s1 ft) (pkt, ts, now) = Some (account ?e (worker_at s1 ft) pkt ty ns a ft')"
    using handled [OF wf(1,3,4)] by (auto simp: worker_at_def)
  obtain s2 where s2: "sys_step ?c s1 s2" "sy_quit s2 = sy_quit s1" "sy_rx_up s2 = sy_rx_up s1"
    "sy_workers s2 = (sy_workers s1)[i := Running (sc, ft')]" "sy_bt s2 = sy_bt s1"
    "sy_stats_loop s2 = sy_stats_loop s1" "sy_rings s2 = (sy_rings s1)[i := (sy_rings s1 ! i)\<lparr>fr_items := []\<rparr>]"
    "passed fr_items s2 = passed fr_items s1 + (if a = ACTION_DROP then {#} else {#pkt#})"
    "a = ACTION_DROP \<longrightarrow> sy_tx s2 = sy_tx s1"
    "processed (sy_stats s2 ! (2 + i)) = processed (sy_stats s1 ! (2 + i)) + 1"
    "\<forall>l. l \<noteq> 2 + i \<longrightarrow> sy_stats s2 ! l = sy_stats s1 ! l"
    by (rule sys_worker_one [OF cfg inv [OF r1] demo_cfg_sel(5) s1(2) i h w(2), unfolded lci])
  have "sy_rings s2 = sy_rings s"
    using s1(6) s2(7) rings i2 by (auto simp: numeral_2_eq_2 less_Suc_eq)
  then show ?thesis
    using s1 s2 w(1) lc(3) by (intro that [OF reach_step [OF r1 s2(1)]]) simp_all
qed

lemma blocked_run_more:
  assumes l: "small_launch l" and s: "blocked_run l n s"
  shows "\<exists>s'. blocked_run l (Suc n) s'"
proof -
  let ?c = "demo_cfg l"
  obtain q where q: "parser_parse_l2_l4 whole_frame = Some (Some q)" "l2l4_key q = block_key"
    "mbuf_ok whole_frame" "of_flow block_key whole_frame" by (rule whole_frame_parses)
  obtain sc0 sc1 ft st where w: "sy_workers s = [Running (sc0, empty_table 1500), Running (sc1, ft)]"
    "ft_timeout_cycles ft = 1500" "flow_of slot_keys ft block_key = Some st" "st_verdict_cached st"
    "st_cached_action st = ACTION_DROP" "st_last_seen_tsc st = 6"
    using s by (auto simp: blocked_run_def)
  have st: "sys_reachable ?c s" "\<not> sy_quit s" "sy_rx_up s" "bucket_owner ?c block_key s = 1"
    "sy_workers s ! 1 = Running (sc1, ft)" "sy_rings s = replicate 2 \<lparr>fr_capacity = 1023, fr_items = []\<rparr>"
    "sy_tx s = \<lparr>fr_capacity = 1023, fr_items = []\<rparr>"
    using s w(1) bucket_5 [OF l] by (simp_all add: blocked_run_def bucket_owner_def)
  obtain s' ft' where s': "sys_reachable ?c s'" "\<not> sy_quit s'" "sy_rx_up s'"
    "ft_timeout_cycles ft' = 1500 \<and> flow_of slot_keys ft' block_key = Some (st\<lparr>st_last_seen_tsc := 6\<rparr>)"
    "sy_workers s' = (sy_workers s)[1 := Running (sc1, ft')]" "sy_rings s' = sy_rings s"
    "ACTION_DROP = ACTION_DROP \<longrightarrow> sy_tx s' = sy_tx s" "sy_stats_loop s' = sy_stats_loop s"
    "passed fr_items s' = passed fr_items s + (if ACTION_DROP = ACTION_DROP then {#} else {#whole_frame#})"
    "sy_bt s' = (sy_bt s)\<lparr>bucket_last_seen_tsc := (bucket_last_seen_tsc (sy_bt s))[5 := 5]\<rparr>"
    "processed (sy_stats s' ! (2 + 1)) = processed (sy_stats s ! (2 + 1)) + 1"
    "\<forall>l. l \<noteq> 1 \<and> l \<noteq> 2 + 1 \<longrightarrow> sy_stats s' ! l = sy_stats s ! l"
  proof (rule small_round [OF l st q(3,4), where ts = 6 and now = 6])
    fix v assume v: "rte_hash_contract (we_hash (env_of ?c 1 sc1)) slot_ok slot_keys FLOW_TABLE_CAPACITY"
      "scan_safe (env_of ?c 1 sc1)" "worker_inv slot_ok slot_keys (env_of ?c 1 sc1) v" "wk_ft v = ft" "wk_fwd v = []"
    show "\<exists>ty ns ft'. (ft_timeout_cycles ft' = 1500 \<and> flow_of slot_keys ft' block_key = Some (st\<lparr>st_last_seen_tsc := 6\<rparr>)) \<and>
        worker_packet (env_of ?c 1 sc1) v (whole_frame, 6, 6) =
          Some (account (env_of ?c 1 sc1) v whole_frame ty ns ACTION_DROP ft')"
      by (rule blocked_packet [OF v(1-3) q(3) v(5), unfolded v(4), OF w(3-5) _ q(1,2), of 6 6])
        (use w(2,6) v(4) in auto)
  qed
  have "blocked_run l (Suc n) s'"
    unfolding blocked_run_def using s s' w by (simp add: blocked_run_def add.commute numeral_3_eq_3)
  then show ?thesis by blast
qed

text \<open>The engine of a running worker has the rule.\<close>

lemma small_loaded:
  assumes l: "small_launch l" and r: "sys_reachable (demo_cfg l) s" and th: "sy_workers s ! 1 = Running (sc, ft)"
  shows "loaded_env (env_of (demo_cfg l) 1 sc) literal_matches (\<lambda>s d. True) [demo_rule]"
proof -
  have cfg: "demo_cfg_ok (demo_cfg l)" and "1 < sys_workers (demo_cfg l)"
    and eng: "dpi_engine_load_rules literal_hs (\<lambda>c. True) True True (Some (rule_text demo_rule @ [10])) zero_engine =
      (True, la_engine l)"
    using l by (simp_all add: small_launch_def)
  then have "worker_ok slot_ok slot_keys (demo_cfg l) (Running (sc, ft))"
    using reachable_inv [OF cfg r] th by (metis nth_mem sys_inv_def sys_wf_def)
  then show ?thesis
    unfolding loaded_env_def using literal.hyperscan_axioms eng demo_read
    by (auto simp: worker_ok_def env_of_def)
qed

text \<open>The threads start.\<close>

lemma small_system_starts:
  assumes l: "small_launch l"
  obtains s sc0 sc1 sl where "sys_reachable (demo_cfg l) s" "\<not> sy_quit s" "sy_rx_up s"
    "sy_rings s = replicate 2 \<lparr>fr_capacity = 1023, fr_items = []\<rparr>"
    "sy_tx s = \<lparr>fr_capacity = 1023, fr_items = []\<rparr>" "passed fr_items s = {#}" "sy_bt s = la_buckets l"
    "sy_workers s = [Running (sc0, empty_table 1500), Running (sc1, empty_table 1500)]"
    "sy_stats_loop s = Running sl" "sl_worker_prev sl = replicate 4 0" "sl_last_tsc sl = 4"
    "sy_stats s = stats_init 128"
proof -
  let ?c = "demo_cfg l"
  note d = l [unfolded small_launch_def]
  obtain p where "aggregate (stats_init 128) [0, 1, 2, 3, 4, 5, 6] = Some p"
    using aggregate_eq [of "[0, 1, 2, 3, 4, 5, 6]" "stats_init 128"] by (simp add: stats_init_def)
  moreover have "init_worker_prev (stats_init 128) [2, 3, 0, 0] 0 2 [0, 0, 0, 0] = Some [0, 0, 0, 0]"
    by (simp add: numeral_2_eq_2 mem_simps worker_processed_def stats_init_def nth_replicate zero_stats_def)
  ultimately obtain sl where sl: "stats_thread_start (la_stats_args l) [0, 1, 2, 3, 4, 5, 6] (la_stats l)
      [0, 0, 0, 0] 4 = Some sl" "sl_worker_prev sl = [0, 0, 0, 0]" "sl_last_tsc sl = 4"
    using d by (simp add: stats_thread_start_def)
  let ?s1 = "(sys_start ?c)\<lparr>sy_stats_loop := Running sl\<rparr>"
  have "sys_step ?c (sys_start ?c) ?s1"
    by (rule step_stats_start [where uninit = "[0, 0, 0, 0]" and now = 4])
      (use sl(1) in \<open>simp_all add: sys_stats_start_def sys_start_def\<close>)
  then have r1: "sys_reachable ?c ?s1" by (rule reach_step [OF reach_start])
  have w1: "sy_workers ?s1 = [Starting, Starting]" using d by (simp add: sys_start_def numeral_2_eq_2)
  obtain q0 sc0 where s2: "sys_step ?c ?s1 (?s1\<lparr>sy_table_seq := q0, sy_workers := (sy_workers ?s1)[0 :=
      Running (sc0, empty_table (la_flow_timeout (cf_launch ?c)))]\<rparr>)"
    by (rule sys_worker_starts [of ?c 0 ?s1]) (use d w1 in simp_all)
  let ?s2 = "?s1\<lparr>sy_table_seq := q0, sy_workers := [Running (sc0, empty_table 1500), Starting]\<rparr>"
  have r2: "sys_reachable ?c ?s2" using reach_step [OF r1 s2] d unfolding w1 by simp
  obtain q1 sc1 where s3: "sys_step ?c ?s2 (?s2\<lparr>sy_table_seq := q1, sy_workers := (sy_workers ?s2)[1 :=
      Running (sc1, empty_table (la_flow_timeout (cf_launch ?c)))]\<rparr>)"
    by (rule sys_worker_starts [of ?c 1 ?s2]) (use d in simp_all)
  let ?s3 = "?s2\<lparr>sy_table_seq := q1, sy_workers := [Running (sc0, empty_table 1500), Running (sc1, empty_table 1500)]\<rparr>"
  have r3: "sys_reachable ?c ?s3" using reach_step [OF r2 s3] d by simp
  show ?thesis
    by (rule that [OF r3]) (use d sl(2,3) in \<open>simp_all add: sys_start_def passed_def eval_nat_numeral\<close>)
qed

text \<open>The blocked request arrives.\<close>

lemma blocked_run_first:
  assumes l: "small_launch l"
  shows "\<exists>s. blocked_run l 1 s"
proof -
  let ?c = "demo_cfg l"
  obtain s sc0 sc1 sl where s: "sys_reachable ?c s" "\<not> sy_quit s" "sy_rx_up s"
    "sy_rings s = replicate 2 \<lparr>fr_capacity = 1023, fr_items = []\<rparr>"
    "sy_tx s = \<lparr>fr_capacity = 1023, fr_items = []\<rparr>" "passed fr_items s = {#}" "sy_bt s = la_buckets l"
    "sy_workers s = [Running (sc0, empty_table 1500), Running (sc1, empty_table 1500)]"
    "sy_stats_loop s = Running sl" "sl_worker_prev sl = replicate 4 0" "sl_last_tsc sl = 4"
    "sy_stats s = stats_init 128"
    by (rule small_system_starts [OF l])
  obtain q where q: "parser_parse_l2_l4 whole_frame = Some (Some q)" "l2l4_key q = block_key"
    "l2l4_type q = TRAFFIC_HTTP" "l2l4_payload q = block_bytes" "mbuf_ok whole_frame" "of_flow block_key whole_frame"
    by (rule whole_frame_parses)
  have own: "bucket_owner ?c block_key s = 1" using s(7) bucket_5 [OF l] by (simp add: bucket_owner_def)
  have th: "sy_workers s ! 1 = Running (sc1, empty_table 1500)" using s(8) by simp
  let ?url = "take (FLOW_SCAN_BUF_CAP - 1) (ascii ''http://'' @ ascii ''malware.com'' @ ascii ''/'')"
  have n: "0 < length (l2l4_payload q)" "length (l2l4_payload q) \<le> 4095" using q(4) block_facts(3) by simp_all
  have ready: "scan_request (l2l4_type q) (l2l4_payload q) = (REASSEMBLY_READY, Some ?url)"
    using block_url(1) n(2) q(3,4) unfolding settles_def
    by (metis append_Nil2 numeral_eq_Suc diff_Suc_1 pred_numeral_simps(2,3))
  have drop: "scan_verdict (env_of ?c 1 sc1) TRAFFIC_HTTP ?url = ACTION_DROP"
    using loaded_verdict [OF small_loaded [OF l s(1) th], of TRAFFIC_HTTP ?url] block_url(2) literal_never_fails
    by (simp add: env_of_def)
  let ?Q = "\<lambda>ft. ft_timeout_cycles ft = 1500 \<and> (\<exists>st. flow_of slot_keys ft block_key = Some st \<and>
    st_verdict_cached st \<and> st_cached_action st = ACTION_DROP \<and> st_last_seen_tsc st = 6)"
  obtain s' ft' where s': "sys_reachable ?c s'" "\<not> sy_quit s'" "sy_rx_up s'" "?Q ft'"
    "sy_workers s' = (sy_workers s)[1 := Running (sc1, ft')]" "sy_rings s' = sy_rings s"
    "ACTION_DROP = ACTION_DROP \<longrightarrow> sy_tx s' = sy_tx s" "sy_stats_loop s' = sy_stats_loop s"
    "passed fr_items s' = passed fr_items s + (if ACTION_DROP = ACTION_DROP then {#} else {#whole_frame#})"
    "sy_bt s' = (sy_bt s)\<lparr>bucket_last_seen_tsc := (bucket_last_seen_tsc (sy_bt s))[5 := 5]\<rparr>"
    "processed (sy_stats s' ! (2 + 1)) = processed (sy_stats s ! (2 + 1)) + 1"
    "\<forall>l. l \<noteq> 1 \<and> l \<noteq> 2 + 1 \<longrightarrow> sy_stats s' ! l = sy_stats s ! l"
  proof (rule small_round [OF l s(1-3) own th s(4,5) q(5,6), where ts = 6 and now = 6])
    fix v assume v: "rte_hash_contract (we_hash (env_of ?c 1 sc1)) slot_ok slot_keys FLOW_TABLE_CAPACITY"
      "scan_safe (env_of ?c 1 sc1)" "worker_inv slot_ok slot_keys (env_of ?c 1 sc1) v" "wk_ft v = empty_table 1500"
      "wk_fwd v = []"
    have h: "we_hash (env_of ?c 1 sc1) = slot_ops" by (simp add: env_of_def)
    show "\<exists>ty ns ft'. ?Q ft' \<and> worker_packet (env_of ?c 1 sc1) v (whole_frame, 6, 6) =
        Some (account (env_of ?c 1 sc1) v whole_frame ty ns ACTION_DROP ft')"
      by (rule empty_table_packet [OF v(1) h v(2-5) q(1,5) n ready, of 6 6]) (use drop q(2,3) in fastforce)+
  qed
  have "blocked_run l 1 s'"
    unfolding blocked_run_def using s s' bucket_5(3) [OF l]
    by (simp add: stats_init_def nth_replicate zero_stats_def processed_def numeral_3_eq_3)
  then show ?thesis by blast
qed

lemma blocked_run_exists: "small_launch l \<Longrightarrow> \<exists>s. blocked_run l (Suc n) s"
proof (induction n)
  case 0
  then show ?case using blocked_run_first by simp
next
  case (Suc n)
  then show ?case using blocked_run_more by blast
qed

text \<open>
  Within a second worker 1 has handled 250 packets and worker 0 none, and the flow's bucket has been
  idle: the next round of the statistics thread moves it.
\<close>

lemma small_load:
  assumes "length t = 128" "processed (t ! 2) = 0" "processed (t ! 3) = 250"
  shows "load_scan_all (\<lambda>x. x) t [2, 3, 0, 0] 1 2 (replicate 4 0) [0, 0, 0, 0] =
    Some \<lparr>ls_worker_prev = [0, 250, 0, 0], ls_pps = [0, 250, 0, 0], ls_sum = 250, ls_max = 250,
          ls_max_idx = 1, ls_min_idx = 0\<rparr>"
proof -
  have "worker_processed t l = Some (processed (t ! l))" if "l < 128" for l
    using that assms(1) by (simp add: worker_processed_def processed_def mem_simps)
  moreover have "[0..<2] = [0, 1 :: nat]" "replicate 4 (0 :: u64) = [0, 0, 0, 0]" by (simp_all add: upt_rec eval_nat_numeral)
  ultimately show ?thesis using assms(2,3)
    by (simp add: load_scan_all_def load_step_def rd_def wr_def rate_def to_double_def)
qed

lemma small_moved:
  assumes l: "small_launch l"
  shows "5 \<in> set (moved_buckets ((la_buckets l)\<lparr>bucket_last_seen_tsc := (replicate 256 0)[5 := 5]\<rparr>) 1 1004 200)"
proof -
  let ?t = "(la_buckets l)\<lparr>bucket_last_seen_tsc := (replicate 256 0)[5 := 5]\<rparr>"
  have "bucket_worker (la_buckets l) ! b = of_nat (b mod 2)" if "b < 256" for b
    using that bucket_5(4) [OF l] by simp
  then have "movable ?t 1 1004 200 b \<longleftrightarrow> b mod 2 = 1" if "b < 6" for b
    using that by (auto simp: movable_def nth_list_update unat_of_nat)
  then have "filter (movable ?t 1 1004 200) [0..<6] = filter (\<lambda>b. b mod 2 = 1) [0..<6]"
    by (intro filter_cong) simp_all
  then have "filter (movable ?t 1 1004 200) [0..<6] = [1, 3, 5]" by (simp add: upt_rec)
  moreover have "[0..<256] = [0..<6] @ [6..<256 :: nat]" using upt_add_eq_append [of 0 6 250] by simp
  ultimately have "moved_buckets ?t 1 1004 200 = take 8 ([1, 3, 5] @ filter (movable ?t 1 1004 200) [6..<256])"
    unfolding moved_buckets_def by (metis filter_append)
  moreover have "5 \<in> set (take 8 ([1, 3, 5 :: nat] @ bs))" for bs by simp
  ultimately show ?thesis by metis
qed

lemma small_system_moves:
  assumes l: "small_launch l" and s: "blocked_run l 250 s"
  obtains s' where "sys_step (demo_cfg l) s s'" "bucket_owner (demo_cfg l) block_key s' = 0" "\<not> sy_quit s'" "sy_rx_up s'"
    "sy_rings s' = sy_rings s" "sy_tx s' = sy_tx s" "sy_workers s' = sy_workers s"
    "passed fr_items s' = passed fr_items s"
proof -
  let ?c = "demo_cfg l" and ?a = "la_stats_args l"
    and ?bt = "(la_buckets l)\<lparr>bucket_last_seen_tsc := (replicate 256 0)[5 := 5]\<rparr>"
  have cfg: "demo_cfg_ok ?c" and a: "?a = \<lparr>sa_num_workers = 2, sa_worker_lcores = [2, 3, 0, 0], sa_rebalance_enabled = True\<rparr>"
    "la_stats l = stats_init 128" "la_num_workers l = 2"
    using l by (simp_all add: small_launch_def)
  obtain sl where sl: "sy_stats_loop s = Running sl" "sl_worker_prev sl = replicate 4 0" "sl_last_tsc sl = 4"
    and st: "\<not> sy_quit s" "sy_rx_up s" "sy_bt s = ?bt" "processed (sy_stats s ! 2) = 0" "processed (sy_stats s ! 3) = 250"
    and r: "sys_reachable ?c s" using s by (auto simp: blocked_run_def)
  note inv = reachable_inv [OF cfg r]
  have t: "length (sy_stats s) = 128" and b: "buckets_inv 2 ?bt"
    using inv a st(3) by (simp_all add: sys_defs stats_init_def)
  obtain cur where cur: "aggregate (sy_stats s) [0, 1, 2, 3, 4, 5, 6] = Some cur"
    using aggregate_eq [of "[0, 1, 2, 3, 4, 5, 6]" "sy_stats s"] t by simp
  obtain counts where counts: "parser_bucket_get_distribution ?bt 2 [0, 0, 0, 0] = Some counts"
    using distribution_defined [OF b, of "[0, 0, 0, 0]"] by auto
  let ?bs = "moved_buckets ?bt 1 1004 200"
  have reb: "parser_bucket_rebalance ?bt 1 0 1004 200 = Some (?bt\<lparr>bucket_worker :=
      map (\<lambda>b. if b \<in> set ?bs then of_nat 0 else bucket_worker ?bt ! b) [0..<256]\<rparr>, length ?bs)"
    using rebalance_spec [OF b, of 1 0 1004 200] by (simp add: Let_def)
  have idle: "idle_threshold_cycles 1000 = 200" by (simp add: idle_threshold_cycles_def)
  have el: "to_double (\<lambda>x. x) (1004 - 4) / to_double (\<lambda>x. x) 1000 = 1" by (simp add: to_double_def)
  obtain sl' rep where tick: "stats_tick (\<lambda>x. x) ?a [0, 1, 2, 3, 4, 5, 6] 1000 [0, 0, 0, 0] [0, 0, 0, 0] (sy_stats s) sl
      ?bt 1004 = Some (sl', ?bt\<lparr>bucket_worker :=
        map (\<lambda>b. if b \<in> set ?bs then of_nat 0 else bucket_worker ?bt ! b) [0..<256]\<rparr>, rep)"
    using cur counts reb small_load [OF t st(4,5)] sl(2,3) el
    by (simp add: stats_tick_def a(1) should_rebalance_def idle Let_def)
  define s' where "s' = s\<lparr>sy_stats_loop := Running sl', sy_bt := ?bt\<lparr>bucket_worker :=
        map (\<lambda>b. if b \<in> set ?bs then of_nat 0 else bucket_worker ?bt ! b) [0..<256]\<rparr>\<rparr>"
  have "sys_stats ?c s sl [0, 0, 0, 0] [0, 0, 0, 0] 1004 = Some s'"
    using tick st(3) by (simp add: sys_stats_def s'_def)
  then have "sys_step ?c s s'" by (intro step_stats [OF st(1) sl(1)]) simp_all
  then show ?thesis
    using st small_moved [OF l] by (intro that [of s']) (simp_all add: s'_def passed_def bucket_owner_def)
qed

text \<open>The next segment of the flow goes to worker 0, which does not know the flow.\<close>

lemma small_system_escapes:
  obtains l s s1 s2 where "small_launch l" "blocked_run l 250 s" "sys_step (demo_cfg l) s s1"
    "bucket_owner (demo_cfg l) block_key s = 1" "bucket_owner (demo_cfg l) block_key s1 = 0"
    "(sys_step (demo_cfg l))\<^sup>*\<^sup>* s1 s2" "sy_workers s2 ! 1 = sy_workers s ! 1" "passed fr_items s2 = {#tail_frame#}"
proof -
  obtain l where l: "small_launch l" using small_launch_exists by blast
  let ?c = "demo_cfg l"
  obtain s where s: "blocked_run l 250 s" using blocked_run_exists [OF l, of 249] by auto
  obtain s1 where s1: "sys_step ?c s s1" "bucket_owner ?c block_key s1 = 0" "\<not> sy_quit s1" "sy_rx_up s1"
    "sy_rings s1 = sy_rings s" "sy_tx s1 = sy_tx s" "sy_workers s1 = sy_workers s" "passed fr_items s1 = passed fr_items s"
    by (rule small_system_moves [OF l s])
  obtain sc0 where th: "sy_workers s1 ! 0 = Running (sc0, empty_table 1500)" and r: "sys_reachable ?c s1"
    using s s1(1,7) reach_step by (force simp: blocked_run_def)
  have rt: "sy_rings s1 = replicate 2 \<lparr>fr_capacity = 1023, fr_items = []\<rparr>"
    "sy_tx s1 = \<lparr>fr_capacity = 1023, fr_items = []\<rparr>" "passed fr_items s1 = {#}" "bucket_owner ?c block_key s = 1"
    using s s1(5,6,8) bucket_5 [OF l] by (simp_all add: blocked_run_def bucket_owner_def)
  obtain q where q: "parser_parse_l2_l4 tail_frame = Some (Some q)" "l2l4_type q = TRAFFIC_HTTP"
    "l2l4_payload q = drop 20 block_bytes" by (rule tail_frame_parses)
  have f: "mbuf_ok tail_frame" "of_flow block_key tail_frame" unfolding tail_frame_def by (rule block_frame)+
  have n: "0 < length (l2l4_payload q)" "length (l2l4_payload q) \<le> 4095" using q(3) block_facts(3) by simp_all
  have pend: "scan_request (l2l4_type q) (l2l4_payload q) = (REASSEMBLY_PENDING, None)" using q tail_waits by simp
  obtain s2 ft' where s2: "sy_workers s2 = (sy_workers s1)[0 := Running (sc0, ft')]" "(sys_step ?c)\<^sup>*\<^sup>* s1 s2"
    "passed fr_items s2 = passed fr_items s1 + (if ACTION_FORWARD = ACTION_DROP then {#} else {#tail_frame#})"
  proof (rule small_round [OF l r s1(3,4,2) th rt(1,2) f, where ts = 1011 and now = 1011 and stamp = 1010 and Q = "\<lambda>_. True"])
    fix v assume v: "rte_hash_contract (we_hash (env_of ?c 0 sc0)) slot_ok slot_keys FLOW_TABLE_CAPACITY"
      "scan_safe (env_of ?c 0 sc0)" "worker_inv slot_ok slot_keys (env_of ?c 0 sc0) v" "wk_ft v = empty_table 1500"
      "wk_fwd v = []"
    have h: "we_hash (env_of ?c 0 sc0) = slot_ops" by (simp add: env_of_def)
    show "\<exists>ty ns ft'. True \<and> worker_packet (env_of ?c 0 sc0) v (tail_frame, 1011, 1011) =
        Some (account (env_of ?c 0 sc0) v tail_frame ty ns ACTION_FORWARD ft')"
      by (rule empty_table_packet [OF v(1) h v(2-5) q(1) f(1) n pend, of 1011 1011]) fastforce+
  qed
  then show ?thesis using that [OF l s s1(1) rt(4) s1(2) s2(2)] s1(7) rt(3) by simp
qed

section \<open>Properties\<close>

text \<open>
  C25: who moves a bucket. In the running system, for every interleaving of the threads, the bucket of a
  flow changes its worker only in a round of the statistics thread with rebalancing enabled, and only
  if at the round's clock reading the last packet of the bucket is more than the threshold of 200 ms
  ago. No packet, no start and no return of a thread and no signal moves it.
\<close>

theorem bucket_moves_only_when_idle:
  assumes "cfg_ok ok keys slots contents matches fits c" and "sys_reachable c s" and "sys_step c s s'"
    and "bucket_owner c k s' \<noteq> bucket_owner c k s"
  shows "sa_rebalance_enabled (la_stats_args (cf_launch c)) \<and>
    (\<exists>sl up uc now. sys_stats c s sl up uc now = Some s' \<and>
       unat (bucket_last_seen_tsc (sy_bt s) ! bucket_of (cf_jhash c k)) +
         unat (idle_threshold_cycles (cf_hz c)) < unat now)"
  by (rule step_moves_bucket [OF assms(1,3) reachable_inv [OF assms(1,2)] assms(4)])

theorem bucket_moves_only_when_idle_witness:
  "\<exists>l s s' sl up uc now. demo_cfg_ok (demo_cfg l) \<and> sys_reachable (demo_cfg l) s \<and>
     bucket_owner (demo_cfg l) block_key s = 1 \<and> bucket_owner (demo_cfg l) block_key s' = 0 \<and>
     sys_stats (demo_cfg l) s sl up uc now = Some s' \<and> unat (bucket_last_seen_tsc (sy_bt s) ! 5) + 200 < unat now"
proof (rule small_system_escapes)
  fix l s s1 s2
  assume a: "small_launch l" "blocked_run l 250 s" "sys_step (demo_cfg l) s s1"
    "bucket_owner (demo_cfg l) block_key s = 1" "bucket_owner (demo_cfg l) block_key s1 = 0"
  have c: "demo_cfg_ok (demo_cfg l)" "sys_reachable (demo_cfg l) s" "idle_threshold_cycles 1000 = 200"
    using a(1,2) by (simp_all add: small_launch_def blocked_run_def idle_threshold_cycles_def)
  show ?thesis using bucket_moves_only_when_idle [OF c(1,2) a(3), of block_key] a(4,5) c by fastforce
qed

text \<open>
  C7: a blocked flow that pauses gets through. There is a run of the system, with two workers and
  rebalancing enabled, in which worker 1 has cached the verdict DROP for a flow and has dropped all
  its packets; then the flow pauses until its bucket counts as idle, a round of the statistics thread
  finds worker 1 the busier one and moves the bucket to worker 0; and the next segment of the flow
  passes the inspection, although it repeats the blocked host name and worker 1 has the verdict
  still cached, unexpired. The verdict does not move with the bucket.
\<close>

theorem idle_blocked_flow_escapes:
  "\<exists>l s s1 s2 scratch ft st. demo_cfg_ok (demo_cfg l) \<and> sys_reachable (demo_cfg l) s \<and>
     bucket_owner (demo_cfg l) block_key s = 1 \<and> sy_workers s ! 1 = Running (scratch, ft) \<and>
     flow_of slot_keys ft block_key = Some st \<and> st_verdict_cached st \<and> st_cached_action st = ACTION_DROP \<and>
     passed fr_items s = {#} \<and>
     sys_step (demo_cfg l) s s1 \<and> bucket_owner (demo_cfg l) block_key s1 = 0 \<and>
     (sys_step (demo_cfg l))\<^sup>*\<^sup>* s1 s2 \<and> sy_workers s2 ! 1 = Running (scratch, ft) \<and>
     of_flow block_key tail_frame \<and> passed fr_items s2 = {#tail_frame#} \<and>
     1011 - st_last_seen_tsc st \<le> ft_timeout_cycles ft"
proof (rule small_system_escapes)
  fix l s s1 s2
  assume a: "small_launch l" "blocked_run l 250 s" "sys_step (demo_cfg l) s s1"
    "bucket_owner (demo_cfg l) block_key s = 1" "bucket_owner (demo_cfg l) block_key s1 = 0"
    "(sys_step (demo_cfg l))\<^sup>*\<^sup>* s1 s2" "sy_workers s2 ! 1 = sy_workers s ! 1" "passed fr_items s2 = {#tail_frame#}"
  obtain sc ft st where w: "sy_workers s ! 1 = Running (sc, ft)" "ft_timeout_cycles ft = 1500"
    "flow_of slot_keys ft block_key = Some st" "st_verdict_cached st" "st_cached_action st = ACTION_DROP"
    "st_last_seen_tsc st = 6" "passed fr_items s = {#}" "sys_reachable (demo_cfg l) s"
    using a(2) by (auto simp: blocked_run_def)
  have t: "1011 - st_last_seen_tsc st \<le> ft_timeout_cycles ft" using w(2,6) by simp
  have c: "demo_cfg_ok (demo_cfg l)" "of_flow block_key tail_frame" "sy_workers s2 ! 1 = Running (sc, ft)"
    using a(1,7) w(1) block_frame(2) by (simp_all add: small_launch_def tail_frame_def)
  show ?thesis using a(3-6,8) w(1,3-5,7,8) c t by blast
qed

end
