(* ===== verification/Drop_Causes.thy ===== *)
theory Drop_Causes
  imports Request_Verdicts
begin

text \<open>
  Where a flow's verdict comes from. A packet is dropped only because the bytes that the packets of its
  own flow have delivered so far spell a request that a DROP rule matches; and the request that
  counts is the one that arrives first.
\<close>

section \<open>What the packets of a flow have delivered\<close>

text \<open>
  Some run of consecutive sequence numbers carries the bytes \<open>bs\<close>, each of them in one of the
  segments \<open>H\<close>.
\<close>

definition delivered :: "l2l4_result list \<Rightarrow> byte list \<Rightarrow> bool" where
  "delivered H bs \<longleftrightarrow> (\<exists>q. \<forall>i < length bs. \<exists>l \<in> set H.
     seg_bytes (l2l4_seq l) (l2l4_payload l) (q + of_nat i) = Some (bs ! i))"

text \<open>
  The segments of flow \<open>k\<close> among the worker's inputs, as the parser sees them. More inputs deliver
  more.
\<close>

definition heard :: "flow_key \<Rightarrow> (rte_mbuf \<times> u64 \<times> u64) list \<Rightarrow> l2l4_result list" where
  "heard k ps = map fst (owns k ps)"

lemma heard_simps [simp]:
  "heard k [] = []" "heard k (ps @ qs) = heard k ps @ heard k qs"
  by (simp_all add: heard_def owns_append map_filter_simps)

lemma delivered_mono: "set H \<subseteq> set H' \<Longrightarrow> delivered H bs \<Longrightarrow> delivered H' bs"
  unfolding delivered_def by blast

definition held_from :: "l2l4_result list \<Rightarrow> flow_state \<Rightarrow> bool" where
  "held_from H st \<longleftrightarrow> (\<forall>s b. stream st s = Some b \<longrightarrow>
     (\<exists>l \<in> set H. seg_bytes (l2l4_seq l) (l2l4_payload l) s = Some b))"

lemma held_delivers:
  assumes "held_from H st" "flow_inv st"
  shows "delivered H (contig_prefix st)"
  unfolding delivered_def
proof (intro exI [of _ "st_first_seq st"] allI impI)
  fix i
  assume "i < length (contig_prefix st)"
  then have "stream st (st_first_seq st + of_nat i) = Some (contig_prefix st ! i)"
    using contig_prefix_nth [OF assms(2)] length_contig_prefix [OF assms(2)] by simp
  then show "\<exists>l \<in> set H. seg_bytes (l2l4_seq l) (l2l4_payload l) (st_first_seq st + of_nat i) =
      Some (contig_prefix st ! i)"
    using assms(1) by (simp add: held_from_def)
qed

lemma held_place:
  assumes "held_from H st" "stream st1 = new_bytes st l ++ stream st"
  shows "held_from (H @ [l]) st1"
proof -
  have "seg_bytes (l2l4_seq l) (l2l4_payload l) s = Some b" if "new_bytes st l s = Some b" for s b
    using that by (auto simp: new_bytes_def restrict_map_def split: if_splits)
  then show ?thesis using assms unfolding held_from_def by (auto simp: map_add_Some_iff)
qed

section \<open>The ground for a drop\<close>

definition drop_ground ::
  "('h, 'd, 's) worker_env \<Rightarrow> l2l4_result list \<Rightarrow> traffic_type \<Rightarrow> bool" where
  "drop_ground env H ty \<longleftrightarrow> (\<exists>bs str. delivered H bs \<and>
     scan_request ty bs = (REASSEMBLY_READY, Some str) \<and> scan_verdict env ty str = ACTION_DROP)"

text \<open>
  A flow after the segments \<open>H\<close>: while it is open it holds bytes of these segments only, and a cached
  DROP has its ground in them.
\<close>

definition flow_just :: "('h, 'd, 's) worker_env \<Rightarrow> l2l4_result list \<Rightarrow> flow_state \<Rightarrow> bool" where
  "flow_just env H st \<longleftrightarrow>
     (if st_verdict_cached st then st_cached_action st = ACTION_DROP \<longrightarrow> drop_ground env H (st_type st)
      else held_from H st)"

lemma drop_ground_mono: "set H \<subseteq> set H' \<Longrightarrow> drop_ground env H ty \<Longrightarrow> drop_ground env H' ty"
  unfolding drop_ground_def using delivered_mono by blast

lemma held_from_mono: "set H \<subseteq> set H' \<Longrightarrow> held_from H st \<Longrightarrow> held_from H' st"
  unfolding held_from_def by blast

lemma flow_just_mono: "set H \<subseteq> set H' \<Longrightarrow> flow_just env H st \<Longrightarrow> flow_just env H' st"
  using drop_ground_mono [of H H' env] held_from_mono [of H H'] by (auto simp: flow_just_def)

lemma flow_just_new: "flow_just env H (new_flow ty)"
  by (simp add: flow_just_def held_from_def)

text \<open>One packet of the flow: its verdict has a ground, and so has what the flow keeps.\<close>

lemma flow_step_just:
  assumes ok: "flow_ok (l2l4_key l) st" and l: "l2l4_ok l"
    and u: "flow_state_update st l now = Some (st', r)" and j: "flow_just env H st"
  shows "verdict_of env (l2l4_type l) r = ACTION_DROP \<Longrightarrow> drop_ground env (H @ [l]) (l2l4_type l)"
    and "flow_just env (H @ [l]) st'" and "st_type st' = l2l4_type l"
proof -
  let ?H = "H @ [l]"
  have ty: "st_type st = l2l4_type l" using ok l by (simp add: flow_ok_def l2l4_ok_def)
  have inv: "flow_inv st" "seg_ok l" using ok l by (simp_all add: flow_ok_def l2l4_ok_def)
  have same: "st_type st' = st_type st" "st_verdict_cached st' = st_verdict_cached st"
    "st_cached_action st' = st_cached_action st"
    using flow_state_update_spec [OF inv, of now] u by auto
  then show "st_type st' = l2l4_type l" using ty by simp
  have "(verdict_of env (l2l4_type l) r = ACTION_DROP \<longrightarrow> drop_ground env ?H (l2l4_type l)) \<and>
      flow_just env ?H st'"
  proof (cases "st_verdict_cached st")
    case True
    have "st_cached_action st = ACTION_DROP \<longrightarrow> drop_ground env ?H (st_type st)"
      using flow_just_mono [OF _ j, of ?H] True by (auto simp: flow_just_def)
    then show ?thesis
      using True u ty same by (auto simp: flow_state_update_cached verdict_of_def answer_def flow_just_def)
  next
    case False
    then have h: "held_from H st" using j by (simp add: flow_just_def)
    obtain st1 where st1: "flow_inv st1" "stream st1 = new_bytes st l ++ stream st"
      "extracted st1 (l2l4_type l) st' r"
      using flow_state_update_open [OF inv False, of now] u by auto
    have h1: "held_from ?H st1" by (rule held_place [OF h st1(2)])
    have a: "answer r = scan_request (l2l4_type l) (contig_prefix st1)" and s: "stream st' = stream st1"
      using st1(3) by (simp_all add: extracted_def extract_frame_def)
    have "drop_ground env ?H (l2l4_type l)" if d: "verdict_of env (l2l4_type l) r = ACTION_DROP"
    proof -
      obtain str where "answer r = (REASSEMBLY_READY, Some str)"
        "scan_verdict env (l2l4_type l) str = ACTION_DROP"
        using d extracted_result(1) [OF st1(3)]
        by (auto simp: verdict_of_def answer_def split: reassembly_status.splits option.splits)
      then show ?thesis using a held_delivers [OF h1 st1(1)] unfolding drop_ground_def by metis
    qed
    moreover have "flow_just env ?H st'" using h1 s same(2) False by (simp add: flow_just_def held_from_def)
    ultimately show ?thesis by blast
  qed
  then show "verdict_of env (l2l4_type l) r = ACTION_DROP \<Longrightarrow> drop_ground env ?H (l2l4_type l)"
    and "flow_just env ?H st'" by blast+
qed

section \<open>The flows of a worker\<close>

text \<open>Every flow of the table is justified by its own history \<open>H k\<close>.\<close>

definition flows_just ::
  "('h, 'd, 's) worker_env \<Rightarrow> (flow_key \<Rightarrow> l2l4_result list) \<Rightarrow> (flow_key \<rightharpoonup> flow_state) \<Rightarrow> bool" where
  "flows_just env H F \<longleftrightarrow> (\<forall>k st. F k = Some st \<longrightarrow> flow_just env (H k) st)"

lemma flows_just_sub: "flows_just env H F \<Longrightarrow> F1 \<subseteq>\<^sub>m F \<Longrightarrow> flows_just env H F1"
  unfolding flows_just_def by (metis domI map_le_def)

lemma packet_just:
  assumes j: "flows_just env H F1" and e: "packet_effect F1 l now F2 r" and l: "l2l4_ok l"
    and f: "\<forall>k st. F1 k = Some st \<longrightarrow> flow_ok k st"
  defines "a \<equiv> verdict_of env (l2l4_type l) r" and "H' \<equiv> H(l2l4_key l := H (l2l4_key l) @ [l])"
  shows "a = ACTION_DROP \<Longrightarrow> drop_ground env (H' (l2l4_key l)) (l2l4_type l)"
    and "flows_just env H' (after_verdict F2 (l2l4_key l) r a)"
proof -
  let ?k = "l2l4_key l"
  let ?st = "case F1 ?k of Some st \<Rightarrow> st | None \<Rightarrow> new_flow (l2l4_type l)"
  have more: "flow_just env (H' k) st" if "F1 k = Some st" for k st
  proof -
    have "set (H k) \<subseteq> set (H' k)" by (auto simp: H'_def)
    moreover have "flow_just env (H k) st" using j that by (simp add: flows_just_def)
    ultimately show ?thesis by (rule flow_just_mono)
  qed
  have "(a = ACTION_DROP \<longrightarrow> drop_ground env (H' ?k) (l2l4_type l)) \<and>
      flows_just env H' (after_verdict F2 ?k r a)"
    using e unfolding packet_effect_def
  proof (elim disjE exE conjE)
    assume "F2 = F1" "r = only_status REASSEMBLY_GIVE_UP"
    then show ?thesis
      using more by (simp add: a_def verdict_of_def after_verdict_def decides_def flows_just_def)
  next
    fix st'
    assume u: "flow_state_update ?st l now = Some (st', r)" and F2: "F2 = F1(?k \<mapsto> st')"
    have ok: "flow_ok ?k ?st" using f new_flow_is_ok [OF l] by (simp split: option.split)
    have js: "flow_just env (H ?k) ?st"
      using j flow_just_new by (cases "F1 ?k") (auto simp: flows_just_def)
    note s = flow_step_just [OF ok l u js]
    have g: "a = ACTION_DROP \<longrightarrow> drop_ground env (H' ?k) (l2l4_type l)" using s(1) by (simp add: a_def H'_def)
    have "flow_just env (H' ?k) st'" using s(2) by (simp add: H'_def)
    moreover have "flow_just env (H' ?k) (set_verdict st' a)"
      using g s(3) by (simp add: flow_just_def set_verdict_def)
    ultimately show ?thesis using g more by (auto simp: F2 after_verdict_def flows_just_def)
  qed
  then show "a = ACTION_DROP \<Longrightarrow> drop_ground env (H' ?k) (l2l4_type l)"
    and "flows_just env H' (after_verdict F2 ?k r a)" by blast+
qed

definition worker_just ::
  "('h \<Rightarrow> bool) \<Rightarrow> ('h \<Rightarrow> flow_key \<rightharpoonup> nat) \<Rightarrow> ('h, 'd, 's) worker_env \<Rightarrow>
   (flow_key \<Rightarrow> l2l4_result list) \<Rightarrow> 'h worker_state \<Rightarrow> bool" where
  "worker_just ok keys env H w \<longleftrightarrow>
     worker_inv ok keys env w \<and> flows_just env H (flow_of keys (wk_ft w))"

lemma worker_packet_just:
  assumes con: "rte_hash_contract (we_hash env) ok keys slots" and safe: "scan_safe env"
    and wj: "worker_just ok keys env H w" and m: "mbuf_ok (fst p)" and room: "length (wk_fwd w) < BURST_SIZE"
    and w1: "worker_packet env w p = Some w1"
  defines "H' \<equiv> \<lambda>k. H k @ heard k [p]"
  shows "worker_just ok keys env H' w1"
    and "parser_parse_l2_l4 (fst p) = Some (Some l) \<Longrightarrow> wk_freed w1 \<noteq> wk_freed w \<Longrightarrow>
      drop_ground env (H' (l2l4_key l)) (l2l4_type l)"
proof -
  obtain pkt ts now where p: "p = (pkt, ts, now)" by (metis prod_cases3)
  have inv: "worker_inv ok keys env w" and j: "flows_just env H (flow_of keys (wk_ft w))"
    using wj by (simp_all add: worker_just_def)
  have m': "mbuf_ok pkt" using m p by simp
  have parsed: "worker_just ok keys env H' w1 \<and>
      (wk_freed w1 \<noteq> wk_freed w \<longrightarrow> drop_ground env (H' (l2l4_key l)) (l2l4_type l))"
    if l: "parser_parse_l2_l4 pkt = Some (Some l)" for l
  proof -
    obtain ft' r F1 F2 where w: "worker_packet env w (pkt, ts, now) =
        Some (account env w pkt (l2l4_type l) (ur_no_sni r) (verdict_of env (l2l4_type l) r) ft')"
      "table_inv ok keys ft'"
      "if (ft_call_count (wk_ft w) + 1) mod 256 = 0
       then swept (ft_timeout_cycles (wk_ft w)) ts (flow_of keys (wk_ft w)) F1
       else F1 = flow_of keys (wk_ft w)"
      "packet_effect F1 l now F2 r"
      "flow_of keys ft' = after_verdict F2 (l2l4_key l) r (verdict_of env (l2l4_type l) r)"
      using worker_packet_parsed [OF con inv safe m' l room] by blast
    have sub: "F1 \<subseteq>\<^sub>m flow_of keys (wk_ft w)" using w(3) by (auto simp: swept_def split: if_splits)
    then have f: "\<forall>k st. F1 k = Some st \<longrightarrow> flow_ok k st"
      using inv by (metis domI map_le_def table_inv_def worker_inv_def)
    have H': "H' = H(l2l4_key l := H (l2l4_key l) @ [l])"
      using p own_parsed [OF l] by (auto simp: H'_def heard_def map_filter_simps)
    note s = packet_just [OF flows_just_sub [OF j sub] w(4) parsed_ok(1) [OF l m'] f, folded H']
    have w1: "w1 = account env w pkt (l2l4_type l) (ur_no_sni r) (verdict_of env (l2l4_type l) r) ft'"
      using w1 p w(1) by simp
    have "verdict_of env (l2l4_type l) r = ACTION_DROP" if "wk_freed w1 \<noteq> wk_freed w"
      using that unfolding w1 by (simp add: account_def split: if_splits)
    moreover have "worker_just ok keys env H' w1"
      unfolding w1 using w(2,5) s(2) inv by (simp add: account_def worker_just_def worker_inv_def)
    ultimately show ?thesis using s(1) by blast
  qed
  show "worker_just ok keys env H' w1"
  proof (cases "parser_parse_l2_l4 pkt = Some None")
    case True
    then have "w1 = account env w pkt TRAFFIC_NON_DPI False ACTION_DROP (wk_ft w)"
      using worker_packet_rejected [OF inv True] w1 p by simp
    moreover have "heard k [p] = []" for k using True p by (simp add: heard_def own_def map_filter_simps)
    then have "H' = H" by (simp add: H'_def)
    ultimately show ?thesis using wj by (simp add: account_def worker_just_def worker_inv_def)
  next
    case False
    then show ?thesis using parse_defined [of pkt] parsed by (metis option.exhaust)
  qed
  show "parser_parse_l2_l4 (fst p) = Some (Some l) \<Longrightarrow> wk_freed w1 \<noteq> wk_freed w \<Longrightarrow>
      drop_ground env (H' (l2l4_key l)) (l2l4_type l)"
    using parsed p by simp
qed

lemma run_just:
  assumes "worker_run env w ps w'" "rte_hash_contract (we_hash env) ok keys slots" "scan_safe env"
    and "worker_just ok keys env H w" "\<forall>p \<in> set ps. mbuf_ok (fst p)"
  shows "worker_just ok keys env (\<lambda>k. H k @ heard k ps) w'"
  using assms(1,4,5)
proof (induction arbitrary: H rule: worker_run.induct)
  case (run_packet w p w1 ps w')
  have m: "mbuf_ok (fst p)" "\<forall>q \<in> set ps. mbuf_ok (fst q)" using run_packet.prems(2) by simp_all
  have e: "heard k (p # ps) = heard k [p] @ heard k ps" for k using heard_simps(2) [of k "[p]" ps] by simp
  show ?case
    using run_packet.IH [OF worker_packet_just(1) [OF assms(2,3) run_packet.prems(1) m(1)
          run_packet.hyps(1,2)] m(2)] by (simp add: e)
next
  case (run_flush t w freed ps w')
  have "worker_just ok keys env H (w\<lparr>wk_fwd := [], wk_stats := t, wk_freed := freed\<rparr>)"
    using run_flush.prems(1) run_flush.hyps(1) by (simp add: worker_just_def worker_inv_def)
  then show ?case using run_flush.IH run_flush.prems(2) by blast
qed simp

lemma begins_run: "flow_begins env keys k w ps w' \<Longrightarrow> worker_run env w ps w'"
  by (cases ps) (auto simp: flow_begins_def intro: run_done run_packet)

section \<open>The first payload\<close>

text \<open>A flow that has seen packets without payload only.\<close>

definition blank :: "flow_state \<Rightarrow> bool" where
  "blank st \<longleftrightarrow> flow_inv st \<and> st_hwm st = 0 \<and> \<not> st_first_seq_set st \<and> \<not> st_verdict_cached st"

lemma blank_new: "blank (new_flow ty)"
  unfolding blank_def using new_flow_facts(1,3) [of ty]
  by (simp add: new_flow_def) (simp add: zero_flow_state_def)

lemma scan_nothing: "scan_request ty [] = (REASSEMBLY_PENDING, None)"
proof -
  have "tls_hello_start [] (length ([] :: byte list)) = Some None" by (subst tls_hello_start_eq) simp_all
  then have "tls_verdict [] = (TLS_SNI_PENDING, [])" by (simp add: tls_verdict_def tls_client_hello_def)
  moreover have "http_url [] = None" by (simp add: http_url_def)
  ultimately show ?thesis by (simp add: scan_request_def give_up_or_wait_def)
qed

lemma blank_track:
  assumes "blank st" "seg_ok z" "l2l4_payload z = []"
  shows "\<exists>st' no_sni b. flow_track env st (z, t) = Some (st', no_sni, b) \<and> blank st'"
proof -
  have b: "flow_inv st" "\<not> st_verdict_cached st" using assms(1) by (simp_all add: blank_def)
  obtain st1 st' r where u: "place_segment (st\<lparr>st_last_seen_tsc := t\<rparr>) z = Some st1"
    "flow_state_update st z t = Some (st', r)" "extracted st1 (l2l4_type z) st' r"
    using flow_state_update_open [OF b(1) assms(2) b(2), of t] by blast
  have "l2l4_payload_len z = 0" using assms(2,3) by (simp add: seg_ok_def)
  then have st1: "st1 = st\<lparr>st_last_seen_tsc := t\<rparr>" using u(1) by (simp add: place_segment_empty)
  then have "contig_prefix st1 = []"
    using assms(1) by (auto simp: contig_prefix_def blank_def flow_inv_def)
  then have "ur_status r = REASSEMBLY_PENDING"
    using u(3) scan_nothing by (simp add: extracted_def answer_def)
  moreover have "blank st'"
    using u(3) assms(1) unfolding st1 by (simp add: extracted_def extract_frame_def blank_def)
  ultimately show ?thesis using u(2) by (simp add: flow_track_def decides_def Let_def)
qed

lemma blank_tracks:
  assumes "blank st" "\<forall>z \<in> set zs. seg_ok (fst z) \<and> l2l4_payload (fst z) = []"
  shows "\<exists>st'. flow_tracks env st zs = Some st' \<and> blank st'"
  using assms
proof (induction zs arbitrary: st)
  case (Cons z zs)
  obtain st1 no_sni b where "flow_track env st z = Some (st1, no_sni, b)" "blank st1"
    using blank_track [OF Cons.prems(1), of "fst z" env "snd z"] Cons.prems(2) by auto
  then show ?case using Cons.IH [of st1] Cons.prems(2) by auto
qed simp

text \<open>The first payload decides the flow when it reads like a request.\<close>

lemma first_payload_track:
  fixes env :: "('h, 'd, 's) worker_env"
  assumes st: "blank st" and l: "seg_ok l" "l2l4_payload l \<noteq> []" "length (l2l4_payload l) \<le> FLOW_BUF_CAP - 1"
    and scan: "scan_request (l2l4_type l) (l2l4_payload l) = (REASSEMBLY_READY, Some str)"
    and t: "flow_track env st (l, now) = Some (st', no_sni, b)"
  defines "a \<equiv> scan_verdict env (l2l4_type l) str"
  shows "st_verdict_cached st' \<and> st_cached_action st' = a \<and> b = a"
proof -
  let ?st = "st\<lparr>st_last_seen_tsc := now\<rparr>"
  have s: "flow_inv ?st" "st_hwm ?st = 0" "\<not> st_first_seq_set ?st" "\<not> st_verdict_cached ?st"
    using st by (simp_all add: blank_def)
  have inv: "flow_inv st" "\<not> st_verdict_cached st" using st by (simp_all add: blank_def)
  obtain st1 st2 r where u: "place_segment ?st l = Some st1" "flow_state_update st l now = Some (st2, r)"
    "extracted st1 (l2l4_type l) st2 r"
    using flow_state_update_open [OF inv(1) l(1) inv(2), of now] by blast
  have "0 < length (l2l4_payload l)" "length (l2l4_payload l) \<le> 4095" using l(2,3) by simp_all
  then have "contig_prefix st1 = l2l4_payload l" using first_segment_prefix [OF l(1) _ _ s] u(1) by auto
  then have "answer r = (REASSEMBLY_READY, Some str)" using u(3) scan by (simp add: extracted_def)
  then show ?thesis
    using t u(2) by (auto simp: flow_track_def decides_def verdict_of_def a_def answer_def set_verdict_def Let_def)
qed

lemma cached_track:
  assumes "st_verdict_cached st" "flow_track env st p = Some (st', no_sni, b)"
  shows "st_verdict_cached st' \<and> st_cached_action st' = st_cached_action st \<and> b = st_cached_action st"
  using assms by (auto simp: flow_track_def flow_state_update_cached verdict_of_def answer_def decides_def)

lemma cached_tracks:
  assumes "st_verdict_cached st" "flow_tracks env st ps = Some st'"
  shows "st_verdict_cached st' \<and> st_cached_action st' = st_cached_action st"
  using assms
proof (induction ps arbitrary: st)
  case (Cons p ps)
  then obtain st1 no_sni b where "flow_track env st p = Some (st1, no_sni, b)" "flow_tracks env st1 ps = Some st'"
    by (auto split: Option.bind_splits)
  then show ?case using Cons.IH cached_track [OF Cons.prems(1)] by metis
qed simp

lemma first_payload_decides:
  fixes env :: "('h, 'd, 's) worker_env"
  assumes split: "qs @ [p] = zs @ (l0, t0) # rest"
    and zs: "\<forall>z \<in> set zs. seg_ok (fst z) \<and> l2l4_payload (fst z) = []"
    and l0: "seg_ok l0" "l2l4_payload l0 \<noteq> []" "length (l2l4_payload l0) \<le> FLOW_BUF_CAP - 1"
    and scan: "scan_request (l2l4_type l0) (l2l4_payload l0) = (REASSEMBLY_READY, Some str)"
    and t: "flow_tracks env (new_flow ty) qs = Some st" "flow_track env st p = Some (st', no_sni, b)"
  defines "a \<equiv> scan_verdict env (l2l4_type l0) str"
  shows "st_verdict_cached st' \<and> st_cached_action st' = a \<and> b = a"
proof -
  obtain st1 where st1: "flow_tracks env (new_flow ty) zs = Some st1" "blank st1"
    using blank_tracks [OF blank_new zs] by blast
  note first = first_payload_track [OF st1(2) l0 scan, where env = env, folded a_def]
  show ?thesis
  proof (cases rest rule: rev_cases)
    case Nil
    then have "qs = zs" "p = (l0, t0)" using split by simp_all
    then show ?thesis using first t st1(1) by simp
  next
    case (snoc rest' q)
    then have "qs @ [p] = (zs @ (l0, t0) # rest') @ [q]" using split by simp
    then have q: "qs = zs @ (l0, t0) # rest'" "p = q" by simp_all
    obtain st2 ns b2 where u: "flow_track env st1 (l0, t0) = Some (st2, ns, b2)"
      "flow_tracks env st2 rest' = Some st"
      using t(1) st1(1) unfolding q(1) by (auto simp: fold_opt_append split: Option.bind_splits)
    have "st_verdict_cached st2 \<and> st_cached_action st2 = a" using first [OF u(1)] by simp
    then have "st_verdict_cached st \<and> st_cached_action st = a" using cached_tracks [OF _ u(2)] by simp
    then show ?thesis using cached_track [OF _ t(2)] by simp
  qed
qed

section \<open>Properties\<close>

text \<open>
  C11: a packet is dropped only for what its own flow has sent. Start a worker with an empty flow table
  on an engine loaded from a rule file. Whatever it handles, if a packet that parses is then freed by
  the packet handler, then the packets of its own flow, itself included, have delivered a run of
  consecutive bytes that reads like a request or ClientHello, and the string extracted from it
  matches a DROP rule of the flow's traffic type. No other flow's verdict reaches the packet, and
  pending, unparsable and unscannable traffic, a full table and a failing scan all forward.
\<close>

theorem only_drop_rules_drop:
  assumes "rte_hash_contract (we_hash env) ok keys slots" and "loaded_env env matches fits lines"
    and "worker_inv ok keys env w" and "flow_of keys (wk_ft w) = Map.empty"
    and "worker_run env w ps w'" and "\<forall>q \<in> set (ps @ [p]). mbuf_ok (fst q)"
    and "parser_parse_l2_l4 (fst p) = Some (Some l)" and "length (wk_fwd w') < BURST_SIZE"
    and "worker_packet env w' p = Some w''" and "wk_freed w'' \<noteq> wk_freed w'"
  shows "\<exists>bs str. delivered (heard (l2l4_key l) (ps @ [p])) bs \<and>
    scan_request (l2l4_type l) bs = (REASSEMBLY_READY, Some str) \<and>
    drop_rule matches (typed_lines lines (l2l4_type l)) str"
proof -
  have safe: "scan_safe env" by (rule loaded_safe [OF assms(2)])
  have m: "\<forall>q \<in> set ps. mbuf_ok (fst q)" "mbuf_ok (fst p)" using assms(6) by simp_all
  have "worker_just ok keys env (\<lambda>k. []) w" using assms(3,4) by (simp add: worker_just_def flows_just_def)
  from run_just [OF assms(5,1) safe this m(1)] have "worker_just ok keys env (\<lambda>k. heard k ps) w'" by simp
  from worker_packet_just(2) [OF assms(1) safe this m(2) assms(8,9,7,10)]
  have "drop_ground env (heard (l2l4_key l) (ps @ [p])) (l2l4_type l)" by simp
  then obtain bs str where g: "delivered (heard (l2l4_key l) (ps @ [p])) bs"
    "scan_request (l2l4_type l) bs = (REASSEMBLY_READY, Some str)" "scan_verdict env (l2l4_type l) str = ACTION_DROP"
    by (auto simp: drop_ground_def)
  have "drop_rule matches (typed_lines lines (l2l4_type l)) str"
    using loaded_scan [OF assms(2) parsed_ok(2) [OF assms(7) m(2)], of str] g(3)
    by (auto simp: scan_verdict_def split: if_splits)
  then show ?thesis using g(1,2) by blast
qed

text \<open>The two halves of a blocked request with garbage between them: what the flow sent says why.\<close>

theorem only_drop_rules_drop_witness:
  "\<exists>(env :: (slot_hash, literal_db, unit) worker_env) w' w'' req txt str.
     req = ascii ''GET / HTTP/1.1'' @ crlf @ ascii ''Host: malware.com'' @ crlf \<and>
     worker_run env demo_worker (demo_inputs 0 80 req) w' \<and>
     worker_packet env w' (demo_last 0 80 req) = Some w'' \<and>
     wk_freed w'' = wk_freed w' @ [fst (demo_last 0 80 req)] \<and>
     delivered (heard (frame_key 0 80) (demo_inputs 0 80 req @ [demo_last 0 80 req])) txt \<and>
     scan_request TRAFFIC_HTTP txt = (REASSEMBLY_READY, Some str) \<and>
     drop_rule literal_matches
       [\<lparr>rule_type = TRAFFIC_HTTP, rule_pattern = ascii ''malware'', rule_action = ACTION_DROP\<rparr>] str"
proof -
  let ?r = "\<lparr>rule_type = TRAFFIC_HTTP, rule_pattern = ascii ''malware'', rule_action = ACTION_DROP\<rparr>"
  let ?m = "ascii ''GET ''" and ?uri = "ascii ''/''" and ?v = "ascii ''HTTP/1.1''"
    and ?name = "ascii ''Host:''" and ?host = "ascii ''malware.com''"
  define req where "req = ascii ''GET / HTTP/1.1'' @ crlf @ ascii ''Host: malware.com'' @ crlf"
  have ok: "request_ok ?m ?uri ?v [] ?name ?host"
    by (simp add: request_ok_def line_ok_def http_methods_def ascii_def)
  have req: "req = request_head ?m ?uri ?v [] @ host_line ?name 1 ?host"
    by (simp add: req_def request_head_def host_line_def ascii_def)
  have len: "length req = 35" by (simp add: req_def ascii_def crlf_def)
  have len': "20 < length req" "length req \<le> 4095" and short: "length req \<le> 4096 - 1" using len by simp_all
  define url where "url = take (512 - 1) (ascii ''http://'' @ ?host @ ?uri)"
  have set: "settles TRAFFIC_HTTP req url" unfolding url_def by (rule http_settles [OF ok req short])
  have "url = ascii ''http://malware.com/''" by (simp add: url_def ascii_def)
  moreover have "literal_matches (ascii ''malware'') n (ascii ''http://malware.com/'')" for n
    unfolding literal_matches_def by (rule exI [of _ 7]) (simp add: ascii_def)
  ultimately have drop: "drop_rule literal_matches (typed_lines [?r] TRAFFIC_HTTP) url"
    by (simp add: drop_rule_def typed_lines_def)
  have port: "classify_port (be16 0 80) = Some TRAFFIC_HTTP" by (simp add: classify_port_def be16_def)
  have "rule_ok ?r" by (simp add: rule_ok_def ascii_def)
  then obtain env :: "(slot_hash, literal_db, unit) worker_env" where env: "we_hash env = slot_ops"
    "we_lcore env = 1" "we_hs env = literal_hs" "loaded_env env literal_matches (\<lambda>s d. True) [?r]"
    by (rule one_rule_env)
  let ?k = "frame_key 0 80" and ?l = "demo_cut 0 80 TRAFFIC_HTTP req 20 (length req - 20)"
  obtain w' w'' where s: "flow_begins env slot_keys ?k demo_worker (demo_inputs 0 80 req) w'"
    "length (wk_fwd w') < 32" "worker_packet env w' (demo_last 0 80 req) = Some w''"
    "flow_of slot_keys (wk_ft w'') ?k \<noteq> None"
    by (rule demo_session [OF env(1,2) loaded_safe [OF env(4)] port len'(1) set])
  note o = demo_owns [OF port len'] and d = demo_facts_env [OF env(1,2)]
  have c: "completes (l2l4_type ?l) ?k (stream_of 1001 req) 1001 req (demo_inputs 0 80 req @ [demo_last 0 80 req])"
    "settles (l2l4_type ?l) req url"
    "\<not> scan_failed (we_hs env) (we_engine env) (we_scratch env) (l2l4_type ?l) url"
    using o(4) set by (simp_all add: env(3) literal_never_fails)
  have "\<exists>a no_sni ft. w'' = account env w' (fst (demo_last 0 80 req)) (l2l4_type ?l) no_sni a ft \<and>
      (a = ACTION_DROP \<longleftrightarrow> drop_rule literal_matches (typed_lines [?r] (l2l4_type ?l)) url)"
    using flow_gets_verdict [OF d(1) env(4) d(2,3) s(1) o(5) demo_alive [OF port len'] o(3) s(2-4) c] by blast
  then have freed: "wk_freed w'' = wk_freed w' @ [fst (demo_last 0 80 req)]"
    using drop by (auto simp: account_def)
  have run: "worker_run env demo_worker (demo_inputs 0 80 req) w'"
    by (rule begins_run [OF s(1)])
  have empty: "flow_of slot_keys (wk_ft demo_worker) = Map.empty"
    using flow_of_empty_table by (simp add: demo_worker_def)
  note l = ownD(1,2) [OF o(3)]
  have "\<exists>bs str. delivered (heard (l2l4_key ?l) (demo_inputs 0 80 req @ [demo_last 0 80 req])) bs \<and>
      scan_request (l2l4_type ?l) bs = (REASSEMBLY_READY, Some str) \<and>
      drop_rule literal_matches (typed_lines [?r] (l2l4_type ?l)) str"
    by (rule only_drop_rules_drop [OF d(1) env(4) d(2) empty run o(5) l(1) s(2,3)]) (simp add: freed)
  then obtain bs str where g: "delivered (heard ?k (demo_inputs 0 80 req @ [demo_last 0 80 req])) bs"
    "scan_request TRAFFIC_HTTP bs = (REASSEMBLY_READY, Some str)"
    "drop_rule literal_matches (typed_lines [?r] TRAFFIC_HTTP) str"
    unfolding l(2) demo_cut_type by blast
  have "drop_rule literal_matches [?r] str" using g(3) by (simp add: typed_lines_def)
  then show ?thesis using run s(3) freed g(1,2) req_def by blast
qed

text \<open>
  C31: a first payload that reads like a request is the one that counts. Suppose that before it the
  flow only had packets without payload, and that the first payload that arrives is, by itself, read
  as a complete request or ClientHello, at whatever sequence number. Then the flow's verdict is the
  one the rules give that string, whatever the flow sends later: from this packet on each of its
  packets gets this verdict, also the true start of the stream, which is never looked at.
\<close>

theorem first_arrival_decides:
  assumes "rte_hash_contract (we_hash env) ok keys slots" and "loaded_env env matches fits lines"
    and "worker_inv ok keys env w" and "flow_of keys (wk_ft w) k = None"
    and "flow_begins env keys k w ps w'" and "\<forall>q \<in> set (ps @ [p]). mbuf_ok (fst q)"
    and "alive k (ft_timeout_cycles (wk_ft w)) (snd (snd (hd (ps @ [p])))) (tl (ps @ [p]))"
    and "own k p = Some (l, now)"
    and "length (wk_fwd w') < BURST_SIZE" and "worker_packet env w' p = Some w''"
    and "flow_of keys (wk_ft w'') k \<noteq> None"
    and "owns k (ps @ [p]) = zs @ (l0, t0) # rest" and "\<forall>z \<in> set zs. l2l4_payload (fst z) = []"
    and "l2l4_payload l0 \<noteq> []" and "length (l2l4_payload l0) \<le> FLOW_BUF_CAP - 1"
    and "scan_request (l2l4_type l0) (l2l4_payload l0) = (REASSEMBLY_READY, Some str)"
    and "\<not> scan_failed (we_hs env) (we_engine env) (we_scratch env) (l2l4_type l0) str"
  shows "\<exists>a no_sni ft st. w'' = account env w' (fst p) (l2l4_type l) no_sni a ft \<and>
    (a = ACTION_DROP \<longleftrightarrow> drop_rule matches (typed_lines lines (l2l4_type l0)) str) \<and>
    flow_of keys (wk_ft w'') k = Some st \<and> st_verdict_cached st \<and> st_cached_action st = a"
proof -
  have e: "owns k ps @ [(l, now)] = zs @ (l0, t0) # rest"
    using assms(8,12) by (simp add: owns_append map_filter_simps)
  have mem: "q \<in> set (owns k (ps @ [p]))" if "q \<in> set zs \<union> {(l0, t0)}" for q
    using that unfolding assms(12) by auto
  have zs: "\<forall>z \<in> set zs. seg_ok (fst z) \<and> l2l4_payload (fst z) = []"
    using owns_ok(1) [OF mem assms(6)] assms(13) by blast
  have l0: "seg_ok l0" and "classify_port (dst_port k) = Some (l2l4_type l0)"
    using owns_ok [OF mem assms(6), of "(l0, t0)"] by simp_all
  then have ty: "l2l4_type l0 \<in> {TRAFFIC_HTTP, TRAFFIC_HTTPS}"
    using own_type [OF assms(8)] assms(6) by auto
  obtain st st' no_sni b ft where t: "flow_tracks env (new_flow (l2l4_type l)) (owns k ps) = Some st"
    "flow_track env st (l, now) = Some (st', no_sni, b)"
    "w'' = account env w' (fst p) (l2l4_type l) no_sni b ft" "flow_of keys (wk_ft w'') k = Some st'"
    by (rule fresh_flow_tracks [OF assms(1) loaded_safe [OF assms(2)] assms(3-11)])
  have "st_verdict_cached st' \<and> st_cached_action st' = scan_verdict env (l2l4_type l0) str \<and>
      b = scan_verdict env (l2l4_type l0) str"
    by (rule first_payload_decides [OF e zs l0 assms(14-16) t(1,2)])
  then show ?thesis using t(3,4) loaded_verdict [OF assms(2) ty assms(17)] by auto
qed

text \<open>
  A decoy for an allowed host, placed after the start of the stream, arrives first; the true start asks
  for a blocked host and is forwarded.
\<close>

definition decoy_inputs :: "byte list \<Rightarrow> (rte_mbuf \<times> u64 \<times> u64) list" where
  "decoy_inputs decoy = [(demo_syn 0 80, 5, 6), (demo_frame 0 80 255 decoy, 7, 8)]"

lemma demo_frame_at:
  assumes "classify_port (be16 d0 d1) = Some ty"
  shows "parser_parse_l2_l4 (demo_frame d0 d1 q payload) =
    Some (Some ((demo_cut d0 d1 ty payload 0 (length payload))\<lparr>l2l4_seq := be32 0 0 3 q\<rparr>))"
  unfolding demo_frame_def
  by (subst tcp_frame_parses [where k = 0 and j = 0])
    (simp_all add: assms demo_cut_def cut_segment_def demo_segment_def frame_key_def demo_key_def)

theorem first_arrival_decides_witness:
  "\<exists>(env :: (slot_hash, literal_db, unit) worker_env) w' w'' decoy req.
     decoy = ascii ''GET / HTTP/1.1'' @ crlf @ ascii ''Host: ok.org'' @ crlf \<and>
     req = ascii ''GET / HTTP/1.1'' @ crlf @ ascii ''Host: malware.com'' @ crlf \<and>
     loaded_env env literal_matches (\<lambda>s d. True)
       [\<lparr>rule_type = TRAFFIC_HTTP, rule_pattern = ascii ''malware'', rule_action = ACTION_DROP\<rparr>] \<and>
     flow_begins env slot_keys (frame_key 0 80) demo_worker (decoy_inputs decoy) w' \<and>
     worker_packet env w' (demo_frame 0 80 233 req, 9, 10) = Some w'' \<and>
     wk_fwd w'' = wk_fwd w' @ [demo_frame 0 80 233 req]"
proof -
  let ?r = "\<lparr>rule_type = TRAFFIC_HTTP, rule_pattern = ascii ''malware'', rule_action = ACTION_DROP\<rparr>"
  let ?m = "ascii ''GET ''" and ?uri = "ascii ''/''" and ?v = "ascii ''HTTP/1.1''"
    and ?name = "ascii ''Host:''" and ?host = "ascii ''ok.org''"
  define decoy where "decoy = ascii ''GET / HTTP/1.1'' @ crlf @ ascii ''Host: ok.org'' @ crlf"
  define req where "req = ascii ''GET / HTTP/1.1'' @ crlf @ ascii ''Host: malware.com'' @ crlf"
  have len: "length decoy = 30" "length req = 35" by (simp_all add: decoy_def req_def ascii_def crlf_def)
  have ok: "request_ok ?m ?uri ?v [] ?name ?host"
    by (simp add: request_ok_def line_ok_def http_methods_def ascii_def)
  have head: "decoy = request_head ?m ?uri ?v [] @ host_line ?name 1 ?host"
    by (simp add: decoy_def request_head_def host_line_def ascii_def)
  have "settles TRAFFIC_HTTP decoy (take (512 - 1) (ascii ''http://'' @ ?host @ ?uri))"
    by (rule http_settles [OF ok head]) (simp add: len)
  moreover have "take (512 - 1) (ascii ''http://'' @ ?host @ ?uri) = ascii ''http://ok.org/''" by (simp add: ascii_def)
  ultimately have "\<forall>rest. length (decoy @ rest) \<le> 4096 - 1 \<longrightarrow>
      scan_request TRAFFIC_HTTP (decoy @ rest) = (REASSEMBLY_READY, Some (ascii ''http://ok.org/''))"
    unfolding settles_def by simp
  from this [rule_format, of "[]"] have scan: "scan_request TRAFFIC_HTTP decoy = (REASSEMBLY_READY, Some (ascii ''http://ok.org/''))"
    using len by simp
  have no: "\<not> literal_matches (ascii ''malware'') n (ascii ''http://ok.org/'')" for n
  proof
    assume "literal_matches (ascii ''malware'') n (ascii ''http://ok.org/'')"
    then obtain i where "take (length (ascii ''malware'')) (drop i (ascii ''http://ok.org/'')) = ascii ''malware''"
      unfolding literal_matches_def by (elim exE conjE)
    from this [THEN arg_cong [where f = set]] have "set (ascii ''malware'') \<subseteq> set (ascii ''http://ok.org/'')"
      using set_take_subset set_drop_subset by fast
    then show False by (simp add: ascii_def)
  qed
  then have forward: "\<not> drop_rule literal_matches (typed_lines [?r] TRAFFIC_HTTP) (ascii ''http://ok.org/'')"
    by (simp add: drop_rule_def typed_lines_def)
  have port: "classify_port (be16 0 80) = Some TRAFFIC_HTTP" by (simp add: classify_port_def be16_def)
  have "rule_ok ?r" by (simp add: rule_ok_def ascii_def)
  then obtain env :: "(slot_hash, literal_db, unit) worker_env" where env: "we_hash env = slot_ops"
    "we_lcore env = 1" "we_hs env = literal_hs" "loaded_env env literal_matches (\<lambda>s d. True) [?r]"
    by (rule one_rule_env)
  let ?k = "frame_key 0 80" and ?s = "syn_segment 0 80 TRAFFIC_HTTP"
    and ?d = "(demo_cut 0 80 TRAFFIC_HTTP decoy 0 (length decoy))\<lparr>l2l4_seq := be32 0 0 3 255\<rparr>"
    and ?l = "(demo_cut 0 80 TRAFFIC_HTTP req 0 (length req))\<lparr>l2l4_seq := be32 0 0 3 233\<rparr>"
    and ?p = "(demo_frame 0 80 233 req, 9 :: u64, 10 :: u64)"
  have s: "l2l4_payload ?s = []" "l2l4_type ?s = TRAFFIC_HTTP"
    by (simp_all add: syn_segment_def demo_cut_def cut_segment_def demo_segment_def)
  have own: "own ?k (demo_syn 0 80, 5, 6) = Some (?s, 6)"
    "own ?k (demo_frame 0 80 255 decoy, 7, 8) = Some (?d, 8)" "own ?k ?p = Some (?l, 10)"
    by (simp_all add: own_def demo_syn_parses [OF port] demo_frame_at [OF port])
      (simp_all add: syn_segment_def demo_cut_def cut_segment_def demo_segment_def)
  have m: "\<forall>x \<in> set ((demo_syn 0 80, 5, 6) # [(demo_frame 0 80 255 decoy, 7, 8)] @ [?p]). mbuf_ok (fst x)"
    using demo_frame_ok len by (simp add: mbuf_ok_def demo_syn_def tcp_frame_def)
  have al: "alive ?k 100 6 ([(demo_frame 0 80 255 decoy, 7, 8)] @ [?p])" using own(2) by simp
  obtain st r where u: "flow_state_update (new_flow TRAFFIC_HTTP) ?s 6 = Some (st, r)"
    "answer r = scan_request TRAFFIC_HTTP []"
    by (rule syn_leaves_open)
  then have u': "flow_state_update (new_flow (l2l4_type ?s)) ?s 6 = Some (st, r)" "ur_status r \<noteq> REASSEMBLY_GIVE_UP"
    using scan_nothing s(2) by (simp_all add: answer_def)
  have w0: "wk_ft demo_worker = empty_table 100" "wk_fwd demo_worker = []" by (simp_all add: demo_worker_def)
  note d = demo_facts_env [OF env(1,2)]
  obtain w' w'' where f: "flow_begins env slot_keys ?k demo_worker ((demo_syn 0 80, 5, 6) # [(demo_frame 0 80 255 decoy, 7, 8)]) w'"
    "length (wk_fwd w') < 32" "worker_packet env w' ?p = Some w''" "flow_of slot_keys (wk_ft w'') ?k \<noteq> None"
    by (rule flow_session [OF d(1) env(1) loaded_safe [OF env(4)] d(2) w0 own(1) u' own(3) m _ al]) simp
  have ps: "decoy_inputs decoy = (demo_syn 0 80, 5, 6) # [(demo_frame 0 80 255 decoy, 7, 8)]"
    by (simp add: decoy_inputs_def)
  have os: "owns ?k (decoy_inputs decoy @ [?p]) = [(?s, 6)] @ (?d, 8) # [(?l, 10)]"
    unfolding ps using own by (simp add: map_filter_simps)
  have pl: "l2l4_payload ?d = decoy" "l2l4_type ?d = TRAFFIC_HTTP"
    by (simp_all add: demo_cut_def cut_segment_def demo_segment_def)
  have dl: "l2l4_payload ?d \<noteq> []" "length (l2l4_payload ?d) \<le> 4096 - 1" using len unfolding pl(1) by auto
  have "\<exists>a no_sni ft st. w'' = account env w' (fst ?p) (l2l4_type ?l) no_sni a ft \<and>
      (a = ACTION_DROP \<longleftrightarrow> drop_rule literal_matches (typed_lines [?r] (l2l4_type ?d)) (ascii ''http://ok.org/'')) \<and>
      flow_of slot_keys (wk_ft w'') ?k = Some st \<and> st_verdict_cached st \<and> st_cached_action st = a"
  proof (rule first_arrival_decides [OF d(1) env(4) d(2,3) _ _ _ own(3) f(2-4) os _ dl])
    show "flow_begins env slot_keys ?k demo_worker (decoy_inputs decoy) w'" unfolding ps by (rule f(1))
    show "\<forall>q \<in> set (decoy_inputs decoy @ [?p]). mbuf_ok (fst q)" using m unfolding ps by simp
    show "alive ?k (ft_timeout_cycles (wk_ft demo_worker)) (snd (snd (hd (decoy_inputs decoy @ [?p]))))
        (tl (decoy_inputs decoy @ [?p]))"
      using al unfolding ps w0 by (simp add: empty_table_def)
    show "scan_request (l2l4_type ?d) (l2l4_payload ?d) = (REASSEMBLY_READY, Some (ascii ''http://ok.org/''))"
      using scan unfolding pl .
  qed (simp_all add: s(1) env(3) literal_never_fails)
  then have "wk_fwd w'' = wk_fwd w' @ [demo_frame 0 80 233 req]"
    using forward unfolding pl by (auto simp: account_def)
  then show ?thesis
    using env(4) f(1) [folded ps] f(3)
    by (intro exI [of _ env] exI [of _ w'] exI [of _ w''] exI [of _ decoy] exI [of _ req] conjI)
      (simp_all only: decoy_def req_def)
qed

end
