(* ===== verification/Console.thy ===== *)
theory Console
  imports Startup
begin

text \<open>
  What the program prints (\<open>printf\<close> and \<open>fprintf\<close> in \<open>src/main.c\<close>, \<open>src/stats.c\<close> and
  \<open>src/dpi_engine.c\<close>). A text is a list of bytes. \<open>%s\<close> reads memory up to a NUL, so printing a string
  that is not terminated is undefined behaviour and its result is \<^term>\<open>None\<close>.

  Shown: the report of the statistics thread can be read back, number by number; a rule line is either
  loaded or reported.
\<close>

section \<open>Conversions\<close>

text \<open>\<open>%s\<close>.\<close>

primrec fmt_s :: "cptr \<Rightarrow> byte list option" where
  "fmt_s [] = None"
| "fmt_s (x # xs) = (if x = 0 then Some [] else map_option ((#) x) (fmt_s xs))"

text \<open>\<open>%u\<close> and \<open>PRIu64\<close> of a value that is not negative, and \<open>%d\<close>.\<close>

abbreviation fmt_u :: "nat \<Rightarrow> byte list" where "fmt_u \<equiv> dec_digits"

definition fmt_d :: "int \<Rightarrow> byte list" where
  "fmt_d i = (if i < 0 then 45 # dec_digits (nat (- i)) else dec_digits (nat i))"

text \<open>
  \<open>%.0f\<close> and \<open>%.2f\<close> of a value that is not negative: the exact value is rounded to the last digit
  printed, halves to even.
\<close>

definition round_even :: "real \<Rightarrow> int" where
  "round_even x =
     (let n = \<lfloor>x\<rfloor>; d = x - of_int n
      in if d < 1 / 2 \<or> d = 1 / 2 \<and> even n then n else n + 1)"

definition fmt_f0 :: "real \<Rightarrow> byte list" where
  "fmt_f0 x = dec_digits (nat (round_even x))"

definition cents :: "real \<Rightarrow> nat" where
  "cents x = nat (round_even (x * 100))"

definition fmt_f2 :: "real \<Rightarrow> byte list" where
  "fmt_f2 x = dec_digits (cents x div 100) @ [46] @
     dec_digits (cents x mod 100 div 10) @ dec_digits (cents x mod 10)"

abbreviation (input) nl :: "byte list" where "nl \<equiv> [10]"

lemma fmt_s_terminated: "nul_free s \<Longrightarrow> fmt_s (s @ 0 # r) = Some s"
  by (induction s) simp_all

lemma fmt_s_snprintf:
  "nul_free out \<Longrightarrow> fmt_s (c_snprintf dst out) = Some (take (length dst - 1) out)"
  by (simp add: c_snprintf_def Let_def fmt_s_terminated nul_free_take)

section \<open>The report of the statistics thread\<close>

text \<open>A loop over the workers that prints \<open>" W%u="\<close> and a figure for each.\<close>

definition print_workers :: "(nat \<Rightarrow> byte list option) \<Rightarrow> nat \<Rightarrow> byte list option" where
  "print_workers figure n =
     fold_opt (\<lambda>out i. do { f \<leftarrow> figure i; Some (out @ ascii '' W'' @ fmt_u i @ ascii ''='' @ f) })
       [] [0..<n]"

definition totals_lines :: "tick_report \<Rightarrow> byte list" where
  "totals_lines r =
     (let cur = tr_cur r in
      ascii ''--------------------------------------------------------------------'' @ nl @
      ascii ''Throughput: '' @ fmt_f2 (tr_mbps r) @ ascii '' Mbps | PPS: '' @ fmt_f0 (tr_pps r) @
      ascii '' | Total RX packets: '' @ fmt_u (unat (rx_packets cur)) @ nl @
      ascii ''HTTP: '' @ fmt_u (unat (http_packets cur)) @
      ascii '' | HTTPS: '' @ fmt_u (unat (https_packets cur)) @
      ascii '' | Non-DPI: '' @ fmt_u (unat (non_dpi_packets cur)) @ nl @
      ascii ''Forwarded: '' @ fmt_u (unat (forwarded_packets cur)) @
      ascii '' | Dropped: '' @ fmt_u (unat (dropped_packets cur)) @
      ascii '' | TX sent: '' @ fmt_u (unat (tx_packets cur)) @ nl @
      ascii ''TLS_ECH_OR_NO_SNI (not inspected, subset of HTTPS): '' @
      fmt_u (unat (tls_ech_or_no_sni_packets cur)) @ nl)"

definition rebalance_line :: "tick_report \<Rightarrow> byte list" where
  "rebalance_line r =
     (case tr_moved r of
        None \<Rightarrow> []
      | Some (moved, max_idx, min_idx) \<Rightarrow>
          if moved > 0 then
            ascii ''[Stats] rebalance: moved '' @ fmt_u moved @ ascii '' bucket(s) worker '' @
            fmt_u max_idx @ ascii '' -> worker '' @ fmt_u min_idx @
            ascii '' (avg='' @ fmt_f0 (tr_avg_pps r) @ ascii '' max='' @ fmt_f0 (tr_max_pps r) @
            ascii '')'' @ nl
          else [])"

text \<open>What a round of \<open>n\<close> workers prints.\<close>

definition stats_report :: "nat \<Rightarrow> tick_report \<Rightarrow> byte list option" where
  "stats_report n r = do {
     pps \<leftarrow> print_workers (\<lambda>i. map_option fmt_f0 (rd (tr_worker_pps r) i)) n;
     counts \<leftarrow> print_workers (\<lambda>i. map_option fmt_u (rd (tr_bucket_counts r) i)) n;
     Some (totals_lines r @ ascii ''Per-worker PPS:'' @ pps @ nl @
       ascii ''Bucket distribution:'' @ counts @ nl @ rebalance_line r) }"

section \<open>Reading numbers back\<close>

text \<open>The decimal numbers in a text: its maximal runs of digits.\<close>

fun numbers_from :: "nat option \<Rightarrow> byte list \<Rightarrow> nat list" where
  "numbers_from a [] = (case a of None \<Rightarrow> [] | Some n \<Rightarrow> [n])"
| "numbers_from a (c # cs) =
     (if c_isdigit c
      then numbers_from (Some (10 * (case a of None \<Rightarrow> 0 | Some n \<Rightarrow> n) + (unat c - 48))) cs
      else (case a of None \<Rightarrow> [] | Some n \<Rightarrow> [n]) @ numbers_from None cs)"

abbreviation numbers :: "byte list \<Rightarrow> nat list" where "numbers \<equiv> numbers_from None"

definition ends_number :: "byte list \<Rightarrow> bool" where
  "ends_number s \<longleftrightarrow> (case s of [] \<Rightarrow> True | c # cs \<Rightarrow> \<not> c_isdigit c)"

lemma numbers_stop: "ends_number s \<Longrightarrow> numbers_from (Some n) s = n # numbers s"
  by (cases s) (simp_all add: ends_number_def)

lemma numbers_text: "\<forall>c \<in> set t. \<not> c_isdigit c \<Longrightarrow> numbers (t @ s) = numbers s"
  by (induction t) simp_all

lemma numbers_digits:
  "\<forall>c \<in> set ds. c_isdigit c \<Longrightarrow>
   numbers_from (Some m) (ds @ s) = numbers_from (Some (nat (foldl (\<lambda>v d. 10 * v + (uint d - 48)) (int m) ds))) s"
proof (induction ds arbitrary: m)
  case (Cons d ds)
  have "48 \<le> unat d" using Cons.prems by (simp add: c_isdigit_def word_le_nat_alt)
  then have "10 * int m + (uint d - 48) = int (10 * m + (unat d - 48))" by (simp add: of_nat_diff)
  then show ?case using Cons by simp
qed simp

lemma numbers_dec:
  assumes "ends_number s"
  shows "numbers (dec_digits n @ s) = n # numbers s"
proof -
  obtain d ds where d: "dec_digits n = d # ds" using dec_digits_nonempty by (cases "dec_digits n") auto
  have "numbers (dec_digits n @ s) = numbers_from (Some 0) (dec_digits n @ s)"
    using dec_digits_digit [of n] unfolding d by simp
  also have "\<dots> = numbers_from (Some n) s"
    using digits_value_dec [of n] numbers_digits [OF dec_digits_digit, of 0 n s] by (simp add: digits_value_def)
  finally show ?thesis by (simp add: numbers_stop [OF assms])
qed

lemma dec_digit:
  assumes "k < 10"
  shows "dec_digits k = [48 + of_nat k]" "c_isdigit (48 + of_nat k)" "unat (48 + of_nat k :: byte) = 48 + k"
proof -
  show "dec_digits k = [48 + of_nat k]" using assms by (subst dec_digits.simps) simp
  show u: "unat (48 + of_nat k :: byte) = 48 + k" using assms by (simp add: unat_word_ariths unat_of_nat)
  then show "c_isdigit (48 + of_nat k)" using assms by (simp only: c_isdigit_def word_le_nat_alt) simp
qed

lemma numbers_two_digits:
  assumes "a < 10" "b < 10" "ends_number s"
  shows "numbers (dec_digits a @ dec_digits b @ s) = (10 * a + b) # numbers s"
  using dec_digit [OF assms(1)] dec_digit [OF assms(2)] numbers_stop [OF assms(3)] by simp

lemma numbers_f2:
  assumes "ends_number s"
  shows "numbers (fmt_f2 x @ s) = cents x div 100 # cents x mod 100 # numbers s"
proof -
  define f where "f = cents x mod 100"
  have f: "f < 100" "cents x mod 10 = f mod 10" by (simp_all add: f_def mod_mod_cancel)
  have "10 * (f div 10) + f mod 10 = f" by simp
  then have two: "numbers (dec_digits (f div 10) @ dec_digits (f mod 10) @ s) = f # numbers s"
    using numbers_two_digits [OF _ _ assms, of "f div 10" "f mod 10"] f(1) by simp
  have stop: "ends_number (46 # t)" "numbers (46 # t) = numbers t" for t
    by (simp_all add: ends_number_def c_isdigit_def)
  show ?thesis
    by (simp only: fmt_f2_def append_assoc append_Cons append_Nil numbers_dec [OF stop(1)] stop(2) f(2)
        f_def [symmetric] two)
qed

lemma numbers_f0: "ends_number s \<Longrightarrow> numbers (fmt_f0 x @ s) = nat (round_even x) # numbers s"
  by (simp add: fmt_f0_def numbers_dec)

lemma ends_number_simps [simp]: "ends_number []" "ends_number (c # cs) \<longleftrightarrow> \<not> c_isdigit c"
  by (simp_all add: ends_number_def)

lemmas read_simps = numbers_dec numbers_f0 numbers_f2 c_isdigit_def ascii_def

lemma print_workers_eq:
  assumes "\<And>i. i < n \<Longrightarrow> figure i = Some (f i)"
  shows "print_workers figure n =
    Some (concat (map (\<lambda>i. ascii '' W'' @ fmt_u i @ ascii ''='' @ f i) [0..<n]))"
  using assms unfolding print_workers_def by (induction n) (simp_all add: fold_opt_append)

lemma numbers_workers:
  assumes "ends_number s"
  shows "numbers (concat (map (\<lambda>i. ascii '' W'' @ fmt_u i @ ascii ''='' @ dec_digits (g i)) is) @ s) =
    concat (map (\<lambda>i. [i, g i]) is) @ numbers s"
proof (induction "is")
  case (Cons i "is")
  let ?rest = "concat (map (\<lambda>i. ascii '' W'' @ fmt_u i @ ascii ''='' @ dec_digits (g i)) is) @ s"
  have "ends_number ?rest" using assms by (cases "is") (simp_all add: ascii_def c_isdigit_def)
  then show ?case using Cons by (simp add: read_simps)
qed simp

lemma numbers_totals:
  "numbers (totals_lines r @ s) =
     [cents (tr_mbps r) div 100, cents (tr_mbps r) mod 100, nat (round_even (tr_pps r))] @
     map (\<lambda>f. unat (f (tr_cur r)))
       [rx_packets, http_packets, https_packets, non_dpi_packets, forwarded_packets, dropped_packets,
        tx_packets, tls_ech_or_no_sni_packets] @ numbers s"
  by (simp add: totals_lines_def Let_def read_simps)

definition moved_numbers :: "tick_report \<Rightarrow> nat list" where
  "moved_numbers r =
     (case tr_moved r of
        None \<Rightarrow> []
      | Some (moved, max_idx, min_idx) \<Rightarrow>
          if moved > 0 then [moved, max_idx, min_idx, nat (round_even (tr_avg_pps r)),
            nat (round_even (tr_max_pps r))] else [])"

lemma numbers_rebalance: "numbers (rebalance_line r) = moved_numbers r"
  by (simp add: rebalance_line_def moved_numbers_def read_simps split: option.split)

lemma stats_report_numbers:
  assumes "n \<le> length (tr_worker_pps r)" "n \<le> length (tr_bucket_counts r)"
  shows "\<exists>out. stats_report n r = Some out \<and>
    numbers out = [cents (tr_mbps r) div 100, cents (tr_mbps r) mod 100, nat (round_even (tr_pps r))] @
      map (\<lambda>f. unat (f (tr_cur r)))
        [rx_packets, http_packets, https_packets, non_dpi_packets, forwarded_packets, dropped_packets,
         tx_packets, tls_ech_or_no_sni_packets] @
      concat (map (\<lambda>i. [i, nat (round_even (tr_worker_pps r ! i))]) [0..<n]) @
      concat (map (\<lambda>i. [i, tr_bucket_counts r ! i]) [0..<n]) @ moved_numbers r"
proof -
  have p: "print_workers (\<lambda>i. map_option fmt_f0 (rd (tr_worker_pps r) i)) n = Some
      (concat (map (\<lambda>i. ascii '' W'' @ fmt_u i @ ascii ''='' @ dec_digits (nat (round_even (tr_worker_pps r ! i)))) [0..<n]))"
    using assms(1) by (intro print_workers_eq) (simp add: rd_def fmt_f0_def)
  have c: "print_workers (\<lambda>i. map_option fmt_u (rd (tr_bucket_counts r) i)) n = Some
      (concat (map (\<lambda>i. ascii '' W'' @ fmt_u i @ ascii ''='' @ dec_digits (tr_bucket_counts r ! i)) [0..<n]))"
    using assms(2) by (intro print_workers_eq) (simp add: rd_def)
  show ?thesis
    unfolding stats_report_def p c
    by (simp add: numbers_totals numbers_workers [simplified ascii_def, simplified] numbers_rebalance
        c_isdigit_def ascii_def)
qed

text \<open>What a round hands to its report.\<close>

lemma tick_report_spec:
  assumes "args_ok a t" "length (sl_worker_prev sl) = MAX_WORKERS" "length uninit_pps = MAX_WORKERS"
    and "length uninit_counts = MAX_WORKERS" "buckets_inv (sa_num_workers a) bt"
    and tick: "stats_tick rnd a lcores hz uninit_pps uninit_counts t sl bt now = Some (sl', bt', r)"
  shows "aggregate t lcores = Some (tr_cur r)" "sa_num_workers a \<le> length (tr_worker_pps r)"
    "sa_num_workers a \<le> length (tr_bucket_counts r)"
    "i < sa_num_workers a \<Longrightarrow>
       tr_bucket_counts r ! i = length (filter (\<lambda>b. unat b = i) (bucket_worker bt))"
proof -
  let ?n = "sa_num_workers a"
  let ?el = "rnd (to_double rnd (now - sl_last_tsc sl) / to_double rnd hz)"
  have n: "?n \<le> 4" "?n \<le> length uninit_counts" using assms(1,4) by (auto simp: args_ok_def)
  obtain s where s: "load_scan_all rnd t (sa_worker_lcores a) ?el ?n (sl_worker_prev sl) uninit_pps = Some s"
    "scan_inv ?n s"
    using load_scan_all_spec [OF assms(1-3)] by blast
  obtain c where c: "parser_bucket_get_distribution bt ?n uninit_counts = Some c" "length c = length uninit_counts"
    "\<forall>w < ?n. c ! w = length (filter (\<lambda>b. unat b = w) (bucket_worker bt))"
    using distribution_exact [OF assms(5) n(2)] by blast
  have r: "aggregate t lcores = Some (tr_cur r)" "tr_worker_pps r = ls_pps s" "tr_bucket_counts r = c"
    using tick s(1) c(1) by (auto simp: stats_tick_def Let_def split: Option.bind_splits)
  show "aggregate t lcores = Some (tr_cur r)" by (rule r(1))
  show "?n \<le> length (tr_worker_pps r)" "?n \<le> length (tr_bucket_counts r)"
    using n s(2) c(2) r(2,3) by (simp_all add: scan_inv_def)
  show "i < ?n \<Longrightarrow> tr_bucket_counts r ! i = length (filter (\<lambda>b. unat b = i) (bucket_worker bt))"
    using c(3) r(3) by simp
qed

text \<open>
  C29: the report can be read back. Every round prints a report, without reading outside its arrays, in
  which the numbers are, in this order: the throughput in hundredths and the packet rate, each
  rounded once, the eight totals over the enabled lcores exactly, for each worker its number and rate,
  for each worker its number and the exact number of buckets it owned before the round moved any, and,
  if some were moved, how many, from and to which worker, and the average and highest rate.
\<close>

theorem stats_report_readable:
  assumes "mono rnd" and "rnd 0 = 0" and "args_ok a t" and "\<forall>l \<in> set lcores. l < length t"
    and "length (sl_worker_prev sl) = MAX_WORKERS" and "length uninit_pps = MAX_WORKERS"
    and "length uninit_counts = MAX_WORKERS" and "buckets_inv (sa_num_workers a) bt"
  shows "\<exists>sl' bt' r totals out. stats_tick rnd a lcores hz uninit_pps uninit_counts t sl bt now =
      Some (sl', bt', r) \<and> aggregate t lcores = Some totals \<and>
    stats_report (sa_num_workers a) r = Some out \<and>
    numbers out = [cents (tr_mbps r) div 100, cents (tr_mbps r) mod 100, nat (round_even (tr_pps r))] @
      map (\<lambda>f. unat (f totals))
        [rx_packets, http_packets, https_packets, non_dpi_packets, forwarded_packets, dropped_packets,
         tx_packets, tls_ech_or_no_sni_packets] @
      concat (map (\<lambda>i. [i, nat (round_even (tr_worker_pps r ! i))]) [0..<sa_num_workers a]) @
      concat (map (\<lambda>i. [i, length (filter (\<lambda>b. unat b = i) (bucket_worker bt))]) [0..<sa_num_workers a]) @
      moved_numbers r"
proof -
  obtain sl' bt' r where t: "stats_tick rnd a lcores hz uninit_pps uninit_counts t sl bt now = Some (sl', bt', r)"
    using stats_tick_spec [OF assms] by blast
  note r = tick_report_spec [OF assms(3,5-8) t]
  have counts: "map (\<lambda>i. [i, tr_bucket_counts r ! i]) [0..<sa_num_workers a] =
      map (\<lambda>i. [i, length (filter (\<lambda>b. unat b = i) (bucket_worker bt))]) [0..<sa_num_workers a]"
    using r(4) by simp
  show ?thesis using t r(1) stats_report_numbers [OF r(2,3)] unfolding counts by blast
qed

text \<open>A round of two workers after 905 packets, 900 of them HTTP.\<close>

theorem stats_report_readable_witness:
  "\<exists>sl' bt' r out. stats_tick (\<lambda>x. x) \<lparr>sa_num_workers = 2, sa_worker_lcores = [1, 2, 0, 0],
         sa_rebalance_enabled = False\<rparr> [0, 1, 2] 1000 [0, 0, 0, 0] [0, 0, 0, 0]
       [zero_stats\<lparr>rx_packets := 905\<rparr>, zero_stats\<lparr>http_packets := 900\<rparr>, zero_stats]
       \<lparr>sl_prev = zero_stats, sl_worker_prev = [0, 0, 0, 0], sl_last_tsc = 0\<rparr>
       demo_buckets 1000 = Some (sl', bt', r) \<and>
     stats_report 2 r = Some out \<and> take 9 (numbers out) = [0, 0, 905, 905, 900, 0, 0, 0, 0]"
proof -
  let ?a = "\<lparr>sa_num_workers = 2, sa_worker_lcores = [1, 2, 0, 0], sa_rebalance_enabled = False\<rparr>"
  let ?t = "[zero_stats\<lparr>rx_packets := 905\<rparr>, zero_stats\<lparr>http_packets := 900\<rparr>, zero_stats]"
  let ?sl = "\<lparr>sl_prev = zero_stats, sl_worker_prev = [0, 0, 0, 0], sl_last_tsc = 0\<rparr>"
  have a: "args_ok ?a ?t" by (simp add: args_ok_def less_2_cases_iff)
  have l: "\<forall>l \<in> set [0, 1, 2]. l < length ?t" by simp
  have inv: "buckets_inv (sa_num_workers ?a) demo_buckets" using demo_buckets_inv by simp
  have ag: "aggregate ?t [0, 1, 2] = Some (zero_stats\<lparr>rx_packets := 905, http_packets := 900\<rparr>)"
    by (simp add: aggregate_def rd_def zero_stats_def add_stats_def)
  obtain sl' bt' r out where t: "stats_tick (\<lambda>x. x) ?a [0, 1, 2] 1000 [0, 0, 0, 0] [0, 0, 0, 0] ?t ?sl
      demo_buckets 1000 = Some (sl', bt', r)" "stats_report 2 r = Some out"
    "take 9 (numbers out) = [cents (tr_mbps r) div 100, cents (tr_mbps r) mod 100,
      nat (round_even (tr_pps r)), 905, 900, 0, 0, 0, 0]"
    using stats_report_readable [OF _ _ a l _ _ _ inv, of "\<lambda>x. x" ?sl "[0, 0, 0, 0]" "[0, 0, 0, 0]" 1000 1000]
    unfolding ag by (auto simp: mono_def zero_stats_def)
  have "tr_mbps r = 0" "tr_pps r = 905"
    using t(1) ag by (auto simp: stats_tick_def to_double_def rate_def zero_stats_def Let_def
        split: Option.bind_splits if_splits)
  then show ?thesis using t by (simp add: cents_def round_even_def)
qed

end
