(* ===== verification/Worker_Log.thy ===== *)
theory Worker_Log
  imports Console Request_Verdicts
begin

text \<open>
  What a worker prints while it handles packets (\<open>worker_thread_main\<close> of \<open>src/main.c\<close>): one line when a
  packet settles the verdict of its flow. Shown: printing never reads outside the scan buffer, and the
  log of a flow is exactly one line, which shows the verdict that is cached and a string for which the
  engine gives this verdict.
\<close>

section \<open>Model\<close>

definition verdict_line :: "nat \<Rightarrow> packet_action \<Rightarrow> byte list \<Rightarrow> byte list" where
  "verdict_line worker_id action s =
     ascii ''[Worker '' @ fmt_u worker_id @ ascii ''] '' @
     (if action = ACTION_DROP then ascii ''MATCH   '' else ascii ''NO MATCH'') @ ascii '' '' @
     s @ ascii '' -> '' @ (if action = ACTION_DROP then ascii ''DROP'' else ascii ''FORWARD'') @ nl"

definition no_sni_line :: "nat \<Rightarrow> byte list" where
  "no_sni_line worker_id =
     ascii ''[Worker '' @ fmt_u worker_id @
     ascii ''] TLS_ECH_OR_NO_SNI: no extractable SNI -> FORWARD, content NOT inspected'' @ nl"

text \<open>
  The \<open>printf\<close> calls of the switch. \<open>scan_str\<close> points to the scan buffer of the flow, which
  \<open>parser_flow_cache_verdict\<close> leaves alone.
\<close>

definition worker_print :: "nat \<Rightarrow> update_result \<Rightarrow> packet_action \<Rightarrow> byte list option" where
  "worker_print worker_id r action =
     (case ur_status r of
        REASSEMBLY_READY \<Rightarrow> do {
          (scan_str, scan_len) \<leftarrow> ur_out r;
          s \<leftarrow> fmt_s scan_str;
          Some (verdict_line worker_id action s) }
      | REASSEMBLY_NO_SNI \<Rightarrow> Some (no_sni_line worker_id)
      | _ \<Rightarrow> Some [])"

text \<open>What the handling of one packet prints.\<close>

definition worker_output ::
  "('h, 'd, 's) worker_env \<Rightarrow> nat \<Rightarrow> 'h worker_state \<Rightarrow> rte_mbuf \<times> u64 \<times> u64 \<Rightarrow> byte list option" where
  "worker_output env worker_id w inp = (case inp of (pkt, now_sweep, now) \<Rightarrow> do {
     p \<leftarrow> parser_parse_l2_l4 pkt;
     case p of
       None \<Rightarrow> Some []
     | Some l \<Rightarrow> do {
         (ft, r) \<leftarrow> parser_flow_update (we_hash env) (wk_ft w) l now_sweep now;
         (ft, action) \<leftarrow> worker_decide env ft l r;
         worker_print worker_id r action } })"

text \<open>A run of a worker with what each packet prints.\<close>

inductive worker_logs ::
  "('h, 'd, 's) worker_env \<Rightarrow> nat \<Rightarrow> 'h worker_state \<Rightarrow> (rte_mbuf \<times> u64 \<times> u64) list \<Rightarrow> byte list list \<Rightarrow>
   'h worker_state \<Rightarrow> bool"
  for env worker_id where
  logs_done: "worker_logs env worker_id w [] [] w"
| logs_packet: "length (wk_fwd w) < BURST_SIZE \<Longrightarrow> worker_output env worker_id w p = Some out \<Longrightarrow>
    worker_packet env w p = Some w1 \<Longrightarrow> worker_logs env worker_id w1 ps outs w' \<Longrightarrow>
    worker_logs env worker_id w (p # ps) (out # outs) w'"
| logs_flush: "length t = length (wk_stats w) \<Longrightarrow>
    worker_logs env worker_id (w\<lparr>wk_fwd := [], wk_stats := t, wk_freed := freed\<rparr>) ps outs w' \<Longrightarrow>
    worker_logs env worker_id w ps outs w'"

text \<open>The lines printed for the packets of one flow.\<close>

definition flow_log :: "flow_key \<Rightarrow> (rte_mbuf \<times> u64 \<times> u64) list \<Rightarrow> byte list list \<Rightarrow> byte list" where
  "flow_log k ps outs = concat (map snd (filter (\<lambda>x. of_flow k (fst (fst x))) (zip ps outs)))"

section \<open>The scan buffer is a string\<close>

lemma http_host_nul_free: "http_host s = Some h \<Longrightarrow> nul_free s \<Longrightarrow> nul_free h"
  by (auto simp: http_host_def Let_def find_sub_nul_free nul_free_take nul_free_drop nul_free_dropWhile
      split: option.splits)

lemma http_url_nul_free: "http_url s = Some u \<Longrightarrow> nul_free s \<Longrightarrow> nul_free u"
  by (auto simp: http_url_def Let_def http_host_nul_free nul_free_takeWhile nul_free_tl nul_free_dropWhile
      split: if_splits)

lemma flow_extract_scan:
  assumes "flow_inv st" "flow_extract st ty = Some (st', r)" "ur_status r = REASSEMBLY_READY"
  shows "\<exists>len. ur_out r = Some (st_scan_buf st', len) \<and>
    fmt_s (st_scan_buf st') = Some (take len (st_scan_buf st'))"
proof -
  have sc: "length (st_scan_buf st) = 512" using assms(1) by (auto simp: flow_inv_def)
  have str: "fmt_s (c_snprintf (st_scan_buf st) u) =
      Some (take (min 511 (length u)) (c_snprintf (st_scan_buf st) u))" if "nul_free u" for u
    using fmt_s_snprintf [OF that, of "st_scan_buf st"] sc by (simp add: c_snprintf_def Let_def min_def)
  show ?thesis
  proof (cases "ty = TRAFFIC_HTTP")
    case True
    obtain x where "nul_free (http_text st)" by (rule terminated_buffer [OF assms(1)])
    then have "nul_free u" if "http_url (http_text st) = Some u" for u
      using that by (rule http_url_nul_free [rotated])
    then show ?thesis
      using assms(2,3) True str
      by (auto simp: flow_extract_def try_extract_http_eq [OF assms(1)] flow_pending_def Let_def
          split: option.splits if_splits)
  next
    case False
    obtain t u where v: "tls_verdict (contig_prefix st) = (t, u)" by (cases "tls_verdict (contig_prefix st)")
    have "nul_free u"
      using tls_client_hello_nul_free [of "st_buf st" "st_contig_len st" t u] tls_client_hello_eq [OF assms(1)] v
        assms(1) by (simp add: flow_inv_def)
    then show ?thesis
      using assms(2,3) False str
      by (auto simp: flow_extract_def try_extract_tls_sni_eq [OF assms(1)] v flow_pending_def
          split: if_splits)
  qed
qed

section \<open>The line of a flow\<close>

text \<open>The line that belongs to the verdict a flow has.\<close>

definition settled_line :: "nat \<Rightarrow> flow_state \<Rightarrow> byte list" where
  "settled_line worker_id st =
     (if st_no_sni_cached st then no_sni_line worker_id
      else case fmt_s (st_scan_buf st) of
             Some s \<Rightarrow> verdict_line worker_id (st_cached_action st) s
           | None \<Rightarrow> [])"

definition newly :: "nat \<Rightarrow> flow_state \<Rightarrow> flow_state \<Rightarrow> byte list" where
  "newly worker_id st st' =
     (if st_verdict_cached st' \<and> \<not> st_verdict_cached st then settled_line worker_id st' else [])"

text \<open>
  A flow that is marked as not inspected has its verdict, and any other verdict is the one the engine
  gives to the string in the scan buffer. A verdict keeps its line.
\<close>

definition truthful :: "('h, 'd, 's) worker_env \<Rightarrow> flow_state \<Rightarrow> bool" where
  "truthful env st \<longleftrightarrow> (st_no_sni_cached st \<longrightarrow> st_verdict_cached st) \<and>
     (st_verdict_cached st \<and> \<not> st_no_sni_cached st \<longrightarrow>
      (\<exists>s. fmt_s (st_scan_buf st) = Some s \<and> st_cached_action st = scan_verdict env (st_type st) s))"

definition keeps_line :: "flow_state \<Rightarrow> flow_state \<Rightarrow> bool" where
  "keeps_line st st' \<longleftrightarrow> (st_verdict_cached st \<longrightarrow> st_verdict_cached st' \<and>
     (\<forall>worker_id. settled_line worker_id st' = settled_line worker_id st))"

lemma update_prints:
  fixes env :: "('h, 'd, 's) worker_env"
  assumes "flow_inv st" "seg_ok l" "truthful env st" "l2l4_type l = st_type st" "flow_state_update st l now = Some (st1, r)"
  defines "a \<equiv> verdict_of env (l2l4_type l) r"
  defines "st' \<equiv> (if decides r then set_verdict st1 a else st1)"
  shows "worker_print worker_id r a = Some (newly worker_id st st')" "truthful env st'" "keeps_line st st'"
proof -
  have "worker_print worker_id r a = Some (newly worker_id st st') \<and> truthful env st' \<and> keeps_line st st'"
  proof (cases "st_verdict_cached st")
    case True
    then show ?thesis
      using assms(3,5) by (auto simp: flow_state_update_cached st'_def decides_def worker_print_def newly_def
          truthful_def keeps_line_def settled_line_def split: option.split)
  next
    case False
    obtain st2 where p: "place_segment (st\<lparr>st_last_seen_tsc := now\<rparr>) l = Some st2" "flow_inv st2"
      "same_meta (st\<lparr>st_last_seen_tsc := now\<rparr>) st2" "extracted st2 (l2l4_type l) st1 r"
      using flow_state_update_open [OF assms(1,2) False, of now] assms(5) by auto
    have fe: "flow_extract st2 (l2l4_type l) = Some (st1, r)"
      using assms(5) p(1) False by (simp add: flow_state_update_def)
    have f: "\<not> st_verdict_cached st1" "st_no_sni_cached st1 \<longleftrightarrow> ur_status r = REASSEMBLY_NO_SNI"
      "st_type st1 = l2l4_type l"
      using p(3,4) False assms(3,4) by (auto simp: extracted_def extract_frame_def same_meta_def truthful_def)
    show ?thesis
    proof (cases "ur_status r")
      case REASSEMBLY_READY
      obtain len where o: "ur_out r = Some (st_scan_buf st1, len)"
        "fmt_s (st_scan_buf st1) = Some (take len (st_scan_buf st1))"
        using flow_extract_scan [OF p(2) fe REASSEMBLY_READY] by blast
      then have "a = scan_verdict env (l2l4_type l) (take len (st_scan_buf st1))"
        using REASSEMBLY_READY by (simp add: a_def verdict_of_def answer_def)
      then show ?thesis
        using REASSEMBLY_READY o f False by (simp add: st'_def decides_def worker_print_def newly_def
            truthful_def keeps_line_def settled_line_def set_verdict_def)
    next
      case REASSEMBLY_CACHED
      then show ?thesis using extracted_result(1) [OF p(4)] by simp
    qed (use f False in \<open>simp_all add: st'_def decides_def worker_print_def newly_def truthful_def
          keeps_line_def settled_line_def set_verdict_def\<close>)
  qed
  then show "worker_print worker_id r a = Some (newly worker_id st st')" "truthful env st'" "keeps_line st st'"
    by blast+
qed

lemma newly_trans:
  assumes "keeps_line st st1" "keeps_line st1 st2"
  shows "newly worker_id st st1 @ newly worker_id st1 st2 = newly worker_id st st2" "keeps_line st st2"
proof -
  show "keeps_line st st2" using assms unfolding keeps_line_def by metis
  have "settled_line worker_id st2 = settled_line worker_id st1" "st_verdict_cached st2" if "st_verdict_cached st1"
    using assms(2) that unfolding keeps_line_def by blast+
  moreover have "st_verdict_cached st1" if "st_verdict_cached st" using assms(1) that unfolding keeps_line_def by blast
  ultimately show "newly worker_id st st1 @ newly worker_id st1 st2 = newly worker_id st st2"
    unfolding newly_def by (cases "st_verdict_cached st"; cases "st_verdict_cached st1") simp_all
qed

text \<open>What the worker prints for a packet is a matter of the packet's own flow.\<close>

lemma output_rejected: "parser_parse_l2_l4 pkt = Some None \<Longrightarrow> worker_output env worker_id w (pkt, ts, now) = Some []"
  by (simp add: worker_output_def)

definition all_truthful ::
  "('h, 'd, 's) worker_env \<Rightarrow> ('h \<Rightarrow> flow_key \<rightharpoonup> nat) \<Rightarrow> 'h worker_state \<Rightarrow> bool" where
  "all_truthful env keys w \<longleftrightarrow> (\<forall>k st. flow_of keys (wk_ft w) k = Some st \<longrightarrow> truthful env st)"

text \<open>
  What a packet does to the map of flows \<open>F1\<close> and to the console: other flows stay, its own flow is
  absent for want of room or prints the line it has newly got.
\<close>

definition log_effect ::
  "nat \<Rightarrow> (flow_key \<rightharpoonup> flow_state) \<Rightarrow> l2l4_result \<Rightarrow> u64 \<Rightarrow> (flow_key \<rightharpoonup> flow_state) \<Rightarrow> byte list \<Rightarrow> bool" where
  "log_effect worker_id F1 l now F out \<longleftrightarrow>
     (\<forall>k st. F1 k = Some st \<and> k \<noteq> l2l4_key l \<longrightarrow> F k = Some st) \<and>
     (F1 (l2l4_key l) = None \<and> out = [] \<and> F (l2l4_key l) = None \<or>
      (\<exists>st'. F (l2l4_key l) = Some st' \<and> st_last_seen_tsc st' = now \<and>
         (let st = (case F1 (l2l4_key l) of Some st \<Rightarrow> st | None \<Rightarrow> new_flow (l2l4_type l))
          in out = newly worker_id st st' \<and> keeps_line st st')))"

lemma effect_prints:
  fixes env :: "('h, 'd, 's) worker_env"
  assumes e: "packet_effect F1 l now F2 r" and ok: "l2l4_ok l"
    and F1: "\<forall>k st. F1 k = Some st \<longrightarrow> flow_ok k st \<and> truthful env st"
  defines "F \<equiv> after_verdict F2 (l2l4_key l) r (verdict_of env (l2l4_type l) r)"
  shows "\<exists>out. worker_print worker_id r (verdict_of env (l2l4_type l) r) = Some out \<and>
    (\<forall>k st. F k = Some st \<longrightarrow> truthful env st) \<and> log_effect worker_id F1 l now F out"
  using e unfolding packet_effect_def
proof (elim disjE conjE exE)
  assume n: "F1 (l2l4_key l) = None" "F2 = F1" "r = only_status REASSEMBLY_GIVE_UP"
  then have "F = F1" by (simp add: F_def after_verdict_def decides_def only_status_def)
  then show ?thesis using F1 n by (auto simp: worker_print_def only_status_def log_effect_def)
next
  fix st1
  let ?k = "l2l4_key l" and ?a = "verdict_of env (l2l4_type l) r"
  let ?st = "case F1 ?k of Some st \<Rightarrow> st | None \<Rightarrow> new_flow (l2l4_type l)"
  let ?st' = "if decides r then set_verdict st1 ?a else st1"
  assume u: "flow_state_update ?st l now = Some (st1, r)" "F2 = F1(?k \<mapsto> st1)"
  have pre: "flow_inv ?st" "truthful env ?st" "l2l4_type l = st_type ?st"
    using F1 ok by (auto simp: truthful_def flow_ok_def l2l4_ok_def split: option.split)
  have seg: "seg_ok l" using ok by (simp add: l2l4_ok_def)
  note p = update_prints [OF pre(1) seg pre(2,3) u(1)]
  have f: "F = F1(?k \<mapsto> ?st')" using u(2) by (simp add: F_def after_verdict_def)
  have "st_last_seen_tsc ?st' = now"
    using flow_state_update_spec [OF pre(1) seg, of now] u(1) by (auto simp: set_verdict_def)
  then have "log_effect worker_id F1 l now F (newly worker_id ?st ?st')"
    using p(3) unfolding f by (simp add: log_effect_def Let_def)
  moreover have "\<forall>k st. F k = Some st \<longrightarrow> truthful env st" using F1 p(2) unfolding f by auto
  ultimately show ?thesis using p(1) [of worker_id] by blast
qed

lemma worker_output_parsed:
  assumes con: "rte_hash_contract (we_hash env) ok keys slots" and safe: "scan_safe env"
    and inv: "worker_inv ok keys env w" and m: "mbuf_ok pkt" and room: "length (wk_fwd w) < BURST_SIZE"
    and marks: "all_truthful env keys w" and l: "parser_parse_l2_l4 pkt = Some (Some l)"
  obtains w1 out F1 where "worker_packet env w (pkt, ts, now) = Some w1" "all_truthful env keys w1"
    "worker_output env worker_id w (pkt, ts, now) = Some out" "worker_inv ok keys env w1"
    "ft_timeout_cycles (wk_ft w1) = ft_timeout_cycles (wk_ft w)"
    "if (ft_call_count (wk_ft w) + 1) mod 256 = 0
     then swept (ft_timeout_cycles (wk_ft w)) ts (flow_of keys (wk_ft w)) F1 else F1 = flow_of keys (wk_ft w)"
    "log_effect worker_id F1 l now (flow_of keys (wk_ft w1)) out"
proof -
  obtain ft' r F1 F2 ft1 where w: "worker_packet env w (pkt, ts, now) =
      Some (account env w pkt (l2l4_type l) (ur_no_sni r) (verdict_of env (l2l4_type l) r) ft')"
    "table_inv ok keys ft'" "ft_timeout_cycles ft' = ft_timeout_cycles (wk_ft w)"
    "parser_flow_update (we_hash env) (wk_ft w) l ts now = Some (ft1, r)"
    "worker_decide env ft1 l r = Some (ft', verdict_of env (l2l4_type l) r)"
    "if (ft_call_count (wk_ft w) + 1) mod 256 = 0
     then swept (ft_timeout_cycles (wk_ft w)) ts (flow_of keys (wk_ft w)) F1
     else F1 = flow_of keys (wk_ft w)"
    "packet_effect F1 l now F2 r"
    "flow_of keys ft' = after_verdict F2 (l2l4_key l) r (verdict_of env (l2l4_type l) r)"
    using worker_packet_parsed [OF con inv safe m l room] by blast
  let ?w1 = "account env w pkt (l2l4_type l) (ur_no_sni r) (verdict_of env (l2l4_type l) r) ft'"
  have acc: "wk_ft ?w1 = ft'" "worker_inv ok keys env ?w1"
    using inv w(2) by (simp_all add: account_def worker_inv_def)
  have sub: "F1 \<subseteq>\<^sub>m flow_of keys (wk_ft w)" using w(6) by (auto simp: swept_def split: if_splits)
  have F1: "\<forall>k st. F1 k = Some st \<longrightarrow> flow_ok k st \<and> truthful env st"
  proof (intro allI impI)
    fix j st
    assume "F1 j = Some st"
    then have "flow_of keys (wk_ft w) j = Some st" using sub by (metis domI map_le_def)
    then show "flow_ok j st \<and> truthful env st"
      using inv marks by (auto simp: all_truthful_def worker_inv_def table_inv_def)
  qed
  obtain out where o: "worker_print worker_id r (verdict_of env (l2l4_type l) r) = Some out"
    "\<forall>k st. flow_of keys ft' k = Some st \<longrightarrow> truthful env st" "log_effect worker_id F1 l now (flow_of keys ft') out"
    using effect_prints [OF w(7) parsed_ok(1) [OF l m] F1, where worker_id = worker_id] unfolding w(8) by blast
  have "all_truthful env keys ?w1" using o(2) acc(1) by (simp add: all_truthful_def)
  moreover have "worker_output env worker_id w (pkt, ts, now) = Some out"
    using l w(4,5) o(1) by (simp add: worker_output_def)
  ultimately show ?thesis using that [OF w(1) _ _ acc(2) _ w(6)] w(3) acc(1) o(3) by simp
qed

lemma flow_log_Nil [simp]: "flow_log k [] [] = []"
  by (simp add: flow_log_def)

lemma flow_log_Cons [simp]:
  "flow_log k (p # ps) (out # outs) = (if of_flow k (fst p) then out else []) @ flow_log k ps outs"
  by (simp add: flow_log_def)

text \<open>One packet of a run, seen from one flow in the table.\<close>

lemma packet_logs:
  assumes con: "rte_hash_contract (we_hash env) ok keys slots" and safe: "scan_safe env"
    and inv: "worker_inv ok keys env w" and m: "mbuf_ok (fst p)" and room: "length (wk_fwd w) < BURST_SIZE"
    and marks: "all_truthful env keys w" and st: "flow_of keys (wk_ft w) k = Some st"
    and fresh: "fst (snd p) - st_last_seen_tsc st \<le> ft_timeout_cycles (wk_ft w)"
    and w1: "worker_packet env w p = Some w1"
  obtains out st' where "worker_output env worker_id w p = Some out" "worker_inv ok keys env w1"
    "ft_timeout_cycles (wk_ft w1) = ft_timeout_cycles (wk_ft w)" "all_truthful env keys w1"
    "flow_of keys (wk_ft w1) k = Some st'" "keeps_line st st'"
    "(if of_flow k (fst p) then out else []) = newly worker_id st st'"
    "st_last_seen_tsc st' = (case own k p of Some q \<Rightarrow> snd q | None \<Rightarrow> st_last_seen_tsc st)"
proof -
  obtain pkt ts now where p: "p = (pkt, ts, now)" by (metis prod_cases3)
  have self: "newly worker_id st st = []" "keeps_line st st" for st by (simp_all add: newly_def keeps_line_def)
  show ?thesis
  proof (cases "parser_parse_l2_l4 pkt = Some None")
    case True
    have o: "\<not> of_flow k pkt" "own k p = None" using True p by (auto simp: of_flow_def own_def)
    have "w1 = account env w pkt TRAFFIC_NON_DPI False ACTION_DROP (wk_ft w)"
      using worker_packet_rejected [OF inv True] w1 p by simp
    then have "wk_ft w1 = wk_ft w" "worker_inv ok keys env w1"
      using inv by (simp_all add: account_def worker_inv_def)
    then show ?thesis
      using that [of "[]" st] output_rejected [OF True, of env worker_id w ts now] p o self marks st by (simp add: all_truthful_def)
  next
    case False
    then obtain l where l: "parser_parse_l2_l4 pkt = Some (Some l)"
      using parse_defined [of pkt] by (metis option.exhaust)
    have m': "mbuf_ok pkt" using m p by simp
    obtain w2 out F1 where e: "worker_packet env w (pkt, ts, now) = Some w2" "all_truthful env keys w2"
      "worker_output env worker_id w (pkt, ts, now) = Some out" "worker_inv ok keys env w2"
      "ft_timeout_cycles (wk_ft w2) = ft_timeout_cycles (wk_ft w)"
      "if (ft_call_count (wk_ft w) + 1) mod 256 = 0
       then swept (ft_timeout_cycles (wk_ft w)) ts (flow_of keys (wk_ft w)) F1 else F1 = flow_of keys (wk_ft w)"
      "log_effect worker_id F1 l now (flow_of keys (wk_ft w2)) out"
      by (rule worker_output_parsed [OF con safe inv m' room marks l])
    have w2: "w2 = w1" using e(1) w1 p by simp
    have F1: "F1 k = Some st" using swept_keeps_alive [OF st _ e(6)] fresh p by simp
    have own: "own k p = (if l2l4_key l = k then Some (l, now) else None)"
      unfolding p by (rule own_parsed [OF l])
    have fl: "of_flow k pkt \<longleftrightarrow> l2l4_key l = k" using l by (simp add: of_flow_def)
    show ?thesis
    proof (cases "l2l4_key l = k")
      case True
      obtain st' where "flow_of keys (wk_ft w1) k = Some st'" "st_last_seen_tsc st' = now"
        "out = newly worker_id st st'" "keeps_line st st'"
        using e(7) F1 True unfolding w2 by (auto simp: log_effect_def Let_def)
      then show ?thesis
        using that [of out st'] e(2-5) p own fl True unfolding w2 by simp
    next
      case False
      then show ?thesis
        using that [of out st] e(2-5,7) F1 p own fl self unfolding w2 by (simp add: log_effect_def)
    qed
  qed
qed

lemma run_logs:
  assumes "worker_run env w ps w'" "rte_hash_contract (we_hash env) ok keys slots" "scan_safe env"
    and "worker_inv ok keys env w" "\<forall>p \<in> set ps. mbuf_ok (fst p)" "all_truthful env keys w"
    and "flow_of keys (wk_ft w) k = Some st"
    and "alive k (ft_timeout_cycles (wk_ft w)) (st_last_seen_tsc st) ps"
  shows "\<exists>outs st'. worker_logs env worker_id w ps outs w' \<and> flow_of keys (wk_ft w') k = Some st' \<and>
    flow_log k ps outs = newly worker_id st st' \<and> keeps_line st st' \<and> truthful env st'"
  using assms(1,4-8)
proof (induction arbitrary: st rule: worker_run.induct)
  case (run_done w)
  have "newly worker_id st st = []" "keeps_line st st" "truthful env st"
    using run_done by (simp_all add: newly_def keeps_line_def all_truthful_def)
  then show ?case using run_done logs_done by fastforce
next
  case (run_packet w p w1 ps w')
  have m: "mbuf_ok (fst p)" "\<forall>q \<in> set ps. mbuf_ok (fst q)"
    "fst (snd p) - st_last_seen_tsc st \<le> ft_timeout_cycles (wk_ft w)"
    using run_packet.prems by simp_all
  obtain out st1 where e: "worker_output env worker_id w p = Some out" "worker_inv ok keys env w1"
    "ft_timeout_cycles (wk_ft w1) = ft_timeout_cycles (wk_ft w)" "all_truthful env keys w1"
    "flow_of keys (wk_ft w1) k = Some st1" "keeps_line st st1"
    "(if of_flow k (fst p) then out else []) = newly worker_id st st1"
    "st_last_seen_tsc st1 = (case own k p of Some q \<Rightarrow> snd q | None \<Rightarrow> st_last_seen_tsc st)"
    by (rule packet_logs [OF assms(2,3) run_packet.prems(1) m(1) run_packet.hyps(1) run_packet.prems(3,4)
          m(3) run_packet.hyps(2)])
  have "alive k (ft_timeout_cycles (wk_ft w1)) (st_last_seen_tsc st1) ps"
    using run_packet.prems(5) e(3,8) by simp
  from run_packet.IH [OF e(2) m(2) e(4,5) this] obtain outs st' where
    r: "worker_logs env worker_id w1 ps outs w'" "flow_of keys (wk_ft w') k = Some st'"
    "flow_log k ps outs = newly worker_id st1 st'" "keeps_line st1 st'" "truthful env st'" by blast
  have "worker_logs env worker_id w (p # ps) (out # outs) w'"
    by (rule logs_packet [OF run_packet.hyps(1) e(1) run_packet.hyps(2) r(1)])
  moreover have "flow_log k (p # ps) (out # outs) = newly worker_id st st'"
    using e(7) r(3) newly_trans(1) [OF e(6) r(4)] by simp
  ultimately show ?case using r(2,5) newly_trans(2) [OF e(6) r(4)] by blast
next
  case (run_flush t w freed ps w')
  let ?w = "w\<lparr>wk_fwd := [], wk_stats := t, wk_freed := freed\<rparr>"
  have "worker_inv ok keys env ?w" "all_truthful env keys ?w"
    using run_flush.prems(1,3) run_flush.hyps(1) by (simp_all add: worker_inv_def all_truthful_def)
  then obtain outs st' where "worker_logs env worker_id ?w ps outs w'" "flow_of keys (wk_ft w') k = Some st'"
    "flow_log k ps outs = newly worker_id st st'" "keeps_line st st'" "truthful env st'"
    using run_flush.IH [of st] run_flush.prems by auto
  then show ?case using logs_flush [OF run_flush.hyps(1)] by blast
qed

lemma run_snoc:
  "worker_run env w ps w' \<Longrightarrow> length (wk_fwd w') < BURST_SIZE \<Longrightarrow> worker_packet env w' p = Some w'' \<Longrightarrow>
   worker_run env w (ps @ [p]) w''"
  by (induction rule: worker_run.induct) (auto intro: worker_run.intros)

lemma flow_begins_snoc:
  assumes "flow_begins env keys k w ps w'" "ps \<noteq> []" "length (wk_fwd w') < BURST_SIZE"
    and "worker_packet env w' p = Some w''"
  shows "flow_begins env keys k w (ps @ [p]) w''"
  using assms run_snoc [of env _ _ w' p w''] by (cases ps) (auto simp: flow_begins_def)

lemma flow_logs:
  assumes con: "rte_hash_contract (we_hash env) ok keys slots" and safe: "scan_safe env"
    and inv: "worker_inv ok keys env w" and marks: "all_truthful env keys w"
    and none: "flow_of keys (wk_ft w) k = None"
    and begins: "flow_begins env keys k w ps w'" and "ps \<noteq> []" and m: "\<forall>q \<in> set ps. mbuf_ok (fst q)"
    and alive: "alive k (ft_timeout_cycles (wk_ft w)) (snd (snd (hd ps))) (tl ps)"
  shows "\<exists>outs st. worker_logs env worker_id w ps outs w' \<and> flow_of keys (wk_ft w') k = Some st \<and>
    flow_log k ps outs = (if st_verdict_cached st then settled_line worker_id st else []) \<and> truthful env st"
proof -
  obtain p0 qs where ps: "ps = p0 # qs" using assms(7) by (cases ps) auto
  obtain l now w1 where b: "own k p0 = Some (l, now)" "length (wk_fwd w) < BURST_SIZE"
    "worker_packet env w p0 = Some w1" "flow_of keys (wk_ft w1) k \<noteq> None" "worker_run env w1 qs w'"
    using begins ps by (auto simp: flow_begins_def)
  obtain pkt ts where p0: "p0 = (pkt, ts, now)" using ownD(3) [OF b(1)] by (metis prod.collapse)
  have l: "parser_parse_l2_l4 pkt = Some (Some l)" "l2l4_key l = k" "mbuf_ok pkt"
    using ownD(1,2) [OF b(1)] m p0 ps by simp_all
  obtain w2 out F1 where e: "worker_packet env w (pkt, ts, now) = Some w2" "all_truthful env keys w2"
    "worker_output env worker_id w (pkt, ts, now) = Some out" "worker_inv ok keys env w2"
    "ft_timeout_cycles (wk_ft w2) = ft_timeout_cycles (wk_ft w)"
    "if (ft_call_count (wk_ft w) + 1) mod 256 = 0
     then swept (ft_timeout_cycles (wk_ft w)) ts (flow_of keys (wk_ft w)) F1 else F1 = flow_of keys (wk_ft w)"
    "log_effect worker_id F1 l now (flow_of keys (wk_ft w2)) out"
    by (rule worker_output_parsed [OF con safe inv l(3) b(2) marks l(1)])
  have w2: "w2 = w1" using e(1) b(3) p0 by simp
  have "F1 \<subseteq>\<^sub>m flow_of keys (wk_ft w)" using e(6) by (auto simp: swept_def split: if_splits)
  then have "F1 k = None" using none by (metis domI domIff map_le_def)
  then obtain st1 where st1: "flow_of keys (wk_ft w1) k = Some st1" "st_last_seen_tsc st1 = now"
    "out = newly worker_id (new_flow (l2l4_type l)) st1" "keeps_line (new_flow (l2l4_type l)) st1"
    using e(7) b(4) l(2) unfolding w2 by (auto simp: log_effect_def Let_def)
  have al: "alive k (ft_timeout_cycles (wk_ft w1)) (st_last_seen_tsc st1) qs"
    using alive ps p0 st1(2) e(5) w2 by simp
  have mq: "\<forall>q \<in> set qs. mbuf_ok (fst q)" using m ps by simp
  obtain outs st where r: "worker_logs env worker_id w1 qs outs w'" "flow_of keys (wk_ft w') k = Some st"
    "flow_log k qs outs = newly worker_id st1 st" "keeps_line st1 st" "truthful env st"
    using run_logs [OF b(5) con safe e(4) [unfolded w2] mq e(2) [unfolded w2] st1(1) al,
        where worker_id = worker_id] by blast
  have "worker_logs env worker_id w ps (out # outs) w'"
    using logs_packet [OF b(2) _ b(3) r(1)] e(3) p0 ps by simp
  moreover have "flow_log k ps (out # outs) = newly worker_id (new_flow (l2l4_type l)) st"
    using newly_trans(1) [OF st1(4) r(4)] st1(3) r(3) l(1,2) ps p0 by (auto simp: of_flow_def)
  moreover have "newly worker_id (new_flow (l2l4_type l)) st =
      (if st_verdict_cached st then settled_line worker_id st else [])"
    by (simp add: newly_def)
  ultimately show ?thesis using r(2,5) by metis
qed

section \<open>Properties\<close>

text \<open>
  C15: the log of a flow. Whatever a worker handles from the first packet of a flow on, printing never
  reads past the scan buffer, and the lines printed for the packets of the flow are exactly one line if
  the flow has got its verdict, and none otherwise. The line shows the verdict that is cached and the
  string in the scan buffer, or that the content was not inspected; and it is true: the cached verdict
  is the one the engine gives to the string shown.
\<close>

theorem flow_logged_once:
  assumes "rte_hash_contract (we_hash env) ok keys slots" and "scan_safe env"
    and "worker_inv ok keys env w" and "all_truthful env keys w" and "flow_of keys (wk_ft w) k = None"
    and "flow_begins env keys k w ps w'" and "ps \<noteq> []" and "\<forall>q \<in> set ps. mbuf_ok (fst q)"
    and "alive k (ft_timeout_cycles (wk_ft w)) (snd (snd (hd ps))) (tl ps)"
  shows "\<exists>outs st. worker_logs env worker_id w ps outs w' \<and> flow_of keys (wk_ft w') k = Some st \<and>
    flow_log k ps outs = (if st_verdict_cached st then settled_line worker_id st else []) \<and> truthful env st"
  by (rule flow_logs [OF assms])

text \<open>The two halves of a request for a blocked host with garbage between them: one line.\<close>

theorem flow_logged_once_witness:
  "\<exists>(env :: (slot_hash, literal_db, unit) worker_env) w' outs st. let
       bs = ascii ''GET / HTTP/1.1'' @ crlf @ ascii ''Host: malware.com'' @ crlf;
       ps = demo_inputs 0 80 bs @ [demo_last 0 80 bs]
     in worker_logs env 3 demo_worker ps outs w' \<and> st_cached_action st = ACTION_DROP \<and>
       flow_of slot_keys (wk_ft w') (frame_key 0 80) = Some st \<and>
       flow_log (frame_key 0 80) ps outs = settled_line 3 st"
proof -
  define bs where "bs = ascii ''GET / HTTP/1.1'' @ crlf @ ascii ''Host: malware.com'' @ crlf"
  let ?r = "\<lparr>rule_type = TRAFFIC_HTTP, rule_pattern = ascii ''malware'', rule_action = ACTION_DROP\<rparr>"
  let ?k = "frame_key 0 80" and ?ps = "demo_inputs 0 80 bs @ [demo_last 0 80 bs]"
  have ok: "request_ok (ascii ''GET '') (ascii ''/'') (ascii ''HTTP/1.1'') []
      (ascii ''Host:'') (ascii ''malware.com'')"
    by (simp add: request_ok_def line_ok_def http_methods_def ascii_def)
  have req: "bs = request_head (ascii ''GET '') (ascii ''/'') (ascii ''HTTP/1.1'') [] @
      host_line (ascii ''Host:'') 1 (ascii ''malware.com'')"
    by (simp add: bs_def request_head_def host_line_def ascii_def)
  have len: "length bs = 35" by (simp add: bs_def ascii_def crlf_def)
  have len': "20 < length bs" "length bs \<le> 4095" "length bs \<le> 4096 - 1" using len by simp_all
  define url where "url = take (512 - 1) (ascii ''http://'' @ ascii ''malware.com'' @ ascii ''/'')"
  have set: "settles TRAFFIC_HTTP bs url" unfolding url_def by (rule http_settles [OF ok req len'(3)])
  have "literal_matches (ascii ''malware'') n url" for n
    unfolding literal_matches_def url_def by (rule exI [of _ 7]) (simp add: ascii_def)
  then have drop: "drop_rule literal_matches (typed_lines [?r] TRAFFIC_HTTP) url"
    by (simp add: drop_rule_def typed_lines_def)
  have port: "classify_port (be16 0 80) = Some TRAFFIC_HTTP" by (simp add: classify_port_def be16_def)
  have "rule_ok ?r" by (simp add: rule_ok_def ascii_def)
  then obtain env :: "(slot_hash, literal_db, unit) worker_env" where env: "we_hash env = slot_ops"
    "we_lcore env = 1" "we_hs env = literal_hs" "loaded_env env literal_matches (\<lambda>s d. True) [?r]"
    by (rule one_rule_env)
  note safe = loaded_safe [OF env(4)]
  obtain w' w'' where s: "flow_begins env slot_keys ?k demo_worker (demo_inputs 0 80 bs) w'"
    "length (wk_fwd w') < 32" "worker_packet env w' (demo_last 0 80 bs) = Some w''"
    "flow_of slot_keys (wk_ft w'') ?k \<noteq> None"
    by (rule demo_session [OF env(1,2) safe port len'(1) set])
  note o = demo_owns [OF port len'(1,2)] and d = demo_facts_env [OF env(1,2)]
    and al = demo_alive [OF port len'(1,2)]
  have b: "flow_begins env slot_keys ?k demo_worker ?ps w''"
    by (rule flow_begins_snoc [OF s(1) _ s(2,3)]) (simp add: demo_inputs_def)
  have marks: "all_truthful env slot_keys demo_worker"
    using flow_of_empty_table by (simp add: all_truthful_def demo_worker_def)
  obtain outs st where l: "worker_logs env 3 demo_worker ?ps outs w''" "flow_of slot_keys (wk_ft w'') ?k = Some st"
    "flow_log ?k ?ps outs = (if st_verdict_cached st then settled_line 3 st else [])"
    using flow_logged_once [OF d(1) safe d(2) marks d(3) b _ o(5) al, of 3] by blast
  have "\<not> scan_failed (we_hs env) (we_engine env) (we_scratch env) TRAFFIC_HTTP url"
    by (simp add: env(3) literal_never_fails)
  then have "st_verdict_cached st \<and> st_cached_action st = ACTION_DROP"
    using flow_gets_verdict [OF d(1) env(4) d(2,3) s(1) o(5) al o(3) s(2-4), of _ _ _ url] o(4) set drop l(2) by auto
  then show ?thesis unfolding Let_def bs_def [symmetric] using l by metis
qed

end
