(* ===== verification/Engine_Log.thy ===== *)
theory Engine_Log
  imports Worker_Log
begin

text \<open>
  What the engine reports on the error stream while the gateway runs (\<open>dpi_engine_alloc_scratch\<close> and
  \<open>dpi_engine_scan\<close> of \<open>src/dpi_engine.c\<close>). Shown: the two streams of a worker together tell the truth
  about every verdict, also when Hyperscan fails.
\<close>

section \<open>Model\<close>

text \<open>The numbers of Hyperscan's error codes.\<close>

fun hs_code :: "hs_error \<Rightarrow> int" where
  "hs_code HS_SUCCESS = 0"
| "hs_code HS_SCAN_TERMINATED = -3"
| "hs_code (HS_OTHER_ERROR c) = c"

text \<open>What \<open>dpi_engine_alloc_scratch\<close> prints.\<close>

definition alloc_scratch_message :: "(traffic_type \<times> hs_error \<times> 's option) + 's option \<Rightarrow> byte list" where
  "alloc_scratch_message result =
     (case result of
        Inl (type, err, scratch) \<Rightarrow>
          ascii ''dpi_engine: hs_alloc_scratch '' @
          (if type = TRAFFIC_HTTP then ascii ''(http)'' else ascii ''(https)'') @
          ascii '' failed: '' @ fmt_d (hs_code err) @ nl
      | Inr scratch \<Rightarrow> [])"

text \<open>What \<open>dpi_engine_scan\<close> prints.\<close>

definition scan_failed_line :: "hs_error \<Rightarrow> byte list" where
  "scan_failed_line err = ascii ''dpi_engine: hs_scan failed: '' @ fmt_d (hs_code err) @ nl"

definition scan_message ::
  "('d, 's) hs_ops \<Rightarrow> 'd dpi_engine \<Rightarrow> 's option \<Rightarrow> traffic_type \<Rightarrow> byte list \<Rightarrow> byte list" where
  "scan_message hs e scratch type data =
     (let d = db_for e type in
      case db d of
        None \<Rightarrow> []
      | Some hdb \<Rightarrow>
          if nrules d = 0 then []
          else
            let (err, ctx) = hs_scan hs hdb data scratch on_match
                               (Some \<lparr>mctx_db = d, mctx_result = ACTION_FORWARD\<rparr>)
            in if err \<noteq> HS_SUCCESS \<and> err \<noteq> HS_SCAN_TERMINATED then scan_failed_line err else [])"

text \<open>What the handling of one packet prints on the error stream.\<close>

definition worker_errors ::
  "('h, 'd, 's) worker_env \<Rightarrow> 'h worker_state \<Rightarrow> rte_mbuf \<times> u64 \<times> u64 \<Rightarrow> byte list option" where
  "worker_errors env w inp = (case inp of (pkt, now_sweep, now) \<Rightarrow> do {
     p \<leftarrow> parser_parse_l2_l4 pkt;
     case p of
       None \<Rightarrow> Some []
     | Some l \<Rightarrow> do {
         (ft, r) \<leftarrow> parser_flow_update (we_hash env) (wk_ft w) l now_sweep now;
         if ur_status r = REASSEMBLY_READY then do {
           (scan_str, scan_len) \<leftarrow> ur_out r;
           Some (scan_message (we_hs env) (we_engine env) (we_scratch env) (l2l4_type l)
             (take scan_len scan_str)) }
         else Some [] } })"

section \<open>The streams of one packet\<close>

lemma update_ready_scan:
  assumes "flow_inv st" "seg_ok l" "flow_state_update st l now = Some (st1, r)" "ur_status r = REASSEMBLY_READY"
  obtains buf len where "ur_out r = Some (buf, len)" "fmt_s buf = Some (take len buf)"
proof -
  have open_flow: "\<not> st_verdict_cached st"
    using assms(3,4) by (auto simp: flow_state_update_cached)
  obtain st2 where p: "place_segment (st\<lparr>st_last_seen_tsc := now\<rparr>) l = Some st2" "flow_inv st2"
    using flow_state_update_open [OF assms(1,2) open_flow, of now] by auto
  have "flow_extract st2 (l2l4_type l) = Some (st1, r)"
    using assms(3) p(1) open_flow by (simp add: flow_state_update_def)
  then show ?thesis using flow_extract_scan [OF p(2) _ assms(4)] that by blast
qed

text \<open>A message appears exactly when the scan fails.\<close>

lemma scan_message_iff:
  fixes data :: "byte list"
  assumes "loaded_env env matches fits lines" "ty \<in> {TRAFFIC_HTTP, TRAFFIC_HTTPS}"
  defines "m \<equiv> scan_message (we_hs env) (we_engine env) (we_scratch env) ty data"
  shows "if scan_failed (we_hs env) (we_engine env) (we_scratch env) ty data
    then \<exists>err. m = scan_failed_line err else m = []"
proof -
  have "db_of (we_hs env) (typed_lines lines ty) (db_for (we_engine env) ty)"
    using assms(1,2) load_rules_ok unfolding loaded_env_def by blast
  then have "nrules (db_for (we_engine env) ty) \<noteq> 0" if "db (db_for (we_engine env) ty) = Some d" for d
    using that by (auto simp: db_of_def split: if_splits)
  then show ?thesis
    by (auto simp: m_def scan_message_def scan_failed_def Let_def split: option.split prod.split)
qed

text \<open>
  The verdict behind a line: with no message on the error stream it is the verdict of the rules, with
  one it is FORWARD.
\<close>

definition verdict_told ::
  "(byte list \<Rightarrow> nat \<Rightarrow> byte list \<Rightarrow> bool) \<Rightarrow> rule_line list \<Rightarrow> traffic_type \<Rightarrow> byte list \<Rightarrow> packet_action \<Rightarrow>
   byte list \<Rightarrow> bool" where
  "verdict_told matches lines ty s a err \<longleftrightarrow>
     err = [] \<and> (a = ACTION_DROP \<longleftrightarrow> drop_rule matches (typed_lines lines ty) s) \<or>
     a = ACTION_FORWARD \<and> (\<exists>code. err = scan_failed_line code)"

lemma scan_verdict_told:
  assumes "loaded_env env matches fits lines" "ty \<in> {TRAFFIC_HTTP, TRAFFIC_HTTPS}"
  shows "verdict_told matches lines ty s (scan_verdict env ty s)
    (scan_message (we_hs env) (we_engine env) (we_scratch env) ty s)"
  using loaded_scan [OF assms, of s] scan_message_iff [OF assms, of s]
  by (auto simp: verdict_told_def scan_verdict_def split: if_splits)

lemma packet_streams:
  assumes con: "rte_hash_contract (we_hash env) ok keys slots" and load: "loaded_env env matches fits lines"
    and inv: "worker_inv ok keys env w" and m: "mbuf_ok pkt" and room: "length (wk_fwd w) < BURST_SIZE"
    and l: "parser_parse_l2_l4 pkt = Some (Some l)"
  obtains w1 out err ft r where "worker_packet env w (pkt, ts, now) = Some w1"
    "worker_output env worker_id w (pkt, ts, now) = Some out" "worker_errors env w (pkt, ts, now) = Some err"
    "parser_flow_update (we_hash env) (wk_ft w) l ts now = Some (ft, r)"
    "case ur_status r of
       REASSEMBLY_READY \<Rightarrow> \<exists>a s st. out = verdict_line worker_id a s \<and>
         flow_of keys (wk_ft w1) (l2l4_key l) = Some st \<and> st_verdict_cached st \<and> st_cached_action st = a \<and>
         verdict_told matches lines (l2l4_type l) s a err
     | REASSEMBLY_NO_SNI \<Rightarrow> out = no_sni_line worker_id \<and> err = []
     | _ \<Rightarrow> out = [] \<and> err = []"
proof -
  let ?ty = "l2l4_type l"
  obtain ft' r F1 F2 ft1 where w: "worker_packet env w (pkt, ts, now) =
      Some (account env w pkt ?ty (ur_no_sni r) (verdict_of env ?ty r) ft')"
    "parser_flow_update (we_hash env) (wk_ft w) l ts now = Some (ft1, r)"
    "worker_decide env ft1 l r = Some (ft', verdict_of env ?ty r)"
    "if (ft_call_count (wk_ft w) + 1) mod 256 = 0
     then swept (ft_timeout_cycles (wk_ft w)) ts (flow_of keys (wk_ft w)) F1
     else F1 = flow_of keys (wk_ft w)"
    "packet_effect F1 l now F2 r" "flow_of keys ft' = after_verdict F2 (l2l4_key l) r (verdict_of env ?ty r)"
    using worker_packet_parsed [OF con inv loaded_safe [OF load] m l room] by blast
  let ?w1 = "account env w pkt ?ty (ur_no_sni r) (verdict_of env ?ty r) ft'"
  have ok: "l2l4_ok l" using parsed_ok(1) [OF l m] .
  have ty: "?ty \<in> {TRAFFIC_HTTP, TRAFFIC_HTTPS}" using ok by (auto simp: l2l4_ok_def classify_port_def split: if_splits)
  show ?thesis
  proof (cases "ur_status r = REASSEMBLY_READY")
    case False
    then show ?thesis
      using that [OF w(1) _ _ w(2)] l w(2,3)
      by (cases "ur_status r") (simp_all add: worker_output_def worker_errors_def worker_print_def)
  next
    case True
    let ?st = "case F1 (l2l4_key l) of Some st \<Rightarrow> st | None \<Rightarrow> new_flow ?ty"
    obtain st1 where u: "flow_state_update ?st l now = Some (st1, r)" "F2 = F1(l2l4_key l \<mapsto> st1)"
      using w(5) True by (auto simp: packet_effect_def only_status_def)
    have sub: "F1 \<subseteq>\<^sub>m flow_of keys (wk_ft w)" using w(4) by (auto simp: swept_def split: if_splits)
    have "flow_inv st" if "F1 (l2l4_key l) = Some st" for st
      using sub that table_flow_inv [OF inv] by (metis domI map_le_def)
    then have st: "flow_inv ?st" by (simp split: option.split)
    obtain buf len where b: "ur_out r = Some (buf, len)" "fmt_s buf = Some (take len buf)"
      using update_ready_scan [OF st _ u(1) True] ok by (auto simp: l2l4_ok_def)
    let ?s = "take len buf" and ?m = "scan_message (we_hs env) (we_engine env) (we_scratch env) ?ty (take len buf)"
    have a: "verdict_of env ?ty r = scan_verdict env ?ty ?s"
      using True b(1) by (simp add: verdict_of_def answer_def)
    have "worker_output env worker_id w (pkt, ts, now) = Some (verdict_line worker_id (scan_verdict env ?ty ?s) ?s)"
      "worker_errors env w (pkt, ts, now) = Some ?m"
      using l w(2,3) True b a by (simp_all add: worker_output_def worker_errors_def worker_print_def)
    moreover have "flow_of keys (wk_ft ?w1) (l2l4_key l) = Some (set_verdict st1 (scan_verdict env ?ty ?s))"
      using w(6) u(2) True a by (simp add: account_def after_verdict_def decides_def)
    ultimately show ?thesis
      using that [OF w(1) _ _ w(2)] True scan_verdict_told [OF load ty, of ?s]
      by (auto simp: set_verdict_def)
  qed
qed

text \<open>The error stream is defined wherever the output is.\<close>

lemma worker_errors_defined:
  assumes "worker_output env worker_id w p = Some out"
  shows "\<exists>err. worker_errors env w p = Some err"
  using assms
  by (cases p) (auto simp: worker_output_def worker_errors_def worker_print_def
      split: Option.bind_splits option.splits if_splits)

section \<open>An engine that fails\<close>

text \<open>Every scan ends with Hyperscan's error -1 before anything is reported.\<close>

definition failing_hs :: "(literal_db, unit) hs_ops" where
  "failing_hs = literal_hs\<lparr>hs_scan := (\<lambda>d data s cb ctx. (HS_OTHER_ERROR (-1), ctx))\<rparr>"

interpretation failing: hyperscan failing_hs literal_matches "\<lambda>s d. True"
proof unfold_locales
  fix es d s data cb ctx
  assume "hs_compile_multi failing_hs es = Some d"
  have ms: "set (map (\<lambda>(e, f, i). i) (filter (\<lambda>(e, f, i). literal_matches e f data) es)) =
      reported literal_matches es data" (is "set ?ms = _") by (force simp: reported_def)
  have "hs_scan failing_hs d data (Some s) cb ctx = (HS_OTHER_ERROR (-1), snd (deliver cb ctx (take 0 ?ms)))"
    by (simp add: failing_hs_def)
  then show "\<exists>ms. set ms = reported literal_matches es data \<and>
      (hs_scan failing_hs d data (Some s) cb ctx = deliver cb ctx ms \<or>
       (\<exists>c n. hs_scan failing_hs d data (Some s) cb ctx =
          (HS_OTHER_ERROR c, snd (deliver cb ctx (take n ms)))))"
    using ms by blast
qed (simp_all add: failing_hs_def literal_hs_def)

lemma failing_env:
  obtains e where "loaded_env \<lparr>we_hash = slot_ops, we_hs = failing_hs, we_engine = e, we_scratch = Some (), we_lcore = 1\<rparr>
    literal_matches (\<lambda>s d. True) [demo_rule]" "db (db_for e TRAFFIC_HTTP) \<noteq> None"
proof -
  obtain e where e: "dpi_engine_load_rules failing_hs (\<lambda>c. True) True True (Some (rule_text demo_rule @ [10])) zero_engine =
      (True, e)" "db (g_http_db e) \<noteq> None" "db (g_https_db e) = None"
    using demo_read by (auto simp: dpi_engine_load_rules_def compile_db_def typed_lines_def Let_def
        failing_hs_def literal_hs_def demo_rule_def)
  have "dpi_engine_alloc_scratch failing_hs e = Inr (Some ())"
    using e(2,3) by (auto simp: dpi_engine_alloc_scratch_def alloc_scratch_for_def failing_hs_def literal_hs_def)
  then show ?thesis
    using that [of e] failing.hyperscan_axioms e(1,2) demo_read unfolding loaded_env_def by (auto simp: db_for_def)
qed

section \<open>Properties\<close>

text \<open>
  C16: the verdict lines are true, also when Hyperscan fails. For every packet that parses, the worker's
  output and error stream are defined. If the packet completes a string, one line shows the string and
  the verdict that is now cached for the flow; if the error stream is silent, this is DROP exactly when
  a DROP rule of the packet's type matches the string shown; otherwise the error stream has Hyperscan's
  error and the verdict is FORWARD, cached like any other, so the flow is not scanned again. A packet
  that settles nothing prints nothing.
\<close>

theorem verdict_lines_true:
  assumes "rte_hash_contract (we_hash env) ok keys slots" and "loaded_env env matches fits lines"
    and "worker_inv ok keys env w" and "mbuf_ok pkt" and "length (wk_fwd w) < BURST_SIZE"
    and "parser_parse_l2_l4 pkt = Some (Some l)"
  shows "\<exists>w1 out err ft r. worker_packet env w (pkt, ts, now) = Some w1 \<and>
    worker_output env worker_id w (pkt, ts, now) = Some out \<and> worker_errors env w (pkt, ts, now) = Some err \<and>
    parser_flow_update (we_hash env) (wk_ft w) l ts now = Some (ft, r) \<and>
    (case ur_status r of
       REASSEMBLY_READY \<Rightarrow> \<exists>a s st. out = verdict_line worker_id a s \<and>
         flow_of keys (wk_ft w1) (l2l4_key l) = Some st \<and> st_verdict_cached st \<and> st_cached_action st = a \<and>
         (err = [] \<and> (a = ACTION_DROP \<longleftrightarrow> drop_rule matches (typed_lines lines (l2l4_type l)) s) \<or>
          a = ACTION_FORWARD \<and> (\<exists>code. err = scan_failed_line code))
     | REASSEMBLY_NO_SNI \<Rightarrow> out = no_sni_line worker_id \<and> err = []
     | _ \<Rightarrow> out = [] \<and> err = [])"
  by (rule packet_streams [OF assms, of ts now worker_id, unfolded verdict_told_def]) (intro exI conjI; assumption)

text \<open>A request for a blocked host, scanned by an engine that fails: forwarded, logged and reported.\<close>

theorem verdict_lines_true_witness:
  "\<exists>(env :: (slot_hash, literal_db, unit) worker_env) w1 s st code. let
       pkt = demo_frame 0 80 233 (ascii ''GET / HTTP/1.1'' @ crlf @ ascii ''Host: malware.com'' @ crlf)
     in worker_packet env demo_worker (pkt, 5, 6) = Some w1 \<and>
       worker_output env 3 demo_worker (pkt, 5, 6) = Some (verdict_line 3 ACTION_FORWARD s) \<and>
       worker_errors env demo_worker (pkt, 5, 6) = Some (scan_failed_line code) \<and>
       flow_of slot_keys (wk_ft w1) (frame_key 0 80) = Some st \<and> st_cached_action st = ACTION_FORWARD"
proof -
  define bs where "bs = ascii ''GET / HTTP/1.1'' @ crlf @ ascii ''Host: malware.com'' @ crlf"
  let ?pkt = "demo_frame 0 80 233 bs" and ?l = "demo_cut 0 80 TRAFFIC_HTTP bs 0 (length bs)"
  have ok: "request_ok (ascii ''GET '') (ascii ''/'') (ascii ''HTTP/1.1'') []
      (ascii ''Host:'') (ascii ''malware.com'')"
    by (simp add: request_ok_def line_ok_def http_methods_def ascii_def)
  have req: "bs = request_head (ascii ''GET '') (ascii ''/'') (ascii ''HTTP/1.1'') [] @
      host_line (ascii ''Host:'') 1 (ascii ''malware.com'')"
    by (simp add: bs_def request_head_def host_line_def ascii_def)
  have len: "length bs = 35" by (simp add: bs_def ascii_def crlf_def)
  obtain url where set: "settles TRAFFIC_HTTP bs url" using http_settles [OF ok req] len by simp
  have ready: "scan_request TRAFFIC_HTTP bs = (REASSEMBLY_READY, Some url)"
    using set len unfolding settles_def by (metis append_Nil2 le_refl)
  have port: "classify_port (be16 0 80) = Some TRAFFIC_HTTP" by (simp add: classify_port_def be16_def)
  have l: "parser_parse_l2_l4 ?pkt = Some (Some ?l)" "mbuf_ok ?pkt"
    using demo_frame_parses [OF port, of 233 0 bs "length bs" bs] demo_frame_ok len by (simp_all add: be32_def)
  obtain e where e: "loaded_env \<lparr>we_hash = slot_ops, we_hs = failing_hs, we_engine = e, we_scratch = Some (), we_lcore = 1\<rparr>
    literal_matches (\<lambda>s d. True) [demo_rule]" "db (db_for e TRAFFIC_HTTP) \<noteq> None"
    by (rule failing_env)
  define env where "env = \<lparr>we_hash = slot_ops, we_hs = failing_hs, we_engine = e, we_scratch = Some (), we_lcore = 1\<rparr>"
  have env: "we_hash env = slot_ops" "we_lcore env = 1" by (simp_all add: env_def)
  note d = demo_facts_env [OF env]
  have room: "length (wk_fwd demo_worker) < BURST_SIZE" by (simp add: demo_worker_def)
  have seg: "seg_ok ?l" using parsed_ok(1) [OF l] by (simp add: l2l4_ok_def)
  have pl: "l2l4_payload ?l = bs" by (simp add: demo_cut_def cut_segment_def demo_segment_def)
  obtain st r' where u: "flow_state_update (new_flow (l2l4_type ?l)) ?l 6 = Some (st, r')"
    using flow_state_update_spec [OF new_flow_facts(1) seg] by blast
  have "answer r' = (REASSEMBLY_READY, Some url)"
    using first_segment_answer [OF seg _ _ u, unfolded pl] len ready by (cases bs) simp_all
  then have r: "ur_status r' = REASSEMBLY_READY" by (simp add: answer_def)
  obtain ft where ft: "parser_flow_update (we_hash env) (wk_ft demo_worker) ?l 5 6 = Some (ft, r')"
    using empty_table_update [OF u, of 100 5] env(1) by (auto simp: demo_worker_def)
  obtain w1 out err a s st where v: "worker_packet env demo_worker (?pkt, 5, 6) = Some w1"
    "worker_output env 3 demo_worker (?pkt, 5, 6) = Some out" "worker_errors env demo_worker (?pkt, 5, 6) = Some err"
    "out = verdict_line 3 a s" "flow_of slot_keys (wk_ft w1) (l2l4_key ?l) = Some st" "st_cached_action st = a"
    "err = [] \<or> a = ACTION_FORWARD \<and> (\<exists>code. err = scan_failed_line code)"
    using verdict_lines_true [OF d(1) e(1) [folded env_def] d(2) l(2) room l(1), of 5 6 3] ft r by fastforce
  then obtain buf len where "ur_out r' = Some (buf, len)"
    "err = scan_message failing_hs e (Some ()) TRAFFIC_HTTP (take len buf)"
    using ft l(1) r by (auto simp: worker_errors_def env_def split: Option.bind_splits)
  moreover have "scan_failed failing_hs e (Some ()) TRAFFIC_HTTP x" for x
    using e(2) by (auto simp: scan_failed_def failing_hs_def)
  ultimately have "err \<noteq> []"
    using scan_message_iff [OF e(1), of TRAFFIC_HTTP "take len buf"] by (auto simp: scan_failed_line_def)
  moreover have "l2l4_key ?l = frame_key 0 80" by (simp add: demo_cut_def)
  ultimately show ?thesis
    unfolding Let_def bs_def [symmetric] using v by metis
qed

end
