(* ===== verification/Rule_Log.thy ===== *)
theory Rule_Log
  imports Console
begin

text \<open>
  What loading the rules prints (\<open>dpi_engine_load_rules\<close> and \<open>compile_db\<close> of \<open>src/dpi_engine.c\<close>): one
  message per malformed line on the error stream and a summary on the output. Shown: every line of a
  rule file is accounted for, it is loaded, reported, or blank or a comment.
\<close>

section \<open>Model\<close>

text \<open>
  What the line reads after \<open>parse_line\<close> has worked on it in place: \<open>strtok_r\<close> has put a NUL at the end
  of the first token, and, when all three tokens are there, \<open>trim\<close> has cut its end.
\<close>

definition parse_line_left :: "byte list \<Rightarrow> byte list" where
  "parse_line_left line =
     (let (type_s, save) = c_strtok line;
          (pattern_s, save) = c_strtok save;
          (action_s, save) = c_strtok save
      in takeWhile (\<lambda>b. b = 44) line @
         (case type_s of
            None \<Rightarrow> []
          | Some tok \<Rightarrow>
              if pattern_s = None \<or> action_s = None then tok
              else takeWhile (\<lambda>b. is_blank b) tok @ trim tok))"

definition malformed_line :: "byte list \<Rightarrow> byte list" where
  "malformed_line l =
     ascii ''dpi_engine: skipping malformed rule line: '' @ parse_line_left l @ nl"

text \<open>The messages of the reading loop; \<open>n\<close> counts the lines kept and \<open>cap\<close> is the array's size.\<close>

function read_messages :: "(nat \<Rightarrow> bool) \<Rightarrow> nat \<Rightarrow> nat \<Rightarrow> byte list \<Rightarrow> byte list list" where
  "read_messages realloc_ok cap n content =
     (case c_fgets content of
        None \<Rightarrow> []
      | Some (linebuf, rest) \<Rightarrow>
          let l = trim linebuf in
          if l = [] \<or> hd l = 35 then read_messages realloc_ok cap n rest
          else
            let cap' = (if n = cap then (if cap \<noteq> 0 then cap * 2 else 16) else cap) in
            if n = cap \<and> \<not> realloc_ok cap' then []
            else case parse_line l of
                   Some r \<Rightarrow> read_messages realloc_ok cap' (Suc n) rest
                 | None \<Rightarrow> malformed_line l # read_messages realloc_ok cap' n rest)"
  by pat_completeness auto
termination
  by (relation "measure (\<lambda>(ok, cap, n, content). length content)") (auto dest: c_fgets_shorter)

declare read_messages.simps [simp del]

text \<open>The message of a failed compilation; \<open>err\<close> is Hyperscan's text, if it gives one.\<close>

definition compile_message ::
  "('d, 's) hs_ops \<Rightarrow> bool \<Rightarrow> rule_line list \<Rightarrow> traffic_type \<Rightarrow> byte list option \<Rightarrow> byte list" where
  "compile_message hs calloc_ok lines type err =
     (let ls = typed_lines lines type in
      if length ls \<noteq> 0 \<and> calloc_ok \<and> hs_compile_multi hs (compile_exprs ls) = None
      then ascii ''dpi_engine: hs_compile_multi failed: '' @
        (case err of Some m \<Rightarrow> m | None \<Rightarrow> ascii ''unknown error'') @ nl
      else [])"

definition loaded_line :: "nat \<Rightarrow> nat \<Rightarrow> byte list \<Rightarrow> byte list" where
  "loaded_line n_http n_https path =
     ascii ''dpi_engine: loaded '' @ fmt_u n_http @ ascii '' HTTP rule(s), '' @ fmt_u n_https @
     ascii '' HTTPS rule(s) from '' @ path @ nl"

text \<open>Output and error stream of \<open>dpi_engine_load_rules(path)\<close>.\<close>

definition load_output ::
  "('d, 's) hs_ops \<Rightarrow> (nat \<Rightarrow> bool) \<Rightarrow> bool \<Rightarrow> bool \<Rightarrow> byte list \<Rightarrow> byte list option \<Rightarrow> byte list option \<Rightarrow>
   'd dpi_engine \<Rightarrow> byte list \<times> byte list" where
  "load_output hs realloc_ok calloc_http calloc_https path err file e =
     (case file of
        None \<Rightarrow> ([], ascii ''dpi_engine: cannot open '' @ path @ nl)
      | Some content \<Rightarrow>
          let messages = concat (read_messages realloc_ok 0 0 content) in
          (case read_rules realloc_ok 0 [] content of
             None \<Rightarrow> ([], messages)
           | Some lines \<Rightarrow>
               let (ok_http, http) = compile_db hs calloc_http lines TRAFFIC_HTTP (g_http_db e);
                   messages = messages @ compile_message hs calloc_http lines TRAFFIC_HTTP err
               in if \<not> ok_http then ([], messages)
                  else
                    let (ok_https, https) = compile_db hs calloc_https lines TRAFFIC_HTTPS (g_https_db e);
                        messages = messages @ compile_message hs calloc_https lines TRAFFIC_HTTPS err
                    in if \<not> ok_https then ([], messages)
                       else (loaded_line (nrules http) (nrules https) path, messages)))"

section \<open>Every rule line is loaded or reported\<close>

text \<open>The lines of a file that are neither blank nor comments.\<close>

function rule_texts :: "byte list \<Rightarrow> byte list list" where
  "rule_texts content =
     (case c_fgets content of
        None \<Rightarrow> []
      | Some (linebuf, rest) \<Rightarrow>
          let l = trim linebuf in
          if l = [] \<or> hd l = 35 then rule_texts rest else l # rule_texts rest)"
  by pat_completeness auto
termination
  by (relation "measure length") (auto dest: c_fgets_shorter)

declare rule_texts.simps [simp del]

definition malformed :: "byte list \<Rightarrow> byte list list" where
  "malformed content = filter (\<lambda>l. parse_line l = None) (rule_texts content)"

lemma read_rules_texts:
  assumes "read_rules realloc_ok cap lines content = Some rs"
  shows "rs = lines @ List.map_filter parse_line (rule_texts content) \<and>
    read_messages realloc_ok cap (length lines) content = map malformed_line (malformed content)"
  using assms
proof (induction realloc_ok cap lines content rule: read_rules.induct)
  case (1 realloc_ok cap lines content)
  show ?case
  proof (cases "c_fgets content")
    case None
    then show ?thesis
      using 1(4) by (simp add: read_rules.simps [of _ _ _ content] read_messages.simps [of _ _ _ content]
          rule_texts.simps [of content] malformed_def map_filter_simps)
  next
    case (Some p)
    obtain linebuf rest where p: "p = (linebuf, rest)" by (cases p)
    note unf = read_rules.simps [of _ _ _ content] read_messages.simps [of _ _ _ content]
      rule_texts.simps [of content]
    show ?thesis
    proof (cases "trim linebuf = [] \<or> hd (trim linebuf) = 35")
      case True
      then show ?thesis using 1(1) [OF Some p [symmetric] refl True] 1(4) Some p by (simp add: unf malformed_def Let_def)
    next
      case False
      show ?thesis
        using 1(2,3) [OF Some p [symmetric] refl False refl] 1(4) Some p False
        by (auto simp: unf malformed_def Let_def map_filter_simps split: if_splits option.splits)
    qed
  qed
qed

lemma typed_lines_split:
  "\<forall>r \<in> set rs. rule_type r \<in> {TRAFFIC_HTTP, TRAFFIC_HTTPS} \<Longrightarrow>
   length (typed_lines rs TRAFFIC_HTTP) + length (typed_lines rs TRAFFIC_HTTPS) = length rs"
  by (induction rs) (auto simp: typed_lines_def)

lemma parsed_and_malformed:
  "length (List.map_filter parse_line ls) + length (filter (\<lambda>l. parse_line l = None) ls) = length ls"
  by (induction ls) (auto simp: map_filter_simps split: option.split)

lemma compile_db_nrules:
  "compile_db hs c lines type out = (True, d) \<Longrightarrow>
   nrules d = length (typed_lines lines type) \<and> compile_message hs c lines type err = []"
  by (auto simp: compile_db_def compile_message_def Let_def split: if_splits option.splits)

text \<open>The report of a malformed line shows nothing from its first comma on.\<close>

lemma trim_end_prefix: "prefix (trim_end s) s"
proof (induction s rule: trim_end.induct)
  case (1 s)
  then show ?case
    by (subst trim_end.simps) (auto intro: prefix_order.trans prefixeq_butlast)
qed

lemma blank_trim_prefix: "prefix (takeWhile (\<lambda>b. is_blank b) s @ trim s) s"
proof -
  have "prefix (trim s) (dropWhile (\<lambda>b. is_blank b) s)"
    using trim_end_prefix [of "dropWhile (\<lambda>b. is_blank b) s"] by (simp add: trim_def Let_def)
  then have "prefix (takeWhile (\<lambda>b. is_blank b) s @ trim s)
      (takeWhile (\<lambda>b. is_blank b) s @ dropWhile (\<lambda>b. is_blank b) s)"
    by (simp only: same_prefix_prefix)
  then show ?thesis by (simp only: takeWhile_dropWhile_id)
qed

lemma message_hides_pattern:
  assumes "t \<noteq> []" "44 \<notin> set t"
  shows "prefix (parse_line_left (t @ 44 # rest)) t"
proof -
  have "takeWhile (\<lambda>b. b = 44) (t @ 44 # rest) = []" using assms by (cases t) auto
  then show ?thesis
    using c_strtok_field(1) [OF assms, of rest] blank_trim_prefix [of t]
    by (auto simp: parse_line_left_def Let_def split: prod.splits)
qed

text \<open>
  C36: every rule line is accounted for. After a successful load the summary gives the numbers of HTTP
  and HTTPS rules in force, the error stream has exactly one message for each line that is not a rule,
  in the order of the file, and the three numbers add up to the number of lines that are neither
  blank nor comments.
\<close>

theorem rule_lines_loaded_or_reported:
  assumes "dpi_engine_load_rules hs realloc_ok calloc_http calloc_https (Some content) e = (True, e')"
  shows "load_output hs realloc_ok calloc_http calloc_https path err (Some content) e =
      (loaded_line (nrules (g_http_db e')) (nrules (g_https_db e')) path,
       concat (map malformed_line (malformed content))) \<and>
    nrules (g_http_db e') + nrules (g_https_db e') + length (malformed content) =
      length (rule_texts content)"
proof -
  obtain rs where rs: "read_rules realloc_ok 0 [] content = Some rs"
    using assms by (cases "read_rules realloc_ok 0 [] content") (auto simp: dpi_engine_load_rules_def)
  note t = read_rules_texts [OF rs]
  obtain http https where c: "compile_db hs calloc_http rs TRAFFIC_HTTP (g_http_db e) = (True, http)"
    "compile_db hs calloc_https rs TRAFFIC_HTTPS (g_https_db e) = (True, https)"
    "g_http_db e' = http" "g_https_db e' = https"
    using assms rs by (auto simp: dpi_engine_load_rules_def Let_def split: prod.splits if_splits)
  note n = compile_db_nrules [OF c(1), of err] compile_db_nrules [OF c(2), of err]
  have "\<forall>r \<in> set rs. rule_type r \<in> {TRAFFIC_HTTP, TRAFFIC_HTTPS}"
    using t parse_line_type by (auto simp: List.map_filter_def)
  then have "nrules http + nrules https = length rs" using typed_lines_split n by simp
  then have "nrules http + nrules https + length (malformed content) = length (rule_texts content)"
    using t parsed_and_malformed [of "rule_texts content"] by (simp add: malformed_def)
  then show ?thesis using rs t c n by (simp add: load_output_def Let_def)
qed

text \<open>A rule, a line without an action and a comment: the message shows the first field only.\<close>

theorem rule_lines_loaded_or_reported_witness:
  "\<exists>e. dpi_engine_load_rules literal_hs (\<lambda>c. True) True True
       (Some (ascii ''HTTP,x,DROP'' @ [10] @ ascii ''HTTPS,y'' @ [10] @ ascii ''# z'' @ [10])) zero_engine = (True, e) \<and>
     load_output literal_hs (\<lambda>c. True) True True (ascii ''f'') None
       (Some (ascii ''HTTP,x,DROP'' @ [10] @ ascii ''HTTPS,y'' @ [10] @ ascii ''# z'' @ [10])) zero_engine =
       (ascii ''dpi_engine: loaded 1 HTTP rule(s), 0 HTTPS rule(s) from f'' @ [10],
        ascii ''dpi_engine: skipping malformed rule line: HTTPS'' @ [10])"
proof -
  let ?f = "ascii ''HTTP,x,DROP'' @ [10] @ ascii ''HTTPS,y'' @ [10] @ ascii ''# z'' @ [10]"
  note ev = c_fgets_def line_len_def trim_def trim_end.simps parse_line_def c_strtok_def c_strcasecmp_eq_def
    c_tolower_def ascii_def
  have r: "read_rules (\<lambda>c. True) 0 [] ?f =
      Some [\<lparr>rule_type = TRAFFIC_HTTP, rule_pattern = ascii ''x'', rule_action = ACTION_DROP\<rparr>]"
    by (simp add: read_rules.simps ev)
  have m: "malformed ?f = [ascii ''HTTPS,y'']" by (simp add: malformed_def rule_texts.simps ev)
  obtain e where e: "dpi_engine_load_rules literal_hs (\<lambda>c. True) True True (Some ?f) zero_engine = (True, e)"
    "nrules (g_http_db e) = 1" "nrules (g_https_db e) = 0"
    using r by (auto simp: dpi_engine_load_rules_def compile_db_def typed_lines_def literal_hs_def Let_def)
  show ?thesis
    using rule_lines_loaded_or_reported [OF e(1), of "ascii ''f''" None] e m
    by (auto simp: loaded_line_def malformed_line_def parse_line_left_def ev dec_digit)
qed

end
