(* ===== verification/Threads.thy ===== *)
theory Threads
  imports Engine_Log Rule_Log Pipeline
begin

text \<open>
  The thread functions as a whole (\<open>rx_thread_main\<close>, \<open>worker_thread_main\<close>, \<open>tx_thread_main\<close> of
  \<open>src/main.c\<close>, \<open>stats_thread_main\<close> of \<open>src/stats.c\<close>): prologue, loop, epilogue and what they print, and
  the messages of \<open>main\<close>. The loops end when \<open>force_quit\<close> is seen, so a run of a thread is given by the
  list of its iterations; each comes with the shared rings and tables as the thread finds them.

  Shown: a worker thread returns for every sequence of iterations and every failure of an allocation,
  gives back everything it allocated, and its exit code and its console say which way it went; the
  other threads return as well.
\<close>

section \<open>Messages of main\<close>

definition signal_line :: "int \<Rightarrow> byte list" where
  "signal_line signum =
     (if signum = SIGINT \<or> signum = SIGTERM
      then nl @ ascii ''[Main] signal '' @ fmt_d signum @ ascii '' received, shutting down...'' @ nl
      else [])"

definition running_line :: "nat \<Rightarrow> byte list" where
  "running_line n_workers =
     ascii ''[Main] HyperDPI running with '' @ fmt_u n_workers @
     ascii '' worker(s). Press Ctrl+C to stop.'' @ nl"

definition usage :: "byte list \<Rightarrow> byte list" where
  "usage prgname =
     ascii ''Usage: '' @ prgname @
     ascii '' [EAL options] -- [-p patterns_file] [-w num_workers(2-'' @ fmt_u MAX_WORKERS @
     ascii '')] [-B] [-M nb_mbufs]'' @ nl @
     ascii ''  -B  disable load-aware bucket rebalancing (keeps bucket-based steering);'' @ nl @
     ascii ''      useful for capturing a '' @ [34] @ ascii ''before'' @ [34] @ ascii '' baseline'' @ nl @
     ascii ''  -M  override the mbuf pool size (default: sized from ring sizes; named -M,'' @ nl @
     ascii ''      not -m, to avoid confusion with EAL'' @ [39] @ ascii ''s own -m memory-size flag). The'' @ nl @
     ascii ''      net_pcap PMD'' @ [39] @ ascii ''s infinite_rx=1 mode requires nb_mbufs >= the number of'' @ nl @
     ascii ''      packets in the pcap file, so this is needed for infinite_rx runs'' @ nl @
     ascii ''      against large fixtures'' @ nl"

text \<open>
  The texts given to \<open>rte_exit\<close>, with the usage in front where it is printed; \<open>strerror\<close> is DPDK's text
  for the last error.
\<close>

fun exit_text :: "options \<Rightarrow> byte list \<Rightarrow> nat \<Rightarrow> byte list \<Rightarrow> main_error \<Rightarrow> byte list" where
  "exit_text opts prgname lcore_count strerror EAL_INIT_FAILED = ascii ''EAL init failed'' @ nl"
| "exit_text opts prgname lcore_count strerror BAD_MBUF_COUNT = ascii ''-M must be a positive mbuf count'' @ nl"
| "exit_text opts prgname lcore_count strerror INVALID_ARGUMENTS =
     usage prgname @ ascii ''invalid arguments'' @ nl"
| "exit_text opts prgname lcore_count strerror BAD_NUM_WORKERS =
     ascii ''num_workers must be between 2 and '' @ fmt_u MAX_WORKERS @ nl"
| "exit_text opts prgname lcore_count strerror RULES_NOT_LOADED =
     ascii ''failed to load DPI rules from '' @ patterns_file opts @ nl"
| "exit_text opts prgname lcore_count strerror NO_PORTS =
     ascii ''no ethernet ports available -- pass --vdev=net_pcap0,rx_pcap=...'' @ nl"
| "exit_text opts prgname lcore_count strerror NOT_ENOUGH_LCORES =
     ascii ''need '' @ fmt_u (unat (1 + num_workers opts + 1 + 1)) @
     ascii '' worker lcores plus the main lcore (pass -l/-c EAL args); have '' @ fmt_u lcore_count @ nl"
| "exit_text opts prgname lcore_count strerror NO_MBUF_POOL =
     ascii ''failed to create mbuf pool: '' @ strerror @ nl"
| "exit_text opts prgname lcore_count strerror DEV_CONFIGURE_FAILED = ascii ''rte_eth_dev_configure failed'' @ nl"
| "exit_text opts prgname lcore_count strerror RX_QUEUE_FAILED = ascii ''rte_eth_rx_queue_setup failed'' @ nl"
| "exit_text opts prgname lcore_count strerror TX_QUEUE_FAILED = ascii ''rte_eth_tx_queue_setup failed'' @ nl"
| "exit_text opts prgname lcore_count strerror DEV_START_FAILED = ascii ''rte_eth_dev_start failed'' @ nl"
| "exit_text opts prgname lcore_count strerror (WORKER_RING_FAILED i) =
     ascii ''failed to create worker_ring_'' @ fmt_u i @ nl"
| "exit_text opts prgname lcore_count strerror TX_RING_FAILED = ascii ''failed to create tx_ring'' @ nl"

section \<open>The RX and TX threads\<close>

definition started_line :: "byte list \<Rightarrow> nat \<Rightarrow> byte list" where
  "started_line who lcore = who @ ascii '' started on lcore '' @ fmt_u lcore @ nl"

definition exiting_line :: "byte list \<Rightarrow> nat \<Rightarrow> byte list" where
  "exiting_line who lcore = who @ ascii '' exiting on lcore '' @ fmt_u lcore @ nl"

text \<open>
  An iteration finds the worker rings and the bucket table, receives a burst and reads the clock. The
  result has the counters, the packets freed and the console.
\<close>

definition rx_thread_main ::
  "(flow_key \<Rightarrow> u32) \<Rightarrow> 'r ring_ops \<Rightarrow> nat \<Rightarrow> nat \<Rightarrow> stats_table \<Rightarrow>
   ('r list \<times> bucket_table \<times> rte_mbuf list \<times> u64) list \<Rightarrow>
   (stats_table \<times> rte_mbuf list \<times> byte list) option" where
  "rx_thread_main rte_jhash R lcore_id n t inputs = do {
     (t, freed) \<leftarrow> fold_opt (\<lambda>(t, freed) (rings, bt, bufs, now). do {
          (bt, s) \<leftarrow> rx_iteration rte_jhash R lcore_id n bufs now bt
                      \<lparr>ro_rings = rings, ro_stats = t, ro_freed = freed\<rparr>;
          Some (ro_stats s, ro_freed s) }) (t, []) inputs;
     Some (t, freed, started_line (ascii ''[RX]'') lcore_id @ exiting_line (ascii ''[RX]'') lcore_id) }"

definition tx_thread_main ::
  "'r ring_ops \<Rightarrow> nat \<Rightarrow> stats_table \<Rightarrow> ('r \<times> (rte_mbuf list \<Rightarrow> nat)) list \<Rightarrow>
   (stats_table \<times> rte_mbuf list \<times> rte_mbuf list \<times> byte list) option" where
  "tx_thread_main R lcore_id t inputs = do {
     (t, wire, freed) \<leftarrow> fold_opt (\<lambda>(t, wire, freed) (tx_ring, nic_tx). do {
          (tx_ring, t, wire, freed) \<leftarrow> tx_iteration R nic_tx lcore_id tx_ring t wire freed;
          Some (t, wire, freed) }) (t, [], []) inputs;
     Some (t, wire, freed, started_line (ascii ''[TX]'') lcore_id @ exiting_line (ascii ''[TX]'') lcore_id) }"

section \<open>The statistics thread\<close>

text \<open>
  The rounds: the readings of \<open>force_quit\<close> during the wait, the counters, the bucket table, the
  uninitialised arrays and the clock. A wait that sees the flag leaves the loop.
\<close>

fun stats_rounds ::
  "(real \<Rightarrow> real) \<Rightarrow> stats_thread_args \<Rightarrow> nat list \<Rightarrow> u64 \<Rightarrow> stats_loop \<Rightarrow>
   ((nat \<Rightarrow> bool) \<times> stats_table \<times> bucket_table \<times> real list \<times> nat list \<times> u64) list \<Rightarrow> byte list option" where
  "stats_rounds rnd a lcores hz sl [] = Some []"
| "stats_rounds rnd a lcores hz sl ((quit, t, bt, uninit_pps, uninit_counts, now) # rounds) =
     (if snd (stats_wait quit) then Some []
      else do {
        (sl, bt, r) \<leftarrow> stats_tick rnd a lcores hz uninit_pps uninit_counts t sl bt now;
        out \<leftarrow> stats_report (sa_num_workers a) r;
        rest \<leftarrow> stats_rounds rnd a lcores hz sl rounds;
        Some (out @ rest) })"

definition stats_thread_main ::
  "(real \<Rightarrow> real) \<Rightarrow> stats_thread_args \<Rightarrow> nat \<Rightarrow> nat list \<Rightarrow> u64 \<Rightarrow> stats_table \<Rightarrow> u64 list \<Rightarrow> u64 \<Rightarrow>
   ((nat \<Rightarrow> bool) \<times> stats_table \<times> bucket_table \<times> real list \<times> nat list \<times> u64) list \<Rightarrow> byte list option" where
  "stats_thread_main rnd a lcore_id lcores hz t uninit now rounds = do {
     sl \<leftarrow> stats_thread_start a lcores t uninit now;
     out \<leftarrow> stats_rounds rnd a lcores hz sl rounds;
     Some (started_line (ascii ''[Stats] thread'') lcore_id @ out @
       exiting_line (ascii ''[Stats] thread'') lcore_id) }"

section \<open>A worker thread\<close>

text \<open>What a burst prints on the stream \<open>print\<close>: the output or the error stream of its packets.\<close>

fun worker_outputs ::
  "('h worker_state \<Rightarrow> rte_mbuf \<times> u64 \<times> u64 \<Rightarrow> byte list option) \<Rightarrow> ('h, 'd, 's) worker_env \<Rightarrow>
   'h worker_state \<Rightarrow> (rte_mbuf \<times> u64 \<times> u64) list \<Rightarrow> byte list option" where
  "worker_outputs print env w [] = Some []"
| "worker_outputs print env w (p # ps) = do {
     out \<leftarrow> print w p;
     w \<leftarrow> worker_packet env w p;
     outs \<leftarrow> worker_outputs print env w ps;
     Some (out @ outs) }"

definition worker_iteration_output ::
  "('h worker_state \<Rightarrow> rte_mbuf \<times> u64 \<times> u64 \<Rightarrow> byte list option) \<Rightarrow> ('h, 'd, 's) worker_env \<Rightarrow>
   'r ring_ops \<Rightarrow> 'h worker_state \<Rightarrow> 'r \<Rightarrow> (nat \<Rightarrow> u64 \<times> u64) \<Rightarrow> byte list option" where
  "worker_iteration_output print env R w in_ring clock =
     (case ring_dequeue_burst R in_ring BURST_SIZE of (in_ring, bufs) \<Rightarrow>
        if length bufs = 0 then Some []
        else worker_outputs print env (w\<lparr>wk_fwd := []\<rparr>) (zip bufs (map clock [0..<length bufs])))"

text \<open>
  The loop: each iteration finds the two rings and has the clock readings of its burst. The result has
  the state, the output and the error stream.
\<close>

fun worker_loop ::
  "('h, 'd, 's) worker_env \<Rightarrow> 'r ring_ops \<Rightarrow> nat \<Rightarrow> 'h worker_state \<Rightarrow>
   ('r \<times> 'r \<times> (nat \<Rightarrow> u64 \<times> u64)) list \<Rightarrow> ('h worker_state \<times> byte list \<times> byte list) option" where
  "worker_loop env R worker_id w [] = Some (w, [], [])"
| "worker_loop env R worker_id w ((in_ring, tx_ring, clock) # inputs) = do {
     out \<leftarrow> worker_iteration_output (worker_output env worker_id) env R w in_ring clock;
     err \<leftarrow> worker_iteration_output (worker_errors env) env R w in_ring clock;
     (w, in_ring, tx_ring) \<leftarrow> worker_iteration env R w in_ring tx_ring clock;
     (w, outs, errs) \<leftarrow> worker_loop env R worker_id w inputs;
     Some (w, out @ outs, err @ errs) }"

text \<open>What is left when the thread has returned.\<close>

record worker_exit =
  wx_ret :: int
  wx_tables :: "table_object list"
  wx_scratch_live :: nat
  wx_out :: "byte list"
  wx_err :: "byte list"

definition worker_name :: "nat \<Rightarrow> byte list" where
  "worker_name worker_id = ascii ''[Worker '' @ fmt_u worker_id @ ascii '']''"

definition worker_thread_main ::
  "('d, 's) hs_ops \<Rightarrow> 'd dpi_engine \<Rightarrow> 'h rte_hash_ops \<Rightarrow> 'r ring_ops \<Rightarrow> bool \<Rightarrow> (byte list \<Rightarrow> 'h option) \<Rightarrow>
   bool \<Rightarrow> u32 \<Rightarrow> u64 \<Rightarrow> nat \<Rightarrow> nat \<Rightarrow> stats_table \<Rightarrow> ('r \<times> 'r \<times> (nat \<Rightarrow> u64 \<times> u64)) list \<Rightarrow>
   worker_exit option" where
  "worker_thread_main hs e H R zmalloc_table hash_create zmalloc_states table_seq timeout worker_id
       lcore_id t inputs =
     (case worker_thread_start hs e zmalloc_table hash_create zmalloc_states table_seq timeout of
        (table_seq, live, live_scratch, None) \<Rightarrow>
          Some \<lparr>wx_ret = -1, wx_tables = live, wx_scratch_live = length live_scratch, wx_out = [],
            wx_err = (case dpi_engine_alloc_scratch hs e of
                Inl failure \<Rightarrow> alloc_scratch_message (Inl failure) @ worker_name worker_id @
                  ascii '' failed to allocate Hyperscan scratch'' @ nl
              | Inr scratch \<Rightarrow> worker_name worker_id @ ascii '' failed to create flow table'' @ nl)\<rparr>
      | (table_seq, live, live_scratch, Some (scratch, ft)) \<Rightarrow> do {
          (w, out, err) \<leftarrow> worker_loop \<lparr>we_hash = H, we_hs = hs, we_engine = e, we_scratch = scratch,
                               we_lcore = lcore_id\<rparr> R worker_id
                             \<lparr>wk_ft = ft, wk_stats = t, wk_fwd = [], wk_freed = []\<rparr> inputs;
          let (live, live_scratch) = worker_thread_finish scratch (wk_ft w) live live_scratch;
          Some \<lparr>wx_ret = 0, wx_tables = live, wx_scratch_live = length live_scratch,
            wx_out = started_line (worker_name worker_id) lcore_id @ out @
              exiting_line (worker_name worker_id) lcore_id,
            wx_err = err\<rparr> })"

section \<open>The threads return\<close>

lemma worker_output_step:
  assumes "rte_hash_contract (we_hash env) ok keys slots" "scan_safe env" "worker_inv ok keys env w"
    and "mbuf_ok (fst p)" "length (wk_fwd w) < BURST_SIZE" "all_truthful env keys w" "worker_packet env w p = Some w1"
  shows "\<exists>out. worker_output env worker_id w p = Some out \<and> all_truthful env keys w1"
proof -
  obtain pkt ts now where p: "p = (pkt, ts, now)" by (metis prod_cases3)
  show ?thesis
  proof (cases "parser_parse_l2_l4 pkt = Some None")
    case True
    then show ?thesis
      using worker_packet_rejected [OF assms(3) True] output_rejected [OF True, of env worker_id w ts now] assms(6,7) p
      by (auto simp: all_truthful_def account_def)
  next
    case False
    then obtain l where l: "parser_parse_l2_l4 pkt = Some (Some l)"
      using parse_defined [of pkt] by (metis option.exhaust)
    have m: "mbuf_ok pkt" using assms(4) p by simp
    show ?thesis
      by (rule worker_output_parsed [OF assms(1-3) m assms(5,6) l, of ts now worker_id]) (use assms(7) p in auto)
  qed
qed

lemma worker_outputs_defined:
  assumes "rte_hash_contract (we_hash env) ok keys slots" "scan_safe env" "worker_inv ok keys env w"
    and "\<forall>p \<in> set ps. mbuf_ok (fst p)" "length (wk_fwd w) + length ps \<le> BURST_SIZE" "all_truthful env keys w"
  shows "\<exists>out err w'. worker_outputs (worker_output env worker_id) env w ps = Some out \<and>
    worker_outputs (worker_errors env) env w ps = Some err \<and> fold_opt (worker_packet env) w ps = Some w' \<and> all_truthful env keys w'"
  using assms(3-6)
proof (induction ps arbitrary: w)
  case (Cons p ps)
  obtain pkt ts now where p: "p = (pkt, ts, now)" by (metis prod_cases3)
  obtain w1 o1 where w1: "worker_packet env w p = Some w1" "worker_inv ok keys env w1"
    "wk_fwd w1 = wk_fwd w @ picked (\<lambda>x. \<not> was_dropped x) [pkt] [o1]"
    using worker_packet_outcome [OF assms(1) Cons.prems(1) assms(2), of pkt ts now] Cons.prems p by auto
  have "length (wk_fwd w1) + length ps \<le> 32" using w1(3) Cons.prems(3) by (auto simp: picked_def)
  moreover obtain out where "worker_output env worker_id w p = Some out" "all_truthful env keys w1"
    using worker_output_step [OF assms(1,2) Cons.prems(1) _ _ Cons.prems(4) w1(1), of worker_id] Cons.prems(2,3) by auto
  moreover obtain err where "worker_errors env w p = Some err" using worker_errors_defined calculation(2) by blast
  ultimately show ?case using Cons.IH [OF w1(2)] Cons.prems(2) w1(1) by auto
qed simp

lemma worker_flush_ft: "worker_flush env R w tx = Some (w', tx') \<Longrightarrow> wk_ft w' = wk_ft w"
  by (auto simp: worker_flush_def split: if_splits prod.splits Option.bind_splits)

lemma worker_loop_defined:
  assumes "rte_hash_contract (we_hash env) ok keys slots" "rte_ring_contract R contents" "scan_safe env"
    and "worker_inv ok keys env w" "all_truthful env keys w"
    and "\<forall>i \<in> set inputs. \<forall>p \<in> set (contents (fst i)). mbuf_ok p"
  shows "\<exists>w' out err. worker_loop env R worker_id w inputs = Some (w', out, err)"
  using assms(4-6)
proof (induction inputs arbitrary: w)
  case (Cons i inputs)
  obtain inr tx clock where i: "i = (inr, tx, clock)" by (metis prod_cases3)
  have m: "\<forall>p \<in> set (contents inr). mbuf_ok p" using Cons.prems(3) i by simp
  obtain inr' bufs where d: "ring_dequeue_burst R inr BURST_SIZE = (inr', bufs)" by (metis surj_pair)
  have b: "length bufs \<le> 32" "contents inr = bufs @ contents inr'"
    using rte_ring_contract.dequeue [OF assms(2) d] by auto
  let ?ps = "zip bufs (map clock [0..<length bufs])" and ?w = "w\<lparr>wk_fwd := []\<rparr>"
  have inv0: "worker_inv ok keys env ?w" "all_truthful env keys ?w"
    using Cons.prems(1,2) by (simp_all add: worker_inv_def all_truthful_def)
  have ps: "\<forall>p \<in> set ?ps. mbuf_ok (fst p)" "length (wk_fwd ?w) + length ?ps \<le> 32"
    using m b by (auto dest: set_zip_leftD)
  obtain out err w2 where o: "worker_outputs (worker_output env worker_id) env ?w ?ps = Some out"
    "fold_opt (worker_packet env) ?w ?ps = Some w2" "all_truthful env keys w2"
    "worker_outputs (worker_errors env) env ?w ?ps = Some err"
    using worker_outputs_defined [OF assms(1,3) inv0(1) ps inv0(2)] by blast
  obtain w1 inr1 tx1 where it: "worker_iteration env R w inr tx clock = Some (w1, inr1, tx1)"
    "worker_inv ok keys env w1"
    using worker_iteration_spec [OF assms(1-3) Cons.prems(1) m, of tx clock] by metis
  have "all_truthful env keys w1"
    using it(1) d o(2,3) Cons.prems(2) worker_flush_ft
    by (fastforce simp: worker_iteration_def all_truthful_def split: if_splits Option.bind_splits)
  moreover have "\<exists>out. worker_iteration_output (worker_output env worker_id) env R w inr clock = Some out"
    "\<exists>err. worker_iteration_output (worker_errors env) env R w inr clock = Some err"
    using d o(1,4) by (simp_all add: worker_iteration_output_def)
  ultimately show ?case using Cons.IH [OF it(2)] Cons.prems(3) it(1) i by auto
qed simp

lemma rx_thread_defined:
  assumes "rte_ring_contract R contents" "n \<le> MAX_WORKERS" "lcore_id < length t"
    and "\<forall>i \<in> set inputs. case i of (rings, bt, bufs, now) \<Rightarrow>
      n \<le> length rings \<and> buckets_inv n bt \<and> length bufs \<le> BURST_SIZE"
  shows "\<exists>t' freed. fold_opt (\<lambda>(t, freed) (rings, bt, bufs, now). do {
       (bt, s) \<leftarrow> rx_iteration j R lcore_id n bufs now bt \<lparr>ro_rings = rings, ro_stats = t, ro_freed = freed\<rparr>;
       Some (ro_stats s, ro_freed s) }) (t, freed0) inputs = Some (t', freed)"
  using assms(3,4)
proof (induction inputs arbitrary: t freed0)
  case (Cons i inputs)
  obtain rings bt bufs now where i: "i = (rings, bt, bufs, now)" by (metis prod_cases4)
  let ?s = "\<lparr>ro_rings = rings, ro_stats = t, ro_freed = freed0\<rparr>"
  have b: "n \<le> length (ro_rings ?s)" "buckets_inv n bt" "length bufs \<le> BURST_SIZE" "lcore_id < length (ro_stats ?s)"
    using Cons.prems i by simp_all
  obtain bt' s' where r: "rx_iteration j R lcore_id n bufs now bt ?s = Some (bt', s')" "length (ro_stats s') = length t"
    by (rule rx_iteration_spec [OF assms(1) b(2) assms(2) b(3,1,4), of j now]) simp
  then show ?case using Cons.IH [of "ro_stats s'" "ro_freed s'"] Cons.prems i by simp
qed simp

lemma tx_thread_defined:
  assumes "rte_ring_contract R contents" "lcore_id < length t"
    and "\<forall>i \<in> set inputs. \<forall>bufs. snd i bufs \<le> length bufs"
  shows "\<exists>t' wire freed. fold_opt (\<lambda>(t, wire, freed) (tx_ring, nic_tx). do {
       (tx_ring, t, wire, freed) \<leftarrow> tx_iteration R nic_tx lcore_id tx_ring t wire freed;
       Some (t, wire, freed) }) (t, wire0, freed0) inputs = Some (t', wire, freed)"
  using assms(2,3)
proof (induction inputs arbitrary: t wire0 freed0)
  case (Cons i inputs)
  obtain tx nic where i: "i = (tx, nic)" by (cases i)
  have nic: "\<forall>bufs. nic bufs \<le> length bufs" using Cons.prems i by simp
  obtain tx' t' bufs where r: "tx_iteration R nic lcore_id tx t wire0 freed0 =
      Some (tx', t', wire0 @ take (nic bufs) bufs, freed0 @ drop (nic bufs) bufs)" "length t' = length t"
    using tx_iteration_spec [OF assms(1) nic Cons.prems(1), of tx wire0 freed0] by (metis length_list_update)
  then show ?case using Cons.IH [of t'] Cons.prems i by simp
qed simp

lemma stats_rounds_defined:
  assumes "mono rnd" "rnd 0 = 0" "length (sl_worker_prev sl) = MAX_WORKERS"
    and "\<forall>x \<in> set rounds. case x of (quit, t, bt, up, uc, now) \<Rightarrow> args_ok a t \<and> (\<forall>l \<in> set lcores. l < length t) \<and>
      buckets_inv (sa_num_workers a) bt \<and> length up = MAX_WORKERS \<and> length uc = MAX_WORKERS"
  shows "\<exists>out. stats_rounds rnd a lcores hz sl rounds = Some out"
  using assms(3,4)
proof (induction rounds arbitrary: sl)
  case (Cons x rounds)
  obtain quit t bt up uc now where x: "x = (quit, t, bt, up, uc, now)" by (metis prod_cases6)
  have b: "args_ok a t" "\<forall>l \<in> set lcores. l < length t" "buckets_inv (sa_num_workers a) bt"
    "length up = MAX_WORKERS" "length uc = MAX_WORKERS"
    using Cons.prems(2) x by simp_all
  obtain sl' bt' r where t: "stats_tick rnd a lcores hz up uc t sl bt now = Some (sl', bt', r)"
    "length (sl_worker_prev sl') = MAX_WORKERS"
    using stats_tick_spec [OF assms(1,2) b(1,2) Cons.prems(1) b(4,5,3)] by blast
  obtain out where "stats_report (sa_num_workers a) r = Some out"
    using stats_report_numbers [OF tick_report_spec(2,3) [OF b(1) Cons.prems(1) b(4,5,3) t(1)]] by blast
  then show ?case using Cons.IH [OF t(2)] Cons.prems(2) t(1) x by auto
qed simp

lemma rx_thread_returns:
  assumes "rte_ring_contract R contents" "n \<le> MAX_WORKERS" "lcore_id < length t"
    and "\<forall>i \<in> set inputs. case i of (rings, bt, bufs, now) \<Rightarrow>
      n \<le> length rings \<and> buckets_inv n bt \<and> length bufs \<le> BURST_SIZE"
  shows "rx_thread_main rte_jhash R lcore_id n t inputs \<noteq> None"
  using rx_thread_defined [OF assms, of rte_jhash "[]"] by (auto simp: rx_thread_main_def)

lemma tx_thread_returns:
  assumes "rte_ring_contract R contents" "lcore_id < length t"
    and "\<forall>i \<in> set inputs. \<forall>bufs. snd i bufs \<le> length bufs"
  shows "tx_thread_main R lcore_id t inputs \<noteq> None"
  using tx_thread_defined [OF assms, of "[]" "[]"] by (auto simp: tx_thread_main_def)

lemma stats_thread_returns:
  assumes "mono rnd" "rnd 0 = 0" "args_ok a t" "\<forall>l \<in> set lcores. l < length t" "length uninit = MAX_WORKERS"
    and "\<forall>x \<in> set rounds. case x of (quit, t, bt, up, uc, now) \<Rightarrow> args_ok a t \<and> (\<forall>l \<in> set lcores. l < length t) \<and>
      buckets_inv (sa_num_workers a) bt \<and> length up = MAX_WORKERS \<and> length uc = MAX_WORKERS"
  shows "stats_thread_main rnd a lcore_id lcores hz t uninit now rounds \<noteq> None"
proof -
  obtain sl where sl: "stats_thread_start a lcores t uninit now = Some sl" "length (sl_worker_prev sl) = MAX_WORKERS"
    using stats_start_spec [OF assms(3-5), of now] by blast
  obtain out where "stats_rounds rnd a lcores hz sl rounds = Some out"
    using stats_rounds_defined [OF assms(1,2) sl(2) assms(6)] by blast
  with sl(1) show ?thesis by (simp add: stats_thread_main_def)
qed

section \<open>Properties\<close>

text \<open>
  C22: a worker thread returns and cleans up. Whatever allocation fails, whatever the rings hold when the
  thread looks at them and however often it does, the thread function ends without an access outside
  an array and leaves no table. It returns -1 and says why on the error stream exactly when the
  scratch region or a part of the flow table cannot be had; otherwise it returns 0 and its output
  starts with the start line and ends with the exit line. No scratch region is left, except for the
  one that Hyperscan leaves when it cannot extend it to the second database.
\<close>

theorem worker_thread_returns:
  assumes "rte_hash_contract H ok keys slots" and "rte_ring_contract R contents" and "hyperscan hs matches fits"
    and "dpi_engine_load_rules hs ro c1 c2 (Some content) zero_engine = (True, e)"
    and "\<forall>name h. hash_create name = Some h \<longrightarrow> ok h \<and> keys h = Map.empty" and "lcore_id < length t"
    and "\<forall>i \<in> set inputs. \<forall>p \<in> set (contents (fst i)). mbuf_ok p"
  shows "\<exists>x. worker_thread_main hs e H R a hash_create b seq timeout worker_id lcore_id t inputs = Some x \<and>
    wx_tables x = [] \<and>
    (case dpi_engine_alloc_scratch hs e of
       Inl (type, err, scratch) \<Rightarrow> wx_ret x = -1 \<and> wx_out x = [] \<and> wx_scratch_live x = length (live_region scratch) \<and>
         wx_err x = ascii ''dpi_engine: hs_alloc_scratch '' @
           (if type = TRAFFIC_HTTP then ascii ''(http)'' else ascii ''(https)'') @
           ascii '' failed: '' @ fmt_d (hs_code err) @ nl @
           worker_name worker_id @ ascii '' failed to allocate Hyperscan scratch'' @ nl
     | Inr scratch \<Rightarrow> wx_scratch_live x = 0 \<and>
         (if \<not> a \<or> \<not> b \<or> hash_create (ascii ''flow_hash_'' @ dec_digits (unat seq)) = None then
            wx_ret x = -1 \<and> wx_out x = [] \<and>
            wx_err x = worker_name worker_id @ ascii '' failed to create flow table'' @ nl
          else wx_ret x = 0 \<and> (\<exists>out. wx_out x = started_line (worker_name worker_id) lcore_id @ out @
            exiting_line (worker_name worker_id) lcore_id)))"
proof -
  obtain seq' live scr r where st: "worker_thread_start hs e a hash_create b seq timeout = (seq', live, scr, r)"
    by (metis prod_cases4)
  note life = worker_life_cycle [OF assms(5), where hs = hs and e = e and a = a and b = b and seq = seq
      and timeout = timeout, unfolded st]
  show ?thesis
  proof (cases r)
    case None
    then show ?thesis
      using life st by (auto simp: worker_thread_main_def alloc_scratch_message_def split: sum.splits)
  next
    case (Some p)
    obtain scratch ft where p: "r = Some (scratch, ft)" using Some by (cases p) simp
    have l: "dpi_engine_alloc_scratch hs e = Inr scratch" "table_inv ok keys ft" "flow_of keys ft = Map.empty"
      "worker_thread_finish scratch ft' live scr = ([], [])" for ft'
      using life p by (simp_all add: worker_thread_finish_def parser_flow_table_free_def)
    have made: "\<not> (\<not> a \<or> \<not> b \<or> hash_create (ascii ''flow_hash_'' @ dec_digits (unat seq)) = None)"
      using st l(1) p by (auto simp: worker_thread_start_def parser_flow_table_create_def Let_def
          split: option.splits if_splits)
    let ?env = "\<lparr>we_hash = H, we_hs = hs, we_engine = e, we_scratch = scratch, we_lcore = lcore_id\<rparr>"
    let ?w = "\<lparr>wk_ft = ft, wk_stats = t, wk_fwd = [], wk_freed = []\<rparr>"
    have con: "rte_hash_contract (we_hash ?env) ok keys slots" using assms(1) by simp
    have safe: "scan_safe ?env" by (rule loaded_scan_safe) (use assms(3,4) l(1) in simp_all)
    have inv: "worker_inv ok keys ?env ?w" "all_truthful ?env keys ?w"
      using l(2,3) assms(6) by (simp_all add: worker_inv_def all_truthful_def)
    obtain w' out err where "worker_loop ?env R worker_id ?w inputs = Some (w', out, err)"
      using worker_loop_defined [OF con assms(2) safe inv assms(7)] by blast
    then show ?thesis using st p l(1) l(4) [of "wk_ft w'"] made by (auto simp: worker_thread_main_def)
  qed
qed

text \<open>A thread that handles one burst of two packets, without rules.\<close>

theorem worker_thread_returns_witness:
  "\<exists>x. worker_thread_main literal_hs zero_engine slot_ops fifo_ops True (\<lambda>name. Some (replicate 1024 None)) True
       0 100 2 1 [zero_stats, zero_stats]
       [(\<lparr>fr_capacity = 7, fr_items = [demo_packet, short_packet]\<rparr>, \<lparr>fr_capacity = 7, fr_items = []\<rparr>, \<lambda>i. (5, 6))] =
       Some x \<and> wx_ret x = 0 \<and> wx_tables x = [] \<and> wx_scratch_live x = 0"
proof -
  let ?in = "[(\<lparr>fr_capacity = 7, fr_items = [demo_packet, short_packet]\<rparr>, \<lparr>fr_capacity = 7, fr_items = []\<rparr>,
    \<lambda>i. (5, 6 :: u64))]"
  have k: "slot_ok (replicate 1024 None) \<and> slot_keys (replicate 1024 None) = Map.empty"
    using empty_table_inv [of 0] flow_of_empty_table [of 0]
    by (simp add: table_inv_def empty_table_def flow_of_def fun_eq_iff)
  have h: "\<forall>name h. (\<lambda>name :: byte list. Some (replicate 1024 None)) name = Some h \<longrightarrow>
      slot_ok h \<and> slot_keys h = Map.empty"
    using k by simp
  have e: "dpi_engine_load_rules literal_hs (\<lambda>c. True) True True (Some []) zero_engine = (True, zero_engine)"
    by (simp add: dpi_engine_load_rules_def compile_db_def typed_lines_def zero_engine_def zero_db_def)
  have m: "\<forall>i \<in> set ?in. \<forall>p \<in> set (fr_items (fst i)). mbuf_ok p" using demo_facts(4,5) by simp
  obtain s where "dpi_engine_alloc_scratch literal_hs zero_engine = Inr s" using literal_scratch by blast
  then show ?thesis
    using worker_thread_returns [OF slot_hash.rte_hash_contract_axioms fifo.rte_ring_contract_axioms
        literal.hyperscan_axioms e h _ m, where lcore_id = 1 and t = "[zero_stats, zero_stats]" and a = True
        and b = True and seq = 0 and timeout = 100 and worker_id = 2]
    by auto
qed

end
