(* ===== verification/Program.thy ===== *)
theory Program
  imports Threads
begin

text \<open>
  The program as a whole (\<open>main\<close> of \<open>src/main.c\<close>): start-up, the launch of the threads with their
  arguments, the wait for them, and the release of what start-up acquired. What \<open>main\<close> does to the
  platform after start-up is the list of its calls, in order.

  Shown: the program exits with a message and without a thread, or it launches its threads on lcores of
  their own, connected by the rings, waits for them and releases exactly the rings it created.
\<close>

section \<open>Model\<close>

abbreviation (input) APP_PORT_ID :: u16 where "APP_PORT_ID \<equiv> 0"

record 'r rx_thread_args =
  rxa_port_id :: u16
  rxa_worker_rings :: "'r list"
  rxa_num_workers :: nat

record 'r worker_thread_args =
  wa_worker_id :: nat
  wa_in_ring :: 'r
  wa_tx_ring :: 'r
  wa_flow_timeout_cycles :: u64

record 'r tx_thread_args =
  txa_port_id :: u16
  txa_tx_ring :: 'r

text \<open>A thread function with the argument it is launched with.\<close>

datatype 'r thread_fun =
  RX_THREAD "'r rx_thread_args"
| WORKER_THREAD "'r worker_thread_args"
| TX_THREAD "'r tx_thread_args"
| STATS_THREAD stats_thread_args

datatype 'r main_call =
  Remote_launch nat "'r thread_fun"
| Mp_wait_lcore
| Eth_dev_stop u16
| Eth_dev_close u16
| Ring_free 'r
| Free_rules
| Eal_cleanup

text \<open>The loop that fills \<open>worker_args\<close> and launches the workers.\<close>

definition launch_worker ::
  "('r, 'd) launch \<Rightarrow> 'r main_call list \<Rightarrow> nat \<Rightarrow> 'r main_call list option" where
  "launch_worker l calls i = do {
     in_ring \<leftarrow> rd (la_worker_rings l) i;
     lcore \<leftarrow> rd (la_worker_lcores l) i;
     Some (calls @ [Remote_launch lcore (WORKER_THREAD \<lparr>wa_worker_id = i, wa_in_ring = in_ring,
       wa_tx_ring = la_tx_ring l, wa_flow_timeout_cycles = la_flow_timeout l\<rparr>)]) }"

definition main_launches :: "('r, 'd) launch \<Rightarrow> 'r main_call list option" where
  "main_launches l = do {
     let rx_args = \<lparr>rxa_port_id = APP_PORT_ID, rxa_worker_rings = la_worker_rings l,
                    rxa_num_workers = la_num_workers l\<rparr>;
     calls \<leftarrow> fold_opt (launch_worker l) [Remote_launch (la_rx_lcore l) (RX_THREAD rx_args)]
                [0..<la_num_workers l];
     let tx_args = \<lparr>txa_port_id = APP_PORT_ID, txa_tx_ring = la_tx_ring l\<rparr>;
     Some (calls @ [Remote_launch (la_tx_lcore l) (TX_THREAD tx_args),
       Remote_launch (la_stats_lcore l) (STATS_THREAD (la_stats_args l))]) }"

text \<open>From \<open>rte_eal_mp_wait_lcore\<close> to the end.\<close>

definition main_shutdown :: "('r, 'd) launch \<Rightarrow> 'r main_call list option" where
  "main_shutdown l = do {
     frees \<leftarrow> fold_opt (\<lambda>calls i. do { r \<leftarrow> rd (la_worker_rings l) i; Some (calls @ [Ring_free r]) })
                [] [0..<la_num_workers l];
     Some ([Mp_wait_lcore, Eth_dev_stop APP_PORT_ID, Eth_dev_close APP_PORT_ID] @ frees @
       [Ring_free (la_tx_ring l), Free_rules, Eal_cleanup]) }"

text \<open>
  What the rule loader prints, if start-up gets that far; \<open>err\<close> is Hyperscan's compile error.
\<close>

definition options_of :: "'r platform \<Rightarrow> byte list list \<Rightarrow> options option" where
  "options_of pf argv =
     (case pf_eal_init pf argv of
        None \<Rightarrow> None
      | Some argv \<Rightarrow> (case main_options default_options (getopt_all (tl argv)) of Inl e \<Rightarrow> None | Inr opts \<Rightarrow> Some opts))"

definition loader_output ::
  "('d, 's) hs_ops \<Rightarrow> 'r platform \<Rightarrow> byte list option \<Rightarrow> byte list list \<Rightarrow> byte list \<times> byte list" where
  "loader_output hs pf err argv =
     (case options_of pf argv of
        None \<Rightarrow> ([], [])
      | Some opts \<Rightarrow>
          if num_workers opts < 2 \<or> of_nat MAX_WORKERS < num_workers opts then ([], [])
          else load_output hs (pf_realloc pf) (pf_calloc_http pf) (pf_calloc_https pf) (patterns_file opts)
                 err (pf_files pf (patterns_file opts)) zero_engine)"

record 'r main_exit =
  mx_code :: int
  mx_out :: "byte list"
  mx_err :: "byte list"
  mx_calls :: "'r main_call list"

definition main_program ::
  "('d, 's) hs_ops \<Rightarrow> 'r platform \<Rightarrow> (nat \<Rightarrow> nat list) \<Rightarrow> byte list option \<Rightarrow> byte list \<Rightarrow> byte list list \<Rightarrow>
   'r main_exit option" where
  "main_program hs pf uninit err strerror argv = do {
     r \<leftarrow> main_start hs pf uninit argv;
     let (out, messages) = loader_output hs pf err argv;
     case r of
       Inl e \<Rightarrow>
         let opts = (case options_of pf argv of None \<Rightarrow> default_options | Some opts \<Rightarrow> opts);
             prgname = (case pf_eal_init pf argv of Some (p # args) \<Rightarrow> p | _ \<Rightarrow> [])
         in Some \<lparr>mx_code = 1, mx_out = out,
              mx_err = messages @ exit_text opts prgname (pf_lcore_count pf) strerror e, mx_calls = []\<rparr>
     | Inr l \<Rightarrow> do {
         launches \<leftarrow> main_launches l;
         shutdown \<leftarrow> main_shutdown l;
         Some \<lparr>mx_code = 0, mx_out = out @ running_line (la_num_workers l), mx_err = messages,
           mx_calls = launches @ shutdown\<rparr> } }"

section \<open>Facts\<close>

lemma create_rings_names:
  assumes "create_rings mk i k rings = Inr rs"
  shows "map Some rs = map Some rings @
    map (\<lambda>j. mk (ascii ''worker_ring_'' @ dec_digits j) WORKER_RING_SIZE) [i..<i + k]"
  using assms
proof (induction k arbitrary: i rings)
  case (Suc k)
  then obtain r where "mk (ascii ''worker_ring_'' @ dec_digits i) 1024 = Some r"
    "create_rings mk (Suc i) k (rings @ [r]) = Inr rs"
    by (auto split: option.splits)
  moreover have "[i..<i + Suc k] = i # [Suc i..<Suc i + k]" by (simp add: upt_conv_Cons)
  ultimately show ?case using Suc.IH [of "Suc i" "rings @ [r]"] by (simp del: upt_Suc)
qed simp

lemma launch_workers_eq:
  assumes "n \<le> length (la_worker_rings l)" "n \<le> length (la_worker_lcores l)"
  shows "fold_opt (launch_worker l) calls [0..<n] = Some (calls @ map (\<lambda>i. Remote_launch (la_worker_lcores l ! i)
    (WORKER_THREAD \<lparr>wa_worker_id = i, wa_in_ring = la_worker_rings l ! i, wa_tx_ring = la_tx_ring l,
       wa_flow_timeout_cycles = la_flow_timeout l\<rparr>)) [0..<n])"
  using assms
  by (induction n) (simp_all add: fold_opt_append launch_worker_def mem_simps)

lemma free_rings_eq:
  assumes "n \<le> length rings"
  shows "fold_opt (\<lambda>calls i. do { r \<leftarrow> rd rings i; Some (calls @ [Ring_free r]) }) calls [0..<n] =
    Some (calls @ map Ring_free (take n rings))"
  using assms
  by (induction n) (simp_all add: fold_opt_append mem_simps take_Suc_conv_app_nth)

text \<open>The launches and the releases among the calls.\<close>

definition launched :: "'r main_call list \<Rightarrow> (nat \<times> 'r thread_fun) list" where
  "launched calls = List.map_filter (\<lambda>c. case c of Remote_launch lcore f \<Rightarrow> Some (lcore, f) | _ \<Rightarrow> None) calls"

definition freed_rings :: "'r main_call list \<Rightarrow> 'r list" where
  "freed_rings calls = List.map_filter (\<lambda>c. case c of Ring_free r \<Rightarrow> Some r | _ \<Rightarrow> None) calls"

lemma launched_simps [simp]:
  "launched [] = []" "launched (Remote_launch c f # cs) = (c, f) # launched cs"
  "launched (Mp_wait_lcore # cs) = launched cs" "launched (Eth_dev_stop p # cs) = launched cs"
  "launched (Eth_dev_close p # cs) = launched cs" "launched (Ring_free r # cs) = launched cs"
  "launched (Free_rules # cs) = launched cs" "launched (Eal_cleanup # cs) = launched cs"
  "launched (cs @ ds) = launched cs @ launched ds" "launched (map Ring_free rs) = []"
  "launched (map (\<lambda>i. Remote_launch (g i) (h i)) is) = map (\<lambda>i. (g i, h i)) is"
  by (induction rs) (induction "is", simp_all add: launched_def List.map_filter_def)

lemma freed_rings_simps [simp]:
  "freed_rings [] = []" "freed_rings (Remote_launch c f # cs) = freed_rings cs"
  "freed_rings (Mp_wait_lcore # cs) = freed_rings cs" "freed_rings (Eth_dev_stop p # cs) = freed_rings cs"
  "freed_rings (Eth_dev_close p # cs) = freed_rings cs" "freed_rings (Ring_free r # cs) = r # freed_rings cs"
  "freed_rings (Free_rules # cs) = freed_rings cs" "freed_rings (Eal_cleanup # cs) = freed_rings cs"
  "freed_rings (cs @ ds) = freed_rings cs @ freed_rings ds" "freed_rings (map Ring_free rs) = rs"
  "freed_rings (map (\<lambda>i. Remote_launch (g i) (h i)) is) = []"
  by (induction rs) (induction "is", simp_all add: freed_rings_def List.map_filter_def)

lemma start_timeout:
  assumes "main_start hs pf uninit argv = Some (Inr l)"
  shows "la_flow_timeout l = pf_timer_hz pf * 3 div 2"
  using assms by (auto simp: main_start_def main_launch_def Let_def
      split: option.splits sum.splits if_splits prod.splits Option.bind_splits)

text \<open>
  The specification: the rings \<open>rings\<close> and \<open>tx\<close> that the platform created connect the threads, and they
  are what is released, after all threads have returned.
\<close>

definition wired :: "'r platform \<Rightarrow> nat \<Rightarrow> stats_thread_args \<Rightarrow> 'r main_call list \<Rightarrow> bool" where
  "wired pf n sa calls \<longleftrightarrow>
     (\<exists>rings tx. map Some (rings @ [tx]) =
          map (\<lambda>i. pf_ring_create pf (ascii ''worker_ring_'' @ dec_digits i) WORKER_RING_SIZE) [0..<n] @
          [pf_ring_create pf (ascii ''tx_ring'') TX_RING_SIZE] \<and>
        map snd (launched calls) =
          RX_THREAD \<lparr>rxa_port_id = APP_PORT_ID, rxa_worker_rings = rings, rxa_num_workers = n\<rparr> #
          map (\<lambda>i. WORKER_THREAD \<lparr>wa_worker_id = i, wa_in_ring = rings ! i, wa_tx_ring = tx,
            wa_flow_timeout_cycles = pf_timer_hz pf * 3 div 2\<rparr>) [0..<n] @
          [TX_THREAD \<lparr>txa_port_id = APP_PORT_ID, txa_tx_ring = tx\<rparr>, STATS_THREAD sa] \<and>
        freed_rings calls = rings @ [tx]) \<and>
     (\<exists>up down. calls = up @ Mp_wait_lcore # down \<and> launched down = [] \<and> freed_rings up = [])"

lemma main_calls:
  fixes l :: "('r, 'd) launch"
  assumes l: "launch_ok l" and io: "setup_io pf nb (la_num_workers l) = Inr (la_worker_rings l, la_tx_ring l)"
    and hz: "la_flow_timeout l = pf_timer_hz pf * 3 div 2"
  obtains up down where "main_launches l = Some up" "main_shutdown l = Some down"
    "map fst (launched (up @ down)) = used_lcores l" "wired pf (la_num_workers l) (la_stats_args l) (up @ down)"
proof -
  have n: "la_num_workers l \<le> length (la_worker_lcores l)" "length (la_worker_rings l) = la_num_workers l"
    using l by (simp_all add: launch_ok_def)
  have rings: "map Some (la_worker_rings l @ [la_tx_ring l]) =
      map (\<lambda>i. pf_ring_create pf (ascii ''worker_ring_'' @ dec_digits i) WORKER_RING_SIZE) [0..<la_num_workers l] @
      [pf_ring_create pf (ascii ''tx_ring'') TX_RING_SIZE]"
    using create_rings_names [of "pf_ring_create pf" 0 "la_num_workers l" "[]" "la_worker_rings l"] io
    by (auto simp: setup_io_def split: if_splits sum.splits option.splits)
  have lcores: "map ((!) (la_worker_lcores l)) [0..<la_num_workers l] = take (la_num_workers l) (la_worker_lcores l)"
    by (rule nth_equalityI) (use n(1) in simp_all)
  obtain up where up: "main_launches l = Some up" "freed_rings up = []"
    "launched up = (la_rx_lcore l, RX_THREAD \<lparr>rxa_port_id = APP_PORT_ID, rxa_worker_rings = la_worker_rings l,
         rxa_num_workers = la_num_workers l\<rparr>) #
       map (\<lambda>i. (la_worker_lcores l ! i, WORKER_THREAD \<lparr>wa_worker_id = i, wa_in_ring = la_worker_rings l ! i,
         wa_tx_ring = la_tx_ring l, wa_flow_timeout_cycles = la_flow_timeout l\<rparr>)) [0..<la_num_workers l] @
       [(la_tx_lcore l, TX_THREAD \<lparr>txa_port_id = APP_PORT_ID, txa_tx_ring = la_tx_ring l\<rparr>),
        (la_stats_lcore l, STATS_THREAD (la_stats_args l))]"
    using launch_workers_eq [of "la_num_workers l" l] n by (simp add: main_launches_def)
  obtain down where down: "main_shutdown l = Some (Mp_wait_lcore # down)" "launched down = []"
    "freed_rings down = la_worker_rings l @ [la_tx_ring l]"
    using free_rings_eq [of "la_num_workers l" "la_worker_rings l" "[]"] n by (simp add: main_shutdown_def)
  have "wired pf (la_num_workers l) (la_stats_args l) (up @ Mp_wait_lcore # down)"
    unfolding wired_def
    by (intro conjI exI [of _ "la_worker_rings l"] exI [of _ "la_tx_ring l"] exI [of _ up] exI [of _ down])
      (use rings up(2,3) down(2,3) hz in \<open>simp_all add: comp_def\<close>)
  moreover have "map fst (launched (up @ Mp_wait_lcore # down)) = used_lcores l"
    using up(3) down(2) lcores by (simp add: used_lcores_def comp_def)
  ultimately show ?thesis using that [OF up(1) down(1)] by simp
qed

section \<open>Properties\<close>

text \<open>
  C20: the program as a whole. Whatever the command line and whatever fails, \<open>main\<close> stays inside its
  arrays. If start-up fails, it exits with code 1, the last thing on the error stream is the text of
  that failure, and no thread has been launched. Otherwise it returns 0: it launches one RX thread, the
  workers, one TX and one statistics thread, each on an enabled lcore of its own, none on the main
  lcore; worker \<open>i\<close> reads the ring \<open>worker_ring_i\<close>, which is also the \<open>i\<close>-th of the RX thread's rings,
  and writes the ring the TX thread reads; rings are released only after all threads have returned,
  and they are exactly the rings that were created.
\<close>

theorem main_launches_or_exits:
  assumes "platform_ok pf" and "\<forall>k. length (uninit k) = k"
  shows "\<exists>x. main_program hs pf uninit err strerror argv = Some x \<and>
    (case main_start hs pf uninit argv of
       None \<Rightarrow> False
     | Some (Inl e) \<Rightarrow> mx_code x = 1 \<and> mx_calls x = [] \<and>
         (\<exists>prgname. suffix (exit_text (case options_of pf argv of None \<Rightarrow> default_options | Some opts \<Rightarrow> opts)
            prgname (pf_lcore_count pf) strerror e) (mx_err x))
     | Some (Inr l) \<Rightarrow> mx_code x = 0 \<and> distinct (map fst (launched (mx_calls x))) \<and>
         set (map fst (launched (mx_calls x))) \<subseteq> set (pf_worker_lcores pf) \<and>
         wired pf (la_num_workers l) (la_stats_args l) (mx_calls x))"
proof -
  obtain r where r: "main_start hs pf uninit argv = Some r" using start_spec [OF assms, of hs argv] by blast
  obtain out messages where lo: "loader_output hs pf err argv = (out, messages)" by (metis surj_pair)
  show ?thesis
  proof (cases r)
    case (Inl e)
    then show ?thesis using r lo by (auto simp: main_program_def suffix_def Let_def)
  next
    case (Inr l)
    then have l: "launch_ok l" "set (used_lcores l) \<subseteq> set (pf_worker_lcores pf)"
      "setup_io pf (la_nb_mbufs l) (la_num_workers l) = Inr (la_worker_rings l, la_tx_ring l)"
      using start_spec [OF assms, of hs argv] r by auto
    have hz: "la_flow_timeout l = pf_timer_hz pf * 3 div 2" using start_timeout [of hs pf uninit argv l] r Inr by simp
    obtain up down where c: "main_launches l = Some up" "main_shutdown l = Some down"
      "map fst (launched (up @ down)) = used_lcores l" "wired pf (la_num_workers l) (la_stats_args l) (up @ down)"
      by (rule main_calls [OF l(1,3) hz])
    then show ?thesis
      using r lo Inr l(1,2) by (simp add: main_program_def launch_ok_def del: launched_simps(9) set_map)
  qed
qed

text \<open>Two workers on a machine with seven lcores.\<close>

theorem main_launches_or_exits_witness:
  "\<exists>x. main_program literal_hs demo_platform (\<lambda>k. replicate k 0) None [] demo_args = Some x \<and> mx_code x = 0 \<and>
     (\<exists>sa. wired demo_platform 2 sa (mx_calls x))"
proof -
  obtain l where l: "main_start literal_hs demo_platform (\<lambda>k. replicate k 0) demo_args = Some (Inr l)"
    "la_num_workers l = 2" by (rule demo_launches)
  show ?thesis
    using main_launches_or_exits [OF demo_platform_ok, of "\<lambda>k. replicate k 0" literal_hs None "[]" demo_args] l by auto
qed

end
