(* ===== verification/Spec2Isabelle.thy ===== *)
theory Spec2Isabelle
  imports Headers Tls_Extract Flow_Verdicts Buckets Dpi_Engine Stats Worker_Properties Rx_Tx Startup Pipeline Blocking Moved_Flows Drop_Causes Threads Program
begin

text \<open>
  HyperDPI: a verification development of the deep-packet-inspection gateway under \<open>src/\<close>.

  \<^bold>\<open>The program.\<close> HyperDPI is a DPDK application. One RX thread takes bursts of packets from a port and
  steers each packet, by a hash of its flow and a table of 256 buckets, to one of two to four worker
  threads. A worker parses the packet down to TCP, reassembles the first bytes of the flow, extracts
  the URL of an HTTP request or the server name of a TLS ClientHello, matches it against the rules of
  a file with Hyperscan, caches the verdict for the flow, and drops or forwards the packet. One TX
  thread sends what the workers forward. A statistics thread prints totals once a second and moves
  idle buckets from the busiest to the least busy worker. Signals stop the threads.

  \<^bold>\<open>Theories and sources.\<close>
  \<^item> \<open>Prelude\<close>, \<open>C_String\<close>: bytes, checked memory accesses, loops over lists; the C string functions.
  \<^item> \<open>Hyperdpi_Types\<close>: the enums, structs and constants of \<open>include/hyperdpi.h\<close> and \<open>include/parser.h\<close>.
  \<^item> \<open>Headers\<close>: \<open>extract_headers\<close>, \<open>parser_parse_l2_l4\<close>, \<open>parser_flow_rss_hash\<close> of \<open>src/parser.c\<close>.
  \<^item> \<open>Reassembly\<close>, \<open>Reassembly_Stream\<close>: \<open>struct flow_state\<close> and the placement of a segment in
    \<open>parser_flow_update\<close>; its view as a partial stream of bytes.
  \<^item> \<open>Http_Extract\<close>, \<open>Tls_Extract\<close>: \<open>find_ci\<close>, \<open>try_extract_http\<close>, \<open>try_extract_tls_sni\<close>.
  \<^item> \<open>Flow_Table\<close>, \<open>Flow_Verdicts\<close>: \<open>struct flow_table\<close>, its creation, release and idle sweep,
    \<open>parser_flow_update\<close>, \<open>parser_flow_cache_verdict\<close>.
  \<^item> \<open>Buckets\<close>: the four \<open>parser_bucket_*\<close> functions.
  \<^item> \<open>Dpi_Rules\<close>, \<open>Dpi_Engine\<close>: all of \<open>src/dpi_engine.c\<close>.
  \<^item> \<open>Stats\<close>: \<open>include/stats.h\<close> and \<open>src/stats.c\<close>.
  \<^item> \<open>Packet_Rings\<close>: the contract of \<open>rte_ring\<close>.
  \<^item> \<open>Worker\<close>, \<open>Worker_Properties\<close>: \<open>worker_thread_main\<close> of \<open>src/main.c\<close>, one packet and one burst.
  \<^item> \<open>Rx_Tx\<close>: one iteration of \<open>rx_thread_main\<close> and of \<open>tx_thread_main\<close>.
  \<^item> \<open>Startup\<close>: \<open>main\<close>, \<open>signal_handler\<close>, the prologue and epilogue of a worker thread.
  \<^item> \<open>Pipeline\<close>: the running system as a step relation over the threads: \<open>rx_poll\<close>, \<open>worker_poll\<close>, \<open>tx_poll\<close>
    and \<open>stats_poll\<close> are the \<open>while (!force_quit)\<close> loops of the four thread functions, one turn each.
  \<^item> \<open>Isolation\<close>, \<open>Request_Verdicts\<close>, \<open>Drop_Causes\<close>, \<open>Blocking\<close>, \<open>Moved_Flows\<close>: a flow as a machine of its
    own; its verdict in one worker and what it comes from; its verdict in the running system; a flow
    whose bucket is moved. These theories have no code of their own.
  \<^item> \<open>Console\<close>, \<open>Rule_Log\<close>, \<open>Worker_Log\<close>, \<open>Engine_Log\<close>: what the program prints: the report of
    \<open>stats_thread_main\<close>, the messages of \<open>dpi_engine_load_rules\<close>, the verdict lines of
    \<open>worker_thread_main\<close>, the messages of \<open>dpi_engine_alloc_scratch\<close> and \<open>dpi_engine_scan\<close>.
  \<^item> \<open>Threads\<close>: \<open>rx_thread_main\<close>, \<open>worker_thread_main\<close>, \<open>tx_thread_main\<close> and \<open>stats_thread_main\<close> as whole
    functions; \<open>usage\<close> and the exit texts of \<open>main\<close>.
  \<^item> \<open>Program\<close>: \<open>main\<close> as a whole: launches with the structures of thread arguments, wait, release.

  \<^bold>\<open>How the code is modelled.\<close> A C function is a HOL function on explicit state; structs are records,
  enums are datatypes, integers are words of their width, so that they wrap where the code wraps.
  Every array access goes through a checked operation, and the result \<^term>\<open>None\<close> means that the program
  has left an array or used a null pointer: theorems that a function returns \<^term>\<open>Some\<close> are the
  memory-safety theorems. Error returns and \<open>rte_exit\<close> are ordinary values. Loops are structural
  recursion, folds, or recursion with a measure; the one loop over foreign data, the hash-table sweep,
  is a partial function into \<open>option\<close>, and the theorem on the sweep shows that it ends. No fuel is used.
  Code outside the sources enters as an argument with its documented behaviour stated as a
  locale: \<open>rte_hash_contract\<close>, \<open>rte_ring_contract\<close>, \<open>hyperscan\<close>, each interpreted on an executable
  implementation, so that the hypotheses are known to be satisfiable. \<open>segment_store\<close> and
  \<open>worker_steering\<close> are the interfaces between the program's own parts and are interpreted on them.
  Clock readings, the results of the network card and of the allocators, and the contents of
  uninitialised arrays are arguments. The load figures of the statistics thread are real numbers
  with a rounding function of which only monotonicity and \<open>rnd 0 = 0\<close> are used.

  \<^bold>\<open>What is shown.\<close>
  \<^item> The system: after start-up, in every interleaving, every thread's next iteration is defined and
    no packet is lost or duplicated (below); the totals balance, order is kept, and after SIGINT or
    SIGTERM no packet moves any more and all threads return (\<open>Pipeline\<close>); start-up exits or launches a sound configuration (\<open>Startup\<close>); \<open>main\<close> launches
    threads that the rings connect and releases what it created (\<open>Program\<close>); a burst of the RX
    thread is dispatched by bucket owner (\<open>Rx_Tx\<close>).
  \<^item> Blocking, end to end: a flow that stays active is treated as if it were alone
    (\<open>Request_Verdicts\<close>; in the system, while its bucket stays with its worker, \<open>Blocking\<close>); a request or
    ClientHello, however segmented, in whatever order its segments arrive and mixed with other
    traffic, gets exactly the verdict of the rules, as long as nothing that arrives before its first
    byte itself reads like a request (\<open>completes\<close>, \<open>silent\<close>); from the completing packet on nothing of a
    blocked flow gets past the inspection. A packet is dropped only for a request spelled by the bytes
    of its own flow, and a first payload that reads like a request is the one that counts, wherever it
    lies in the stream (\<open>Drop_Causes\<close>). A bucket moves only when it is idle; a blocked flow that pauses long enough to be moved does get
    through (\<open>Moved_Flows\<close>).
  \<^item> A worker: a burst conserves packets and counts them right; a verdict is final
    (\<open>Worker_Properties\<close>); the thread returns and releases what it allocated (\<open>Threads\<close>).
  \<^item> The console: one line per verdict, which shows what was scanned (\<open>Worker_Log\<close>) and is true of the
    rules unless an error is reported (\<open>Engine_Log\<close>); the report reads
    back as the counters (\<open>Console\<close>); every rule line is loaded or reported (\<open>Rule_Log\<close>).
  \<^item> Flows: reassembly refines a first-wins partial stream, does not depend on the order of segments
    and never changes an accepted byte; the table operations refine updates of a map of flows.
  \<^item> Parsers: memory safety on every input, the extracted fields on well-formed input, and patience
    on incomplete input.
  \<^item> Engine and rules: a rule file is read back as written; a scan answers DROP exactly when a DROP
    rule matches; a failed load forwards everything.
  \<^item> Steering: warm buckets keep their worker; a pass moves the first eight idle buckets, from the
    busiest to the least busy worker.

  \<^bold>\<open>Granularity.\<close> In \<open>Pipeline\<close> a step is a whole iteration of a thread's loop. The threads share the
  rings, which are linearizable, the counters, where every slot has one writer because the lcores are
  distinct, and the bucket table; for the latter \<open>Buckets\<close> also treats interleavings of single calls.

  \<open>Threads\<close> runs one thread at a time: each iteration comes with the shared rings and tables as the
  thread finds them, whatever the other threads have done to them.

  \<^bold>\<open>Printed numbers.\<close> \<open>%.0f\<close> and \<open>%.2f\<close> round the exact value to the last digit, halves to even, as the
  C library does in the default rounding mode.

  \<^bold>\<open>Simplifications.\<close> The counters of rules and of compiled patterns are natural numbers; the code's
  \<open>unsigned\<close> would differ beyond \<open>2^31\<close> rules only. The error stream of \<open>main\<close> has the program's own texts,
  without the prefix of \<open>rte_exit\<close> and the diagnostics of \<open>getopt\<close>. \<open>worker_loop\<close> in \<open>Threads\<close> is given the
  iterations that happen before the flag is seen; the polling itself is in \<open>Pipeline\<close>.

  \<^bold>\<open>Not modelled.\<close> Weak-memory effects of the relaxed counters; \<open>parser_flow_classify_fallback\<close> is
  a constant function in the sources and has no property of its own; the unit tests and the Python
  scripts that generate traffic. DPDK's effects behind the calls that \<open>main\<close> makes after start-up are
  recorded as calls. What the map does not cover are comments, prototypes, include guards and macros.
\<close>

section \<open>The gateway from start-up to shutdown\<close>

text \<open>
  C1: the whole gateway. Let start-up launch the threads, with libraries that behave as documented.
  In every state that any interleaving of the threads can reach, whatever packets arrive, whatever
  the card takes, whatever allocation fails and whenever a signal comes, the next iteration of every
  thread is defined: no array is overrun by anyone. And every packet received so far is in exactly
  one place: in a worker's ring, in the TX ring, freed, freed by the TX thread, or sent.
\<close>

theorem gateway_safe:
  assumes "libs_ok ok keys slots contents matches fits pf c" and "\<forall>k. length (uninit k) = k"
    and "main_start (cf_hs c) pf uninit argv = Some (Inr (cf_launch c))" and "sys_reachable c s"
  shows "(\<forall>bufs now. length bufs \<le> BURST_SIZE \<and> (\<forall>p \<in> set bufs. mbuf_ok p) \<longrightarrow>
       sys_rx c s bufs now \<noteq> None) \<and>
    (\<forall>i scratch ft clock. i < sys_workers c \<and> sy_workers s ! i = Running (scratch, ft) \<longrightarrow>
       sys_worker c s i scratch ft clock \<noteq> None) \<and>
    (\<forall>nic_tx. (\<forall>bufs. nic_tx bufs \<le> length bufs) \<longrightarrow> sys_tx c s nic_tx \<noteq> None) \<and>
    (\<forall>sl up uc now. sy_stats_loop s = Running sl \<and> length up = MAX_WORKERS \<and> length uc = MAX_WORKERS \<longrightarrow>
       sys_stats c s sl up uc now \<noteq> None) \<and>
    (\<forall>u now. length u = MAX_WORKERS \<longrightarrow> sys_stats_start c s u now \<noteq> None) \<and>
    mset (sy_received s) = waiting contents (sys_workers c) (sy_rings s) + mset (contents (sy_tx s)) +
      mset (sy_freed s) + mset (sy_tx_freed s) + mset (sy_wire s)"
  by (rule system_safe [OF started_cfg_ok [OF assms(1-3)] assms(4)])

theorem gateway_safe_witness:
  "\<exists>l s. main_start literal_hs demo_platform (\<lambda>k. replicate k 0) demo_args = Some (Inr l) \<and>
     sys_reachable (demo_cfg l) s \<and>
     {#short_packet#} = waiting fr_items 2 (sy_rings s) + mset (fr_items (sy_tx s)) +
       mset (sy_freed s) + mset (sy_tx_freed s) + mset (sy_wire s)"
proof (rule demo_system)
  fix l s
  assume a: "main_start literal_hs demo_platform (\<lambda>k. replicate k 0) demo_args = Some (Inr l)"
    "demo_libs_ok (demo_cfg l)" "sys_workers (demo_cfg l) = 2" "sys_reachable (demo_cfg l) s"
    "sy_received s = [short_packet]"
  have start: "main_start (cf_hs (demo_cfg l)) demo_platform (\<lambda>k. replicate k 0) demo_args =
      Some (Inr (cf_launch (demo_cfg l)))" using a(1) by (simp add: demo_cfg_def)
  have "{#short_packet#} = waiting fr_items 2 (sy_rings s) + mset (fr_items (sy_tx s)) +
      mset (sy_freed s) + mset (sy_tx_freed s) + mset (sy_wire s)"
    using gateway_safe [OF a(2) _ start a(4)] unfolding a(3,5) by simp
  with a show ?thesis by blast
qed

end
